(* ===== verification/MM_Prelude.thy ===== *)
theory MM_Prelude
  imports Main "HOL-Library.Char_ord" "HOL-Library.List_Lexorder" "HOL-Library.Signed_Division"
begin

text \<open>
  Shared vocabulary of the development: Rust machine integers, the string operations the
  code uses, database calls that may fail, tables with a primary key, and the generic
  interfaces (locales) that the components instantiate.

  Integers. The workspace has no \<^verbatim>\<open>[profile]\<close> section, so a release build runs with
  overflow checks off: unchecked arithmetic wraps. Signed values are \<^typ>\<open>int\<close> and unsigned
  ones \<^typ>\<open>nat\<close>, with the wrap-around (or the saturation) written out where the source
  computes. Strings are byte strings (\<^typ>\<open>string\<close>), ordered lexicographically as Rust's
  \<^verbatim>\<open>Ord for String\<close> is.
\<close>

section \<open>Machine integers\<close>

definition i64_max :: int where "i64_max = 9223372036854775807"
definition i64_min :: int where "i64_min = - 9223372036854775808"
definition u32_max :: nat where "u32_max = 4294967295"

definition in_i64 :: "int \<Rightarrow> bool" where
  "in_i64 x \<longleftrightarrow> i64_min \<le> x \<and> x \<le> i64_max"

definition in_u32 :: "nat \<Rightarrow> bool" where
  "in_u32 n \<longleftrightarrow> n \<le> u32_max"

definition wrap_i64 :: "int \<Rightarrow> int" where
  "wrap_i64 x = (x + 9223372036854775808) mod 18446744073709551616 - 9223372036854775808"

definition sat_i64 :: "int \<Rightarrow> int" where
  "sat_i64 x = (if x < i64_min then i64_min else if i64_max < x then i64_max else x)"

definition wrap_u32 :: "nat \<Rightarrow> nat" where
  "wrap_u32 n = n mod 4294967296"

text \<open>\<^verbatim>\<open>u32 as i32\<close>, \<^verbatim>\<open>i32.max(0) as u32\<close> and \<^verbatim>\<open>i64 as u32\<close>.\<close>

definition u32_as_i32 :: "nat \<Rightarrow> int" where
  "u32_as_i32 n = (if n < 2147483648 then int n else int n - 4294967296)"

definition i32_clamp_u32 :: "int \<Rightarrow> nat" where
  "i32_clamp_u32 x = nat (max x 0)"

definition i64_as_u32 :: "int \<Rightarrow> nat" where
  "i64_as_u32 x = nat (x mod 4294967296)"

definition sat_mul_i64 :: "int \<Rightarrow> int \<Rightarrow> int" where
  "sat_mul_i64 x y = sat_i64 (x * y)"

definition sat_add_i64 :: "int \<Rightarrow> int \<Rightarrow> int" where
  "sat_add_i64 x y = sat_i64 (x + y)"

definition sat_sub_i64 :: "int \<Rightarrow> int \<Rightarrow> int" where
  "sat_sub_i64 x y = sat_i64 (x - y)"

text \<open>\<^verbatim>\<open>u32::div_ceil\<close>; it panics on a zero divisor, which no caller passes.\<close>

definition div_ceil :: "nat \<Rightarrow> nat \<Rightarrow> nat" where
  "div_ceil a b = (if a mod b = 0 then a div b else a div b + 1)"

named_theorems machine_int \<open>unfolding rules for machine integers\<close>

lemmas i64_defs = i64_max_def i64_min_def in_i64_def wrap_i64_def sat_i64_def
  sat_mul_i64_def sat_add_i64_def sat_sub_i64_def

declare i64_defs [machine_int]
declare u32_max_def [machine_int] in_u32_def [machine_int] wrap_u32_def [machine_int]

lemma wrap_i64_id [simp]: "in_i64 x \<Longrightarrow> wrap_i64 x = x"
  by (simp add: i64_defs)

lemma wrap_i64_range [simp]: "in_i64 (wrap_i64 x)"
proof -
  have "0 \<le> (x + 9223372036854775808) mod 18446744073709551616"
    and "(x + 9223372036854775808) mod 18446744073709551616 < 18446744073709551616"
    by simp_all
  then show ?thesis by (simp add: i64_defs)
qed

lemma sat_i64_id [simp]: "in_i64 x \<Longrightarrow> sat_i64 x = x"
  by (simp add: i64_defs)

lemma sat_i64_range [simp]: "in_i64 (sat_i64 x)"
  by (simp add: i64_defs)

lemma sat_i64_mono: "x \<le> y \<Longrightarrow> sat_i64 x \<le> sat_i64 y"
  by (simp add: i64_defs)

lemma sat_i64_pos: "0 < x \<Longrightarrow> 0 < sat_i64 x"
  by (simp add: i64_defs)

lemma sat_i64_nonneg: "0 \<le> x \<Longrightarrow> 0 \<le> sat_i64 x"
  by (simp add: i64_defs)

lemma sat_i64_le: "i64_min \<le> x \<Longrightarrow> sat_i64 x \<le> x"
  by (simp add: i64_defs)

lemma wrap_u32_id [simp]: "in_u32 n \<Longrightarrow> wrap_u32 n = n"
  by (simp add: machine_int)

text \<open>Evaluation of 32-bit values by integer arithmetic.\<close>

lemma wrap_u32_code [code]: "wrap_u32 n = nat (int n mod 4294967296)"
  by (simp add: wrap_u32_def nat_mod_distrib)

lemma in_u32_code [code]: "in_u32 n \<longleftrightarrow> int n \<le> 4294967295"
  by (simp add: in_u32_def u32_max_def)

lemma u32_as_i32_code [code]: "u32_as_i32 n = (if int n < 2147483648 then int n else int n - 4294967296)"
  by (simp add: u32_as_i32_def)

lemma wrap_u32_range [simp]: "in_u32 (wrap_u32 n)"
proof -
  have "n mod 4294967296 < 4294967296" by simp
  then show ?thesis by (simp add: machine_int)
qed

lemma div_ceil_ge: "0 < b \<Longrightarrow> a \<le> div_ceil a b * b"
proof -
  assume b: "0 < b"
  have e: "b * (a div b) + a mod b = a" by simp
  have "a mod b < b" using b by simp
  with e have "a mod b \<noteq> 0 \<Longrightarrow> a \<le> b * (a div b) + b" by linarith
  with e show ?thesis by (auto simp: div_ceil_def algebra_simps)
qed

lemma div_ceil_least: "0 < b \<Longrightarrow> a \<le> k * b \<Longrightarrow> div_ceil a b \<le> k"
proof -
  assume b: "0 < b" and k: "a \<le> k * b"
  have "a div b \<le> k" using div_le_mono [OF k, of b] b by simp
  moreover have "a mod b \<noteq> 0 \<Longrightarrow> a div b \<noteq> k"
  proof
    assume m: "a mod b \<noteq> 0" and e: "a div b = k"
    have "a = a div b * b + a mod b" by simp
    with e k m show False by simp
  qed
  ultimately show ?thesis by (auto simp: div_ceil_def)
qed

lemma div_ceil_lt: "0 < b \<Longrightarrow> div_ceil a b * b < a + b"
proof -
  assume b: "0 < b"
  have e: "b * (a div b) + a mod b = a" by simp
  then have "b * (a div b) \<le> a" and "a mod b \<noteq> 0 \<Longrightarrow> b * (a div b) < a" by linarith+
  with b show ?thesis by (auto simp: div_ceil_def algebra_simps)
qed

lemma div_ceil_pos: "0 < b \<Longrightarrow> 0 < a \<Longrightarrow> 0 < div_ceil a b"
  using div_ceil_ge [of b a] by (cases "div_ceil a b") auto

section \<open>Strings\<close>

text \<open>\<^verbatim>\<open>str::strip_prefix\<close> and \<^verbatim>\<open>str::starts_with\<close>.\<close>

definition starts_with :: "string \<Rightarrow> string \<Rightarrow> bool" where
  "starts_with s p \<longleftrightarrow> take (length p) s = p"

definition strip_prefix :: "string \<Rightarrow> string \<Rightarrow> string option" where
  "strip_prefix s p = (if starts_with s p then Some (drop (length p) s) else None)"

text \<open>Decimal rendering (\<^verbatim>\<open>Display for u32\<close> and \<^verbatim>\<open>i64\<close>).\<close>

definition digit_char :: "nat \<Rightarrow> char" where
  "digit_char d = char_of (48 + d)"

fun show_nat :: "nat \<Rightarrow> string" where
  "show_nat n = (if n < 10 then [digit_char n] else show_nat (n div 10) @ [digit_char (n mod 10)])"

declare show_nat.simps [simp del]

definition show_int :: "int \<Rightarrow> string" where
  "show_int x = (if x < 0 then ''-'' @ show_nat (nat (- x)) else show_nat (nat x))"

text \<open>Evaluation of \<^const>\<open>show_int\<close> by binary arithmetic instead of successors.\<close>

function show_digits :: "int \<Rightarrow> string" where
  "show_digits x = (if x < 10 then [digit_char (nat x)] else show_digits (x div 10) @ [digit_char (nat (x mod 10))])"
  by auto
termination by (relation "measure nat") auto

declare show_digits.simps [simp del]

lemma show_digits_nat: "0 \<le> x \<Longrightarrow> show_digits x = show_nat (nat x)"
proof (induction x rule: show_digits.induct)
  case (1 x)
  have "x \<ge> 10 \<Longrightarrow> show_digits (x div 10) = show_nat (nat (x div 10))" using 1 by simp
  with 1(2) show ?case
    by (subst show_digits.simps, subst show_nat.simps) (simp add: nat_div_distrib nat_mod_distrib nat_less_iff)
qed

lemma show_int_code [code]: "show_int x = (if x < 0 then ''-'' @ show_digits (- x) else show_digits x)"
  by (simp add: show_int_def show_digits_nat)

text \<open>
  \<^verbatim>\<open>str::parse::<u32>\<close>: one optional leading plus sign, then at least one decimal digit;
  a value past \<^const>\<open>u32_max\<close> is an error at the digit that overflows.
\<close>

definition digit_val :: "char \<Rightarrow> nat option" where
  "digit_val c = (let k = of_char c in if 48 \<le> k \<and> k \<le> 57 then Some (k - 48) else None)"

fun parse_digits :: "nat \<Rightarrow> string \<Rightarrow> nat option" where
  "parse_digits acc [] = Some acc"
| "parse_digits acc (c # cs) =
     (case digit_val c of None \<Rightarrow> None
      | Some d \<Rightarrow> if acc * 10 + d \<le> u32_max then parse_digits (acc * 10 + d) cs else None)"

fun parse_u32 :: "string \<Rightarrow> nat option" where
  "parse_u32 [] = None"
| "parse_u32 (c # cs) =
     (if c = CHR ''+'' then (if cs = [] then None else parse_digits 0 cs)
      else parse_digits 0 (c # cs))"

lemma strip_prefix_append [simp]: "strip_prefix (p @ s) p = Some s"
  by (simp add: strip_prefix_def starts_with_def)

lemma strip_prefix_Some: "strip_prefix s p = Some r \<longleftrightarrow> s = p @ r"
  by (auto simp: strip_prefix_def starts_with_def) (metis append_take_drop_id)

lemma starts_with_iff: "starts_with s p \<longleftrightarrow> (\<exists>r. s = p @ r)"
  by (auto simp: starts_with_def) (metis append_take_drop_id)

lemma digit_val_digit_char [simp]: "d < 10 \<Longrightarrow> digit_val (digit_char d) = Some d"
  by (simp add: digit_val_def digit_char_def)

lemma digit_char_not_plus [simp]: "d < 10 \<Longrightarrow> digit_char d \<noteq> CHR ''+''"
proof
  assume "d < 10" and "digit_char d = CHR ''+''"
  then have "of_char (digit_char d) = (43::nat)" by simp
  with \<open>d < 10\<close> show False by (simp add: digit_char_def)
qed

lemma show_nat_nonempty [simp]: "show_nat n \<noteq> []"
  by (subst show_nat.simps) simp

lemma show_nat_hd_digit: "\<exists>d < 10. hd (show_nat n) = digit_char d"
proof (induction n rule: show_nat.induct)
  case (1 n)
  show ?case
  proof (cases "n < 10")
    case True
    then show ?thesis by (subst show_nat.simps) auto
  next
    case False
    with 1 show ?thesis by (subst show_nat.simps) (auto simp: hd_append)
  qed
qed

lemma parse_digits_append:
  "parse_digits acc (xs @ ys) = Option.bind (parse_digits acc xs) (\<lambda>a. parse_digits a ys)"
  by (induction acc xs rule: parse_digits.induct) (auto split: option.splits)

lemma parse_digits_show_nat: "n \<le> u32_max \<Longrightarrow> parse_digits 0 (show_nat n) = Some n"
proof (induction n rule: show_nat.induct)
  case (1 n)
  show ?case
  proof (cases "n < 10")
    case True
    with 1 show ?thesis by (subst show_nat.simps) simp
  next
    case False
    have "n div 10 \<le> u32_max" using "1.prems" by simp
    with 1 False have "parse_digits 0 (show_nat (n div 10)) = Some (n div 10)" by blast
    with False "1.prems" show ?thesis
      by (subst show_nat.simps) (simp add: parse_digits_append)
  qed
qed

lemma parse_u32_show_nat: "n \<le> u32_max \<Longrightarrow> parse_u32 (show_nat n) = Some n"
proof -
  assume n: "n \<le> u32_max"
  obtain c cs where s: "show_nat n = c # cs" by (cases "show_nat n") auto
  obtain d where "d < 10" "c = digit_char d" using show_nat_hd_digit [of n] s by auto
  then have "c \<noteq> CHR ''+''" by simp
  with parse_digits_show_nat [OF n] s show ?thesis by (simp del: parse_digits.simps)
qed

lemma parse_digits_bound: "parse_digits acc s = Some n \<Longrightarrow> acc \<le> u32_max \<Longrightarrow> n \<le> u32_max"
  by (induction acc s rule: parse_digits.induct) (auto split: option.splits if_splits)

lemma parse_u32_bound: "parse_u32 s = Some n \<Longrightarrow> n \<le> u32_max"
  by (cases s) (auto split: if_splits dest!: parse_digits_bound
      simp del: parse_digits.simps simp: u32_max_def)

lemma show_nat_inj: "m \<le> u32_max \<Longrightarrow> n \<le> u32_max \<Longrightarrow> show_nat m = show_nat n \<Longrightarrow> m = n"
  by (metis option.inject parse_u32_show_nat)

section \<open>Database calls that may fail\<close>

text \<open>
  Every call on the pool returns a \<^verbatim>\<open>Result\<close>: it can fail before it takes effect, or the
  acknowledgement can be lost after it did. A schedule decides per call, by the number of
  calls made so far, which of the three happens; the theorems quantify over every schedule.
  A multi-statement transaction is one call: it commits as a whole or not at all.
\<close>

datatype fault = Works | FailsBefore string | FailsAfter string

type_synonym schedule = "nat \<Rightarrow> fault"

type_synonym 's world = "'s \<times> nat"

definition db_call :: "schedule \<Rightarrow> ('s \<Rightarrow> 'a \<times> 's) \<Rightarrow> 's world \<Rightarrow> (string + 'a) \<times> 's world" where
  "db_call \<phi> f w =
     (case \<phi> (snd w) of
        Works \<Rightarrow> (Inr (fst (f (fst w))), (snd (f (fst w)), Suc (snd w)))
      | FailsBefore e \<Rightarrow> (Inl e, (fst w, Suc (snd w)))
      | FailsAfter e \<Rightarrow> (Inl e, (snd (f (fst w)), Suc (snd w))))"

text \<open>A read: no effect on the tables.\<close>

definition db_read :: "schedule \<Rightarrow> ('s \<Rightarrow> 'a) \<Rightarrow> 's world \<Rightarrow> (string + 'a) \<times> 's world" where
  "db_read \<phi> q = db_call \<phi> (\<lambda>s. (q s, s))"

definition no_faults :: schedule where
  "no_faults n = Works"

lemma db_call_no_faults [simp]:
  "db_call no_faults f w = (Inr (fst (f (fst w))), (snd (f (fst w)), Suc (snd w)))"
  by (simp add: db_call_def no_faults_def)

lemma db_call_cases:
  obtains "fst (db_call \<phi> f w) = Inr (fst (f (fst w)))" "fst (snd (db_call \<phi> f w)) = snd (f (fst w))"
  | e where "fst (db_call \<phi> f w) = Inl e" "fst (snd (db_call \<phi> f w)) = fst w"
  | e where "fst (db_call \<phi> f w) = Inl e" "fst (snd (db_call \<phi> f w)) = snd (f (fst w))"
  by (cases "\<phi> (snd w)") (auto simp: db_call_def)

lemma db_call_state:
  "fst (snd (db_call \<phi> f w)) = fst w \<or> fst (snd (db_call \<phi> f w)) = snd (f (fst w))"
  by (rule db_call_cases [of \<phi> f w]) auto

lemma db_call_Inr:
  "fst (db_call \<phi> f w) = Inr a \<Longrightarrow> a = fst (f (fst w)) \<and> fst (snd (db_call \<phi> f w)) = snd (f (fst w))"
  by (rule db_call_cases [of \<phi> f w]) auto

lemma db_call_inv:
  "P (fst w) \<Longrightarrow> P (snd (f (fst w))) \<Longrightarrow> P (fst (snd (db_call \<phi> f w)))"
  using db_call_state [of \<phi> f w] by auto

lemma db_read_state [simp]: "fst (snd (db_read \<phi> q w)) = fst w"
  using db_call_state [of \<phi> "\<lambda>s. (q s, s)" w] by (auto simp: db_read_def)

lemma db_read_Inr [simp]: "fst (db_read \<phi> q w) = Inr a \<Longrightarrow> a = q (fst w)"
  using db_call_Inr [of \<phi> "\<lambda>s. (q s, s)" w] by (auto simp: db_read_def)

lemma db_read_no_faults [simp]: "db_read no_faults q w = (Inr (q (fst w)), (fst w, Suc (snd w)))"
  by (simp add: db_read_def)

section \<open>Tables with a primary key\<close>

text \<open>
  \<^verbatim>\<open>INSERT ... ON CONFLICT (key) DO UPDATE SET ...\<close>: a row with the same key is replaced by
  \<open>mrg old new\<close>, otherwise the row is added.
\<close>

definition upsert :: "('r \<Rightarrow> 'k) \<Rightarrow> ('r \<Rightarrow> 'r \<Rightarrow> 'r) \<Rightarrow> 'r \<Rightarrow> 'r list \<Rightarrow> 'r list" where
  "upsert key mrg r t =
     (if key r \<in> set (map key t) then map (\<lambda>x. if key x = key r then mrg x r else x) t
      else t @ [r])"

definition lookup_row :: "('r \<Rightarrow> 'k) \<Rightarrow> 'k \<Rightarrow> 'r list \<Rightarrow> 'r option" where
  "lookup_row key k t = find (\<lambda>x. key x = k) t"

lemma lookup_row_None: "lookup_row key k t = None \<longleftrightarrow> k \<notin> key ` set t"
  by (auto simp: lookup_row_def find_None_iff)

lemma lookup_row_Some_set: "lookup_row key k t = Some r \<Longrightarrow> r \<in> set t \<and> key r = k"
  by (auto simp: lookup_row_def find_Some_iff)

lemma lookup_row_distinct:
  "distinct (map key t) \<Longrightarrow> lookup_row key k t = Some r \<longleftrightarrow> r \<in> set t \<and> key r = k"
proof (induction t)
  case Nil
  then show ?case by (simp add: lookup_row_def)
next
  case (Cons x t)
  then show ?case by (force simp: lookup_row_def)
qed

text \<open>The contract of a keyed table: merging keeps the key of the row it replaces.\<close>

locale keyed_table =
  fixes key :: "'r \<Rightarrow> 'k" and mrg :: "'r \<Rightarrow> 'r \<Rightarrow> 'r"
  assumes key_mrg: "key x = key r \<Longrightarrow> key (mrg x r) = key r"
begin

lemma map_key_update [simp]:
  "map key (map (\<lambda>x. if key x = key r then mrg x r else x) t) = map key t"
  by (induction t) (auto simp: key_mrg)

lemma upsert_distinct: "distinct (map key t) \<Longrightarrow> distinct (map key (upsert key mrg r t))"
  by (simp add: upsert_def del: map_map)

lemma upsert_keys: "key ` set (upsert key mrg r t) = insert (key r) (key ` set t)"
proof (cases "key r \<in> set (map key t)")
  case True
  have "set (map key (upsert key mrg r t)) = set (map key t)"
    using True by (simp only: upsert_def if_True map_key_update)
  then show ?thesis using True by auto
next
  case False
  then show ?thesis by (simp add: upsert_def)
qed

lemma upsert_lookup_other:
  "k \<noteq> key r \<Longrightarrow> lookup_row key k (upsert key mrg r t) = lookup_row key k t"
proof -
  assume k: "k \<noteq> key r"
  have "find (\<lambda>x. key x = k) (map (\<lambda>x. if key x = key r then mrg x r else x) t) =
        find (\<lambda>x. key x = k) t"
    using k by (induction t) (auto simp: key_mrg)
  moreover have "find (\<lambda>x. key x = k) (t @ [r]) = find (\<lambda>x. key x = k) t"
    using k by (induction t) auto
  ultimately show ?thesis by (simp add: upsert_def lookup_row_def)
qed

lemma upsert_lookup_same:
  "lookup_row key (key r) (upsert key mrg r t) =
     Some (case lookup_row key (key r) t of None \<Rightarrow> r | Some x \<Rightarrow> mrg x r)"
proof (induction t)
  case Nil
  then show ?case by (simp add: upsert_def lookup_row_def)
next
  case (Cons x t)
  then show ?case
    by (auto simp: upsert_def lookup_row_def key_mrg split: if_splits option.splits)
qed

lemma upsert_all:
  "(\<And>x. x \<in> set t \<Longrightarrow> P x) \<Longrightarrow> P r \<Longrightarrow>
   (\<And>x. x \<in> set t \<Longrightarrow> key x = key r \<Longrightarrow> P (mrg x r)) \<Longrightarrow>
   x \<in> set (upsert key mrg r t) \<Longrightarrow> P x"
  by (auto simp: upsert_def split: if_splits)

lemma upsert_other_rows:
  "key x \<noteq> key r \<Longrightarrow> x \<in> set (upsert key mrg r t) \<longleftrightarrow> x \<in> set t"
  by (auto simp: upsert_def key_mrg)

end

section \<open>Enumerations with a wire form\<close>

text \<open>
  \<^verbatim>\<open>as_str\<close>, \<^verbatim>\<open>parse\<close> and \<^verbatim>\<open>ALL\<close> of the source's enums. Every enum prints to a form it
  parses back; an exact one accepts nothing else, which is what makes its labels agree with
  the \<^verbatim>\<open>CHECK (col IN (...))\<close> constraint of the column that stores it.
\<close>

locale printable_enum =
  fixes as_str :: "'a \<Rightarrow> string" and parse :: "string \<Rightarrow> 'a option"
  assumes parse_as_str: "parse (as_str x) = Some x"
begin

lemma as_str_inj: "as_str x = as_str y \<Longrightarrow> x = y"
  by (metis option.inject parse_as_str)

end

locale exact_enum = printable_enum +
  fixes all_vals :: "'a list"
  assumes parse_exact: "parse s = Some x \<Longrightarrow> s = as_str x"
    and all_listed: "x \<in> set all_vals"
    and all_distinct: "distinct all_vals"
begin

lemma parse_iff: "parse s = Some x \<longleftrightarrow> s = as_str x"
  using parse_exact parse_as_str by auto

lemma parse_None_iff: "parse s = None \<longleftrightarrow> s \<notin> set (map as_str all_vals)"
proof
  assume "parse s = None"
  then show "s \<notin> set (map as_str all_vals)" by (auto simp: parse_as_str)
next
  assume n: "s \<notin> set (map as_str all_vals)"
  show "parse s = None"
  proof (cases "parse s")
    case (Some x)
    then have "s = as_str x" by (rule parse_exact)
    with all_listed [of x] n show ?thesis by simp
  qed simp
qed

lemma labels_distinct: "distinct (map as_str all_vals)"
  using all_distinct by (auto simp: distinct_map inj_on_def dest: as_str_inj)

lemma wire_form: "parse (as_str x) = Some x \<and> (\<forall>s. parse s = Some x \<longrightarrow> s = as_str x)
   \<and> (\<forall>s. parse s = None \<longleftrightarrow> s \<notin> set (map as_str all_vals)) \<and> distinct (map as_str all_vals)"
  using parse_iff parse_None_iff labels_distinct parse_as_str by blast

end

section \<open>State machines and their invariants\<close>

text \<open>
  A component driven by events: if the start states satisfy the invariant and every allowed
  event keeps it, every run of allowed events from a start state satisfies it. A component that
  accepts every event is the special case.
\<close>

locale guarded_system =
  fixes step :: "'e \<Rightarrow> 's \<Rightarrow> 's" and allowed :: "'e \<Rightarrow> bool" and Inv :: "'s \<Rightarrow> bool"
  assumes allowed_step_keeps: "allowed e \<Longrightarrow> Inv s \<Longrightarrow> Inv (step e s)"
begin

lemma allowed_run_keeps: "list_all allowed es \<Longrightarrow> Inv s \<Longrightarrow> Inv (fold step es s)"
  by (induction es arbitrary: s) (auto intro: allowed_step_keeps)

end

locale invariant_system =
  fixes step :: "'e \<Rightarrow> 's \<Rightarrow> 's" and Inv :: "'s \<Rightarrow> bool"
  assumes step_keeps: "Inv s \<Longrightarrow> Inv (step e s)"

sublocale invariant_system \<subseteq> every: guarded_system step "\<lambda>_. True" Inv
  by unfold_locales (rule step_keeps)

context invariant_system begin

lemma run_keeps: "Inv s \<Longrightarrow> Inv (fold step es s)"
  by (rule every.allowed_run_keeps) (simp_all add: list_all_iff)

end

end
