(* ===== verification/Fleet_Types.thy ===== *)
theory Fleet_Types
  imports MM_Prelude
begin

text \<open>
  The vocabulary of the broadcast fleet (\<^verbatim>\<open>crates/mm-core/src/fleet/mod.rs\<close>): how a machine
  came to be ours, what it does, where it is in its life, and the three predicates every other
  component asks of a node: may it take a viewer, may it be destroyed, is it being billed.
  The fleet kill switch (\<^verbatim>\<open>FleetMode\<close> of \<^verbatim>\<open>crates/mm-core/src/config.rs\<close>) is here too.
\<close>

section \<open>Ownership, flavor, state\<close>

datatype ownership = Owned | Leased | Rented

definition ownership_is_reapable :: "ownership \<Rightarrow> bool" where
  "ownership_is_reapable w = (case w of Rented \<Rightarrow> True | _ \<Rightarrow> False)"

definition requires_destroy_deadline :: "ownership \<Rightarrow> bool" where
  "requires_destroy_deadline w = ownership_is_reapable w"

fun ownership_as_str :: "ownership \<Rightarrow> string" where
  "ownership_as_str Owned = ''owned''"
| "ownership_as_str Leased = ''leased''"
| "ownership_as_str Rented = ''rented''"

definition ownership_parse :: "string \<Rightarrow> ownership option" where
  "ownership_parse raw =
     (if raw = ''owned'' then Some Owned
      else if raw = ''leased'' then Some Leased
      else if raw = ''rented'' then Some Rented
      else None)"

definition ownership_all :: "ownership list" where
  "ownership_all = [Owned, Leased, Rented]"

datatype node_flavor = Origin | Fanout | Edge | Transcode

definition is_fleet :: "node_flavor \<Rightarrow> bool" where
  "is_fleet f = (case f of Origin \<Rightarrow> False | _ \<Rightarrow> True)"

definition serves_webrtc_viewers :: "node_flavor \<Rightarrow> bool" where
  "serves_webrtc_viewers f = (case f of Origin \<Rightarrow> True | Fanout \<Rightarrow> True | _ \<Rightarrow> False)"

fun flavor_as_str :: "node_flavor \<Rightarrow> string" where
  "flavor_as_str Origin = ''origin''"
| "flavor_as_str Fanout = ''fanout''"
| "flavor_as_str Edge = ''edge''"
| "flavor_as_str Transcode = ''transcode''"

definition flavor_parse :: "string \<Rightarrow> node_flavor option" where
  "flavor_parse raw =
     (if raw = ''origin'' then Some Origin
      else if raw = ''fanout'' then Some Fanout
      else if raw = ''edge'' then Some Edge
      else if raw = ''transcode'' then Some Transcode
      else None)"

definition flavor_all :: "node_flavor list" where
  "flavor_all = [Origin, Fanout, Edge, Transcode]"

datatype node_state = Requested | Booting | Healthy | Draining | Destroying | Gone

definition accepts_new_viewers :: "node_state \<Rightarrow> bool" where
  "accepts_new_viewers s = (case s of Healthy \<Rightarrow> True | _ \<Rightarrow> False)"

definition is_probably_billing :: "node_state \<Rightarrow> bool" where
  "is_probably_billing s = (case s of Gone \<Rightarrow> False | _ \<Rightarrow> True)"

fun state_as_str :: "node_state \<Rightarrow> string" where
  "state_as_str Requested = ''requested''"
| "state_as_str Booting = ''booting''"
| "state_as_str Healthy = ''healthy''"
| "state_as_str Draining = ''draining''"
| "state_as_str Destroying = ''destroying''"
| "state_as_str Gone = ''gone''"

definition state_parse :: "string \<Rightarrow> node_state option" where
  "state_parse raw =
     (if raw = ''requested'' then Some Requested
      else if raw = ''booting'' then Some Booting
      else if raw = ''healthy'' then Some Healthy
      else if raw = ''draining'' then Some Draining
      else if raw = ''destroying'' then Some Destroying
      else if raw = ''gone'' then Some Gone
      else None)"

definition state_all :: "node_state list" where
  "state_all = [Requested, Booting, Healthy, Draining, Destroying, Gone]"

section \<open>A node as mm-core understands it\<close>

record fleet_node =
  fn_id :: string
  fn_flavor :: node_flavor
  fn_ownership :: ownership
  fn_state :: node_state
  fn_viewer_capacity :: nat
  fn_viewers_current :: nat

text \<open>\<^verbatim>\<open>saturating_sub\<close> on \<^verbatim>\<open>u32\<close> is subtraction on \<^typ>\<open>nat\<close>.\<close>

definition headroom :: "fleet_node \<Rightarrow> nat" where
  "headroom n = fn_viewer_capacity n - fn_viewers_current n"

definition is_placeable :: "fleet_node \<Rightarrow> bool" where
  "is_placeable n \<longleftrightarrow> accepts_new_viewers (fn_state n) \<and> serves_webrtc_viewers (fn_flavor n)
     \<and> headroom n > 0"

definition node_is_reapable :: "fleet_node \<Rightarrow> bool" where
  "node_is_reapable n \<longleftrightarrow> ownership_is_reapable (fn_ownership n) \<and> fn_state n \<noteq> Gone"

section \<open>The kill switch\<close>

datatype fleet_mode = On | Frozen | Off

text \<open>
  \<^verbatim>\<open>str::trim\<close> drops Unicode white space at both ends; these are its UTF-8 encodings. The
  code points have one, two or three bytes.
\<close>

definition white_space :: "string list" where
  "white_space =
    [[CHR 0x09], [CHR 0x0A], [CHR 0x0B], [CHR 0x0C], [CHR 0x0D], [CHR 0x20],
     [CHR 0xC2, CHR 0x85], [CHR 0xC2, CHR 0xA0], [CHR 0xE1, CHR 0x9A, CHR 0x80],
     [CHR 0xE2, CHR 0x80, CHR 0x80], [CHR 0xE2, CHR 0x80, CHR 0x81],
     [CHR 0xE2, CHR 0x80, CHR 0x82], [CHR 0xE2, CHR 0x80, CHR 0x83],
     [CHR 0xE2, CHR 0x80, CHR 0x84], [CHR 0xE2, CHR 0x80, CHR 0x85],
     [CHR 0xE2, CHR 0x80, CHR 0x86], [CHR 0xE2, CHR 0x80, CHR 0x87],
     [CHR 0xE2, CHR 0x80, CHR 0x88], [CHR 0xE2, CHR 0x80, CHR 0x89],
     [CHR 0xE2, CHR 0x80, CHR 0x8A], [CHR 0xE2, CHR 0x80, CHR 0xA8],
     [CHR 0xE2, CHR 0x80, CHR 0xA9], [CHR 0xE2, CHR 0x80, CHR 0xAF],
     [CHR 0xE2, CHR 0x81, CHR 0x9F], [CHR 0xE3, CHR 0x80, CHR 0x80]]"

definition ws_at_start :: "string \<Rightarrow> nat" where
  "ws_at_start s = (case find (\<lambda>w. starts_with s w) white_space of None \<Rightarrow> 0 | Some w \<Rightarrow> length w)"

definition ws_at_end :: "string \<Rightarrow> nat" where
  "ws_at_end s =
     (case find (\<lambda>w. starts_with (rev s) (rev w)) white_space of None \<Rightarrow> 0 | Some w \<Rightarrow> length w)"

function trim_start :: "string \<Rightarrow> string" where
  "trim_start s = (if s = [] \<or> ws_at_start s = 0 then s else trim_start (drop (ws_at_start s) s))"
  by pat_completeness auto
termination
  by (relation "measure length") auto

function trim_end :: "string \<Rightarrow> string" where
  "trim_end s =
     (if s = [] \<or> ws_at_end s = 0 then s else trim_end (take (length s - ws_at_end s) s))"
  by pat_completeness auto
termination
  by (relation "measure length") auto

declare trim_start.simps [simp del] trim_end.simps [simp del]

definition trim :: "string \<Rightarrow> string" where
  "trim s = trim_end (trim_start s)"

definition ascii_lower :: "char \<Rightarrow> char" where
  "ascii_lower c = (let k = of_char c in if 65 \<le> k \<and> k \<le> 90 then char_of (k + 32 :: nat) else c)"

definition to_ascii_lowercase :: "string \<Rightarrow> string" where
  "to_ascii_lowercase = map ascii_lower"

definition fleet_mode_parse :: "string \<Rightarrow> fleet_mode option" where
  "fleet_mode_parse raw =
     (let s = to_ascii_lowercase (trim raw) in
      if s = ''on'' then Some On
      else if s = ''frozen'' then Some Frozen
      else if s = ''off'' then Some Off
      else None)"

fun fleet_mode_display :: "fleet_mode \<Rightarrow> string" where
  "fleet_mode_display On = ''on''"
| "fleet_mode_display Frozen = ''frozen''"
| "fleet_mode_display Off = ''off''"

definition allows_placement :: "fleet_mode \<Rightarrow> bool" where
  "allows_placement m = (case m of On \<Rightarrow> True | _ \<Rightarrow> False)"

definition drains_existing_viewers :: "fleet_mode \<Rightarrow> bool" where
  "drains_existing_viewers m = (case m of Off \<Rightarrow> True | _ \<Rightarrow> False)"

section \<open>Lemmas\<close>

named_theorems fleet_simps \<open>unfolding rules for the fleet predicates\<close>

declare ownership_is_reapable_def [fleet_simps] requires_destroy_deadline_def [fleet_simps]
  is_fleet_def [fleet_simps] serves_webrtc_viewers_def [fleet_simps]
  accepts_new_viewers_def [fleet_simps] is_probably_billing_def [fleet_simps]
  headroom_def [fleet_simps] is_placeable_def [fleet_simps] node_is_reapable_def [fleet_simps]
  allows_placement_def [fleet_simps] drains_existing_viewers_def [fleet_simps]

lemma reapable_iff [simp]: "ownership_is_reapable w \<longleftrightarrow> w = Rented"
  by (cases w) (simp_all add: fleet_simps)

lemma requires_deadline_iff [simp]: "requires_destroy_deadline w \<longleftrightarrow> w = Rented"
  by (simp add: requires_destroy_deadline_def)

lemma allows_placement_iff [simp]: "allows_placement m \<longleftrightarrow> m = On"
  by (cases m) (simp_all add: fleet_simps)

interpretation ownership_wire: exact_enum ownership_as_str ownership_parse ownership_all
proof
  fix x s
  show "ownership_parse (ownership_as_str x) = Some x"
    by (cases x) (simp_all add: ownership_parse_def)
  show "ownership_parse s = Some x \<Longrightarrow> s = ownership_as_str x"
    by (auto simp: ownership_parse_def split: if_splits)
  show "x \<in> set ownership_all" by (cases x) (simp_all add: ownership_all_def)
  show "distinct ownership_all" by (simp add: ownership_all_def)
qed

interpretation flavor_wire: exact_enum flavor_as_str flavor_parse flavor_all
proof
  fix x s
  show "flavor_parse (flavor_as_str x) = Some x"
    by (cases x) (simp_all add: flavor_parse_def)
  show "flavor_parse s = Some x \<Longrightarrow> s = flavor_as_str x"
    by (auto simp: flavor_parse_def split: if_splits)
  show "x \<in> set flavor_all" by (cases x) (simp_all add: flavor_all_def)
  show "distinct flavor_all" by (simp add: flavor_all_def)
qed

interpretation state_wire: exact_enum state_as_str state_parse state_all
proof
  fix x s
  show "state_parse (state_as_str x) = Some x"
    by (cases x) (simp_all add: state_parse_def)
  show "state_parse s = Some x \<Longrightarrow> s = state_as_str x"
    by (auto simp: state_parse_def split: if_splits)
  show "x \<in> set state_all" by (cases x) (simp_all add: state_all_def)
  show "distinct state_all" by (simp add: state_all_def)
qed

lemma trim_fleet_labels [simp]:
  "trim ''on'' = ''on''" "trim ''frozen'' = ''frozen''" "trim ''off'' = ''off''"
  by code_simp+

interpretation fleet_mode_wire: printable_enum fleet_mode_display fleet_mode_parse
proof
  fix x
  show "fleet_mode_parse (fleet_mode_display x) = Some x"
    by (cases x) (simp_all add: fleet_mode_parse_def to_ascii_lowercase_def ascii_lower_def)
qed

end
