(* ===== verification/Fleet_Billing.thy ===== *)
theory Fleet_Billing
  imports Fleet_Types
begin

text \<open>
  How a provider charges (\<^verbatim>\<open>crates/mm-core/src/fleet/billing.rs\<close>). Instants are
  nanoseconds (chrono's resolution) and durations are differences of instants;
  \<^verbatim>\<open>TimeDelta::num_seconds\<close> truncates towards zero.

  Shown: a rounded TTL is the least whole number of billing periods that covers the request
  (and where \<^verbatim>\<open>u32\<close> arithmetic wraps instead); a teardown deferred to a billing boundary is
  deferred by at most one period past the deadline; and the exact price of that deferral.
\<close>

type_synonym instant = int

definition secs :: "int \<Rightarrow> instant" where
  "secs n = n * 1000000000"

definition num_seconds :: "instant \<Rightarrow> int" where
  "num_seconds d = d sdiv 1000000000"

datatype billing_increment = PerSecond | PerMinute | PerHour

fun inc_seconds :: "billing_increment \<Rightarrow> int" where
  "inc_seconds PerSecond = 1"
| "inc_seconds PerMinute = 60"
| "inc_seconds PerHour = 3600"

definition worth_aligning_teardown :: "billing_increment \<Rightarrow> bool" where
  "worth_aligning_teardown i = (case i of PerHour \<Rightarrow> True | _ \<Rightarrow> False)"

definition round_ttl_secs :: "billing_increment \<Rightarrow> nat \<Rightarrow> nat" where
  "round_ttl_secs i requested =
     (let unit = nat (inc_seconds i) in
      if requested = 0 then unit
      else wrap_u32 (div_ceil requested unit * unit))"

definition periods_owed :: "billing_increment \<Rightarrow> instant \<Rightarrow> instant \<Rightarrow> nat" where
  "periods_owed i started_at ended_at =
     (let s = num_seconds (ended_at - started_at) in
      if s \<le> 0 then 1
      else let unit = inc_seconds i in i64_as_u32 (max ((s + unit - 1) sdiv unit) 1))"

definition next_period_boundary :: "billing_increment \<Rightarrow> instant \<Rightarrow> instant \<Rightarrow> instant" where
  "next_period_boundary i started_at now =
     (let unit = inc_seconds i; elapsed = num_seconds (now - started_at) in
      if elapsed < 0 then started_at
      else started_at + secs ((elapsed sdiv unit + 1) * unit))"

definition aligned_teardown_at ::
  "billing_increment \<Rightarrow> instant option \<Rightarrow> instant \<Rightarrow> instant \<Rightarrow> instant option" where
  "aligned_teardown_at i billing_started_at destroy_deadline now =
     (if \<not> worth_aligning_teardown i then None
      else case billing_started_at of
        None \<Rightarrow> None
      | Some started_at \<Rightarrow>
          (let boundary = next_period_boundary i started_at destroy_deadline in
           if boundary > now then Some boundary else None))"

section \<open>Lemmas\<close>

lemma sdiv_nonneg: "0 \<le> (a::int) \<Longrightarrow> 0 < b \<Longrightarrow> a sdiv b = a div b"
  by (simp add: signed_divide_int_def sgn_if)

lemma worth_aligning_iff [simp]: "worth_aligning_teardown i \<longleftrightarrow> i = PerHour"
  by (cases i) (simp_all add: worth_aligning_teardown_def)

lemma inc_seconds_pos [simp]: "0 < inc_seconds i"
  by (cases i) simp_all

lemma num_seconds_nonneg: "0 \<le> d \<Longrightarrow> num_seconds d = d div 1000000000"
  by (simp add: num_seconds_def sdiv_nonneg)

lemma num_seconds_secs [simp]: "0 \<le> n \<Longrightarrow> num_seconds (secs n) = n"
  by (simp add: num_seconds_nonneg secs_def)

lemma i64_as_u32_id: "0 \<le> x \<Longrightarrow> x < 4294967296 \<Longrightarrow> i64_as_u32 x = nat x"
  by (simp add: i64_as_u32_def)

lemma aligned_SomeD:
  "aligned_teardown_at i b dl now = Some t \<Longrightarrow>
   i = PerHour \<and> now < t \<and> (\<exists>s. b = Some s \<and> t = next_period_boundary PerHour s dl)"
  by (auto simp: aligned_teardown_at_def Let_def split: if_splits option.splits)

lemma boundary_window:
  assumes "s \<le> dl"
  shows "dl < next_period_boundary PerHour s dl"
    and "next_period_boundary PerHour s dl \<le> dl + secs 3600"
proof -
  define e where "e = (dl - s) div 1000000000"
  have e0: "0 \<le> e" using assms by (simp add: e_def pos_imp_zdiv_nonneg_iff)
  have b: "next_period_boundary PerHour s dl = s + secs ((e div 3600 + 1) * 3600)"
    using assms e0 by (simp add: next_period_boundary_def num_seconds_nonneg sdiv_nonneg e_def)
  have lo: "e * 1000000000 \<le> dl - s" and hi: "dl - s < (e + 1) * 1000000000"
    unfolding e_def by (simp_all add: algebra_simps)
  have "e = 3600 * (e div 3600) + e mod 3600" and "0 \<le> e mod 3600" and "e mod 3600 < 3600"
    by simp_all
  then have u: "e + 1 \<le> 3600 * (e div 3600) + 3600" and v: "3600 * (e div 3600) \<le> e"
    by linarith+
  show "dl < next_period_boundary PerHour s dl"
    using hi u unfolding b secs_def by (simp add: algebra_simps)
  show "next_period_boundary PerHour s dl \<le> dl + secs 3600"
    using lo v unfolding b secs_def by (simp add: algebra_simps)
qed

lemma hours_ceiling:
  assumes "0 < (e::int)"
  shows "(3599 + e) div 3600 = (if 3600 dvd e then e div 3600 else e div 3600 + 1)"
    and "3600 dvd e \<Longrightarrow> 1 \<le> e div 3600"
proof -
  define q r where "q = e div 3600" and "r = e mod 3600"
  have e: "e = 3600 * q + r" and r: "0 \<le> r" "r < 3600" by (simp_all add: q_def r_def)
  have d: "3600 dvd e \<longleftrightarrow> r = 0" by (simp add: r_def dvd_eq_mod_eq_0)
  have "3599 + e = (r + 3599) + 3600 * q" using e by simp
  then have "(3599 + e) div 3600 = (r + 3599) div 3600 + q"
    by (simp only: div_mult_self2)
  moreover have "(r + 3599) div 3600 = (if r = 0 then 0 else 1)"
    using r by (auto simp: div_pos_pos_trivial div_pos_geq)
  ultimately show "(3599 + e) div 3600 = (if 3600 dvd e then e div 3600 else e div 3600 + 1)"
    using d by (simp add: q_def)
  show "3600 dvd e \<Longrightarrow> 1 \<le> e div 3600"
    using d e assms by (simp add: q_def [symmetric])
qed

lemma round_ttl_exact:
  assumes "r \<le> 4294965600" and "r \<noteq> 0"
  shows "round_ttl_secs i r = div_ceil r (nat (inc_seconds i)) * nat (inc_seconds i)"
proof -
  have "div_ceil r (nat (inc_seconds i)) * nat (inc_seconds i) \<le> 4294965600"
    using assms div_ceil_least [of 1 r 4294965600] div_ceil_least [of 60 r 71582760]
      div_ceil_least [of 3600 r 1193046]
    by (cases i) simp_all
  then have "in_u32 (div_ceil r (nat (inc_seconds i)) * nat (inc_seconds i))"
    by (simp add: in_u32_def u32_max_def)
  with assms show ?thesis by (simp add: round_ttl_secs_def Let_def)
qed

lemma round_ttl_wraps:
  assumes "in_u32 q" and "4294965600 < q"
  shows "round_ttl_secs PerHour q = 1904"
proof -
  have "div_ceil q 3600 \<le> 1193047"
    by (rule div_ceil_least) (use assms in \<open>simp_all add: in_u32_def u32_max_def\<close>)
  moreover have "q \<le> div_ceil q 3600 * 3600" by (rule div_ceil_ge) simp
  ultimately have "div_ceil q 3600 = 1193047" using assms by linarith
  with assms show ?thesis by (simp add: round_ttl_secs_def wrap_u32_def)
qed

lemma periods_owed_hours:
  assumes "0 < n" and "n < 4294967296"
  shows "periods_owed PerHour s (s + secs (n * 3600)) = nat n"
  using assms by (simp add: periods_owed_def sdiv_nonneg i64_as_u32_id Let_def)

section \<open>Properties\<close>

text \<open>A TTL request of at most 4294965600 seconds is rounded to the least positive whole
  number of billing periods that covers it. That bound is sharp on hourly billing: for every
  larger \<^verbatim>\<open>u32\<close> request the product wraps and the returned TTL (1904 seconds) is shorter than
  the request.\<close>

theorem round_ttl_least_cover:
  assumes "r \<le> 4294965600"
  shows "r \<le> round_ttl_secs i r \<and> 0 < round_ttl_secs i r
    \<and> nat (inc_seconds i) dvd round_ttl_secs i r
    \<and> (\<forall>t. 0 < t \<and> r \<le> t \<and> nat (inc_seconds i) dvd t \<longrightarrow> round_ttl_secs i r \<le> t)
    \<and> (\<forall>q. in_u32 q \<longrightarrow> (q \<le> round_ttl_secs PerHour q \<longleftrightarrow> q \<le> 4294965600))"
proof (intro conjI allI impI)
  define u where "u = nat (inc_seconds i)"
  have u: "0 < u" by (simp add: u_def)
  have z: "round_ttl_secs i 0 = u" by (simp add: round_ttl_secs_def u_def)
  have e: "r \<noteq> 0 \<Longrightarrow> round_ttl_secs i r = div_ceil r u * u"
    using round_ttl_exact [OF assms] by (simp add: u_def)
  have ge: "r \<le> round_ttl_secs i r" using e div_ceil_ge [OF u, of r] by (cases "r = 0") auto
  then show "r \<le> round_ttl_secs i r" .
  show "0 < round_ttl_secs i r" using ge u z by (cases "r = 0") auto
  show "nat (inc_seconds i) dvd round_ttl_secs i r"
    using e z by (cases "r = 0") (auto simp: u_def)
  fix t assume t: "0 < t \<and> r \<le> t \<and> nat (inc_seconds i) dvd t"
  then have "u dvd t" by (simp add: u_def)
  then obtain k where k: "t = k * u" by (metis dvdE mult.commute)
  show "round_ttl_secs i r \<le> t"
  proof (cases "r = 0")
    case True
    then show ?thesis using t k z by (cases k) auto
  next
    case False
    have "div_ceil r u \<le> k" by (rule div_ceil_least [OF u]) (use t k in auto)
    then show ?thesis using e [OF False] k by simp
  qed
next
  fix q assume q: "in_u32 q"
  show "q \<le> round_ttl_secs PerHour q \<longleftrightarrow> q \<le> 4294965600"
  proof (cases "q \<le> 4294965600")
    case True
    then show ?thesis using round_ttl_exact [OF True, of PerHour] div_ceil_ge [of 3600 q]
      by (cases "q = 0") auto
  next
    case False
    then show ?thesis using round_ttl_wraps [OF q] by simp
  qed
qed

theorem round_ttl_least_cover_witness:
  "5400 \<le> round_ttl_secs PerHour 5400 \<and> round_ttl_secs PerHour 5400 = 7200"
  using round_ttl_least_cover [of 5400 PerHour]
  by (simp add: round_ttl_secs_def div_ceil_def wrap_u32_def)

text \<open>A teardown deferred to a billing boundary waits at most one hour past the deadline,
  whenever the deadline is not before the billing start, no matter when the sweep runs; and
  from one hour past the deadline on, nothing is deferred. Only hourly billing defers.\<close>

theorem teardown_deferral_bounded:
  assumes "s \<le> dl"
  shows "(\<forall>i now t. aligned_teardown_at i (Some s) dl now = Some t \<longrightarrow>
            i = PerHour \<and> now < t \<and> dl < t \<and> t \<le> dl + secs 3600)
    \<and> (\<forall>i now. dl + secs 3600 \<le> now \<longrightarrow> aligned_teardown_at i (Some s) dl now = None)"
proof (intro conjI allI impI)
  fix i now t assume "aligned_teardown_at i (Some s) dl now = Some t"
  from aligned_SomeD [OF this]
  have h: "i = PerHour" "now < t" "t = next_period_boundary PerHour s dl" by auto
  then show "i = PerHour" "now < t" by simp_all
  show "dl < t" "t \<le> dl + secs 3600" using boundary_window [OF assms] h by simp_all
next
  fix i now assume late: "dl + secs 3600 \<le> now"
  show "aligned_teardown_at i (Some s) dl now = None"
  proof (rule ccontr)
    assume "aligned_teardown_at i (Some s) dl now \<noteq> None"
    then obtain t where "aligned_teardown_at i (Some s) dl now = Some t" by auto
    from aligned_SomeD [OF this] boundary_window(2) [OF assms] late show False by auto
  qed
qed

theorem teardown_deferral_bounded_witness:
  "aligned_teardown_at PerHour (Some 0) (secs 3500) (secs 3550) = Some (secs 3600)
   \<and> secs 3600 \<le> secs 3500 + secs 3600"
proof -
  have "aligned_teardown_at PerHour (Some 0) (secs 3500) (secs 3550) = Some (secs 3600)"
    by (simp add: aligned_teardown_at_def next_period_boundary_def num_seconds_def secs_def)
  moreover have "(0::int) \<le> secs 3500" by (simp add: secs_def)
  ultimately show ?thesis using teardown_deferral_bounded [of 0 "secs 3500"] by blast
qed

text \<open>What the deferral costs. If the deadline falls strictly inside a billing hour, a
  node kept until the boundary owes exactly the periods it already owed at the deadline. If
  the deadline falls exactly on a boundary after the first, keeping the node until the chosen
  boundary buys one more hour.\<close>

theorem deferral_price:
  assumes "s \<le> dl" and "num_seconds (dl - s) < 15461882265600 - 3600"
  shows "periods_owed PerHour s (next_period_boundary PerHour s dl) =
    periods_owed PerHour s dl
    + (if 0 < num_seconds (dl - s) \<and> 3600 dvd num_seconds (dl - s) then 1 else 0)"
proof -
  define e where "e = num_seconds (dl - s)"
  have e0: "0 \<le> e" using assms(1) by (simp add: e_def num_seconds_nonneg pos_imp_zdiv_nonneg_iff)
  have "next_period_boundary PerHour s dl = s + secs ((e div 3600 + 1) * 3600)"
    using e0 by (simp add: next_period_boundary_def e_def sdiv_nonneg)
  moreover have "e div 3600 + 1 < 4294967296" using assms(2) by (simp add: e_def)
  ultimately have L: "periods_owed PerHour s (next_period_boundary PerHour s dl) = nat (e div 3600 + 1)"
    using e0 periods_owed_hours [of "e div 3600 + 1" s] by (simp add: pos_imp_zdiv_nonneg_iff)
  have R: "periods_owed PerHour s dl = (if e = 0 then 1 else nat (max ((3599 + e) div 3600) 1))"
    using e0 assms(2)
    by (simp add: periods_owed_def e_def [symmetric] sdiv_nonneg i64_as_u32_id Let_def)
  note ceil = hours_ceiling [of e]
  show ?thesis using e0 L R ceil
    by (auto simp: e_def [symmetric] pos_imp_zdiv_nonneg_iff nat_add_distrib)
qed

theorem deferral_price_witness:
  "periods_owed PerHour 0 (next_period_boundary PerHour 0 (secs 3600)) =
     periods_owed PerHour 0 (secs 3600) + 1
   \<and> periods_owed PerHour 0 (next_period_boundary PerHour 0 (secs 3500)) =
     periods_owed PerHour 0 (secs 3500)"
  using deferral_price [of 0 "secs 3600"] deferral_price [of 0 "secs 3500"]
  by (simp add: secs_def num_seconds_def)

end
