(* ===== verification/MM_Float.thy ===== *)
theory MM_Float
  imports MM_Prelude Complex_Main "HOL-Library.Log_Nat"
begin

text \<open>
  The \<^verbatim>\<open>f64\<close> arithmetic the code uses, exactly: a value is a rational, an infinity or NaN,
  and every operation rounds its exact result to the nearest binary64 number, ties to even
  (53 significant bits, exponents down to -1022 with gradual underflow, overflow to infinity).
  The sign of zero is not represented; no operation of the modelled code observes it.

  The interface \<open>binary_rounding\<close> states what the clients rely on (rounding is monotone, and
  it fixes every multiple of a representable power of two with a 53-bit factor); the
  definition below is proved to satisfy it.
\<close>

section \<open>Rounding\<close>

definition pow2 :: "int \<Rightarrow> rat" where
  "pow2 k = 2 powi k"

text \<open>The exponent of a positive number: \<open>pow2 (exp2 x) \<le> x < pow2 (exp2 x + 1)\<close>.\<close>

definition exp2 :: "rat \<Rightarrow> int" where
  "exp2 x = (let k = bitlen (fst (quotient_of x)) - bitlen (snd (quotient_of x))
             in if pow2 k \<le> x then k else k - 1)"

definition ulp_exp :: "rat \<Rightarrow> int" where
  "ulp_exp x = max (exp2 x) (- 1022) - 52"

definition round_half_even :: "rat \<Rightarrow> int" where
  "round_half_even y =
     (let f = \<lfloor>y\<rfloor>; r = y - of_int f in
      if r < 1 / 2 then f else if 1 / 2 < r then f + 1 else if even f then f else f + 1)"

definition round_pos :: "rat \<Rightarrow> rat" where
  "round_pos x = of_int (round_half_even (x / pow2 (ulp_exp x))) * pow2 (ulp_exp x)"

definition round_f64 :: "rat \<Rightarrow> rat" where
  "round_f64 x = (if x = 0 then 0 else if 0 < x then round_pos x else - round_pos (- x))"

datatype f64 = Fin rat | PInf | NInf | NaN

definition to_f64 :: "rat \<Rightarrow> f64" where
  "to_f64 x = (let r = round_f64 x in
     if pow2 1024 \<le> r then PInf else if r \<le> - pow2 1024 then NInf else Fin r)"

definition is_finite :: "f64 \<Rightarrow> bool" where
  "is_finite x = (case x of Fin _ \<Rightarrow> True | _ \<Rightarrow> False)"

fun f64_ge :: "f64 \<Rightarrow> f64 \<Rightarrow> bool" where
  "f64_ge NaN y = False"
| "f64_ge x NaN = False"
| "f64_ge PInf y = True"
| "f64_ge x NInf = True"
| "f64_ge NInf y = False"
| "f64_ge x PInf = False"
| "f64_ge (Fin a) (Fin b) = (b \<le> a)"

definition f64_gt :: "f64 \<Rightarrow> f64 \<Rightarrow> bool" where
  "f64_gt x y \<longleftrightarrow> x \<noteq> NaN \<and> y \<noteq> NaN \<and> \<not> f64_ge y x"

fun f64_mul :: "f64 \<Rightarrow> f64 \<Rightarrow> f64" where
  "f64_mul (Fin a) (Fin b) = to_f64 (a * b)"
| "f64_mul NaN y = NaN"
| "f64_mul x NaN = NaN"
| "f64_mul (Fin a) PInf = (if a = 0 then NaN else if 0 < a then PInf else NInf)"
| "f64_mul (Fin a) NInf = (if a = 0 then NaN else if 0 < a then NInf else PInf)"
| "f64_mul PInf (Fin a) = (if a = 0 then NaN else if 0 < a then PInf else NInf)"
| "f64_mul NInf (Fin a) = (if a = 0 then NaN else if 0 < a then NInf else PInf)"
| "f64_mul PInf PInf = PInf"
| "f64_mul NInf NInf = PInf"
| "f64_mul PInf NInf = NInf"
| "f64_mul NInf PInf = NInf"

text \<open>Division of finite numbers by a positive one, the only divisions the code makes.\<close>

fun f64_div_pos :: "f64 \<Rightarrow> rat \<Rightarrow> f64" where
  "f64_div_pos (Fin a) b = to_f64 (a / b)"
| "f64_div_pos x b = x"

definition f64_of_int :: "int \<Rightarrow> f64" where
  "f64_of_int n = to_f64 (of_int n)"

text \<open>The rational value of a finite number (the infinities and NaN have none).\<close>

fun f64_val :: "f64 \<Rightarrow> rat option" where
  "f64_val (Fin a) = Some a"
| "f64_val _ = None"

section \<open>What the clients rely on\<close>

locale binary_rounding =
  fixes rnd :: "rat \<Rightarrow> rat"
  assumes rnd_mono: "x \<le> y \<Longrightarrow> rnd x \<le> rnd y"
    and rnd_exact: "\<bar>m\<bar> \<le> 2 ^ 53 \<Longrightarrow> - 1074 \<le> e \<Longrightarrow> rnd (of_int m * pow2 e) = of_int m * pow2 e"
begin

lemma rnd_int: "\<bar>m\<bar> \<le> 2 ^ 53 \<Longrightarrow> rnd (of_int m) = of_int m"
  using rnd_exact [of m 0] by (simp add: pow2_def)

lemma rnd_one: "rnd 1 = 1"
  using rnd_int [of 1] by simp

lemma rnd_zero: "rnd 0 = 0"
  using rnd_int [of 0] by simp

lemma rnd_below_one: "rnd (1 - 1 / 2 ^ 53) = 1 - 1 / 2 ^ 53"
  using rnd_exact [of "2 ^ 53 - 1" "-53"] by (simp add: pow2_def power_int_minus)

text \<open>A quotient of two positive integers of at most 53 bits rounds to at least one exactly
  when the exact quotient is at least one.\<close>

lemma rnd_quotient_ge_one:
  assumes "0 < b" and "0 < c" and "c \<le> 2 ^ 53"
  shows "1 \<le> rnd (of_int b / of_int c) \<longleftrightarrow> c \<le> b"
proof
  assume "c \<le> b"
  then have "1 \<le> (of_int b / of_int c :: rat)" using assms by simp
  from rnd_mono [OF this] show "1 \<le> rnd (of_int b / of_int c)" by (simp add: rnd_one)
next
  assume ge: "1 \<le> rnd (of_int b / of_int c)"
  show "c \<le> b"
  proof (rule ccontr)
    assume "\<not> c \<le> b"
    then have "of_int b \<le> (of_int c - 1 :: rat)" by (metis int_one_le_iff_zero_less le_diff_eq linorder_not_le of_int_1 of_int_diff of_int_le_iff zle_diff1_eq)
    then have "of_int b / of_int c \<le> (1 - 1 / of_int c :: rat)"
      using assms by (simp add: field_simps)
    moreover have "(1 / 2 ^ 53 :: rat) \<le> 1 / of_int c"
    proof -
      have "of_int c \<le> (of_int (2 ^ 53) :: rat)" using assms(3) by (simp only: of_int_le_iff)
      then show ?thesis using assms(2) by (simp add: frac_le)
    qed
    ultimately have "of_int b / of_int c \<le> (1 - 1 / 2 ^ 53 :: rat)" by linarith
    from rnd_mono [OF this] have "rnd (of_int b / of_int c) \<le> 1 - 1 / 2 ^ 53"
      by (simp only: rnd_below_one)
    with ge show False by simp
  qed
qed

end

section \<open>The definition satisfies the interface\<close>

lemma pow2_pos [simp]: "0 < pow2 k"
  by (simp add: pow2_def)

lemma pow2_nonzero [simp]: "pow2 k \<noteq> 0"
  by (simp add: pow2_def)

lemma pow2_add: "pow2 (a + b) = pow2 a * pow2 b"
  by (simp add: pow2_def power_int_add)

lemma pow2_diff: "pow2 (a - b) = pow2 a / pow2 b"
  by (simp add: pow2_def power_int_diff)

lemma pow2_le_iff: "pow2 a \<le> pow2 b \<longleftrightarrow> a \<le> b"
  by (simp add: pow2_def)
    (meson linorder_not_le one_less_numeral_iff power_int_increasing power_int_strict_increasing
      semiring_norm(76) less_imp_le order_less_irrefl order_trans)

lemma pow2_less_iff: "pow2 a < pow2 b \<longleftrightarrow> a < b"
  using pow2_le_iff [of b a] by (auto simp: not_le [symmetric])

lemma pow2_nat: "0 \<le> k \<Longrightarrow> pow2 k = of_int (2 ^ nat k)"
  by (simp add: pow2_def power_int_nonneg_exp)

lemma exp2_bounds:
  assumes "0 < x"
  shows "pow2 (exp2 x) \<le> x" and "x < pow2 (exp2 x + 1)"
proof -
  obtain n d where q: "quotient_of x = (n, d)" by force
  have x: "x = of_int n / of_int d" using q by (rule quotient_of_div)
  have d: "0 < d" using q by (rule quotient_of_denom_pos)
  have n: "0 < n" using assms d by (simp add: x zero_less_divide_iff)
  define a b where "a = bitlen n" and "b = bitlen d"
  have a1: "1 \<le> a" and b1: "1 \<le> b"
    using n d bitlen_nonneg [of n] bitlen_nonneg [of d] bitlen_eq_zero_iff [of n] bitlen_eq_zero_iff [of d]
    by (auto simp: a_def b_def)
  have nb: "pow2 (a - 1) \<le> of_int n" "of_int n < pow2 a"
    using bitlen_bounds [OF n] a1 by (simp_all add: pow2_nat a_def del: of_int_power)
  have db: "pow2 (b - 1) \<le> of_int d" "of_int d < pow2 b"
    using bitlen_bounds [OF d] b1 by (simp_all add: pow2_nat b_def del: of_int_power)
  have lo: "pow2 (a - b - 1) \<le> x"
  proof -
    have "pow2 (a - 1) / pow2 b \<le> of_int n / of_int d"
      using nb(1) db(2) d n by (intro frac_le) auto
    moreover have "pow2 (a - b - 1) = pow2 (a - 1) / pow2 b" by (simp add: pow2_diff [symmetric] algebra_simps)
    ultimately show ?thesis by (simp only: x)
  qed
  have hi: "x < pow2 (a - b + 1)"
  proof -
    have "of_int n / of_int d < pow2 a / pow2 (b - 1)"
      using nb(2) db(1) n by (intro frac_less) auto
    moreover have "pow2 (a - b + 1) = pow2 a / pow2 (b - 1)" by (simp add: pow2_diff [symmetric] algebra_simps)
    ultimately show ?thesis by (simp only: x)
  qed
  have e: "exp2 x = (if pow2 (a - b) \<le> x then a - b else a - b - 1)"
    by (simp add: exp2_def q a_def b_def)
  show "pow2 (exp2 x) \<le> x" using lo by (simp add: e)
  show "x < pow2 (exp2 x + 1)" using hi by (simp add: e not_le)
qed

lemma exp2_unique: "pow2 k \<le> x \<Longrightarrow> x < pow2 (k + 1) \<Longrightarrow> exp2 x = k"
proof -
  assume k: "pow2 k \<le> x" "x < pow2 (k + 1)"
  have "0 < x" using k(1) pow2_pos less_le_trans by blast
  from exp2_bounds [OF this] k have "pow2 (exp2 x) < pow2 (k + 1)" and "pow2 k < pow2 (exp2 x + 1)"
    by linarith+
  then show ?thesis by (simp add: pow2_less_iff)
qed

lemma exp2_mono: "0 < x \<Longrightarrow> x \<le> y \<Longrightarrow> exp2 x \<le> exp2 y"
proof -
  assume "0 < x" "x \<le> y"
  then have "pow2 (exp2 x) < pow2 (exp2 y + 1)"
    using exp2_bounds(1) [of x] exp2_bounds(2) [of y] by linarith
  then show ?thesis by (simp add: pow2_less_iff)
qed

lemma round_half_even_of_int [simp]: "round_half_even (of_int k) = k"
  by (simp add: round_half_even_def)

lemma round_half_even_bounds: "\<lfloor>y\<rfloor> \<le> round_half_even y" "round_half_even y \<le> \<lfloor>y\<rfloor> + 1"
  by (simp_all add: round_half_even_def Let_def)

lemma round_half_even_mono: "x \<le> y \<Longrightarrow> round_half_even x \<le> round_half_even y"
proof -
  assume xy: "x \<le> y"
  then have f: "\<lfloor>x\<rfloor> \<le> \<lfloor>y\<rfloor>" by (rule floor_mono)
  show ?thesis
  proof (cases "\<lfloor>x\<rfloor> = \<lfloor>y\<rfloor>")
    case True
    then show ?thesis using xy by (auto simp: round_half_even_def Let_def)
  next
    case False
    with f have "\<lfloor>x\<rfloor> + 1 \<le> \<lfloor>y\<rfloor>" by linarith
    then show ?thesis using round_half_even_bounds(2) [of x] round_half_even_bounds(1) [of y]
      by linarith
  qed
qed

lemma round_pos_nonneg: "0 \<le> x \<Longrightarrow> 0 \<le> round_pos x"
  using round_half_even_mono [of 0 "x / pow2 (ulp_exp x)"] round_half_even_of_int [of 0]
  by (simp add: round_pos_def less_imp_le)

lemma round_pos_upper:
  assumes "0 < x"
  shows "round_pos x \<le> pow2 (max (exp2 x) (- 1022) + 1)"
proof -
  have "x < pow2 (exp2 x + 1)" using exp2_bounds [OF assms] by simp
  also have "pow2 (exp2 x + 1) \<le> pow2 (max (exp2 x) (- 1022) + 1)"
    by (simp only: pow2_le_iff)
  also have "\<dots> = pow2 53 * pow2 (ulp_exp x)"
    by (simp add: pow2_add [symmetric] ulp_exp_def add.commute)
  finally have "x / pow2 (ulp_exp x) \<le> of_int (2 ^ 53)"
    by (simp add: field_simps pow2_nat)
  from round_half_even_mono [OF this] have "round_half_even (x / pow2 (ulp_exp x)) \<le> 2 ^ 53"
    by (simp only: round_half_even_of_int)
  then have "of_int (round_half_even (x / pow2 (ulp_exp x))) \<le> (of_int (2 ^ 53) :: rat)"
    by (simp only: of_int_le_iff)
  then have "round_pos x \<le> pow2 53 * pow2 (ulp_exp x)"
    unfolding round_pos_def by (intro mult_right_mono) (simp_all add: pow2_nat less_imp_le)
  then show ?thesis by (simp add: pow2_add [symmetric] ulp_exp_def add.commute)
qed

lemma round_pos_lower:
  assumes "0 < x" and "- 1022 \<le> exp2 x"
  shows "pow2 (exp2 x) \<le> round_pos x"
proof -
  have p: "pow2 (exp2 x) = pow2 52 * pow2 (ulp_exp x)"
    using assms(2) by (simp add: pow2_add [symmetric] ulp_exp_def)
  have "of_int (2 ^ 52) \<le> x / pow2 (ulp_exp x)"
    using exp2_bounds(1) [OF assms(1)] p by (simp add: field_simps pow2_nat)
  from round_half_even_mono [OF this] have "2 ^ 52 \<le> round_half_even (x / pow2 (ulp_exp x))"
    by (simp only: round_half_even_of_int)
  then have "(of_int (2 ^ 52) :: rat) \<le> of_int (round_half_even (x / pow2 (ulp_exp x)))"
    by (simp only: of_int_le_iff)
  then have "pow2 52 * pow2 (ulp_exp x) \<le> round_pos x"
    unfolding round_pos_def by (intro mult_right_mono) (simp_all add: pow2_nat less_imp_le)
  with p show ?thesis by simp
qed

lemma round_pos_mono:
  assumes "0 < x" and "x \<le> y"
  shows "round_pos x \<le> round_pos y"
proof (cases "ulp_exp x = ulp_exp y")
  case True
  have "x / pow2 (ulp_exp y) \<le> y / pow2 (ulp_exp y)"
    using assms(2) by (simp add: divide_right_mono less_imp_le)
  from round_half_even_mono [OF this] show ?thesis
    unfolding round_pos_def True by (intro mult_right_mono) (simp_all add: less_imp_le)
next
  case False
  with exp2_mono [OF assms] have y: "- 1022 \<le> exp2 y" and "max (exp2 x) (- 1022) + 1 \<le> exp2 y"
    by (auto simp: ulp_exp_def)
  then have "pow2 (max (exp2 x) (- 1022) + 1) \<le> pow2 (exp2 y)" by (simp only: pow2_le_iff)
  with round_pos_upper [OF assms(1)] round_pos_lower [OF _ y] assms show ?thesis by linarith
qed

lemma round_pos_exact:
  assumes "0 < m" and "m \<le> 2 ^ 53" and "- 1074 \<le> e"
  shows "round_pos (of_int m * pow2 e) = of_int m * pow2 e"
proof -
  define x where "x = of_int m * pow2 e"
  have x: "0 < x" using assms(1) by (simp add: x_def)
  have "pow2 (exp2 x) \<le> x" using exp2_bounds [OF x] by simp
  also have "x \<le> pow2 53 * pow2 e"
  proof -
    have "(of_int m :: rat) \<le> of_int (2 ^ 53)" using assms(2) by (simp only: of_int_le_iff)
    then show ?thesis unfolding x_def by (intro mult_right_mono) (simp_all add: pow2_nat less_imp_le)
  qed
  finally have k: "exp2 x \<le> e + 53" by (simp add: pow2_add [symmetric] pow2_le_iff)
  have "\<exists>j. x / pow2 (ulp_exp x) = of_int j"
  proof (cases "ulp_exp x \<le> e")
    case True
    have "x / pow2 (ulp_exp x) = of_int m * pow2 (e - ulp_exp x)"
      by (simp add: x_def pow2_diff)
    also have "\<dots> = of_int (m * 2 ^ nat (e - ulp_exp x))" using True by (simp add: pow2_nat)
    finally show ?thesis by blast
  next
    case False
    then have e53: "exp2 x = e + 53" and u: "ulp_exp x = e + 1"
      using k assms(3) by (auto simp: ulp_exp_def)
    have "pow2 (e + 53) \<le> x" using exp2_bounds(1) [OF x] e53 by simp
    then have "of_int (2 ^ 53) \<le> (of_int m :: rat)"
      by (simp add: x_def pow2_add pow2_nat)
    then have "m = 2 ^ 53" using assms(2) by (simp only: of_int_le_iff)
    then have "x / pow2 (ulp_exp x) = of_int (2 ^ 52)"
      unfolding u by (simp add: x_def pow2_add pow2_nat)
    then show ?thesis by blast
  qed
  then obtain j where j: "x / pow2 (ulp_exp x) = of_int j" by blast
  then have "round_pos x = of_int j * pow2 (ulp_exp x)" by (simp add: round_pos_def)
  also have "\<dots> = x" using j by (simp add: nonzero_divide_eq_eq)
  finally have "round_pos x = x" .
  then show ?thesis by (simp add: x_def)
qed

lemma round_f64_mono: "x \<le> y \<Longrightarrow> round_f64 x \<le> round_f64 y"
  using round_pos_mono [of x y] round_pos_mono [of "- y" "- x"] round_pos_nonneg [of y]
    round_pos_nonneg [of "- x"]
  by (auto simp: round_f64_def)

lemma round_f64_exact:
  assumes "\<bar>m\<bar> \<le> 2 ^ 53" and "- 1074 \<le> e"
  shows "round_f64 (of_int m * pow2 e) = of_int m * pow2 e"
proof -
  consider "m = 0" | "0 < m" | "m < 0" by linarith
  then show ?thesis
  proof cases
    case 3
    have "of_int m * pow2 e < 0" using 3 by (simp add: mult_neg_pos)
    then have "round_f64 (of_int m * pow2 e) = - round_pos (of_int (- m) * pow2 e)"
      by (simp add: round_f64_def del: mult_less_0_iff) (use 3 in simp)
    also have "\<dots> = of_int m * pow2 e"
      using round_pos_exact [of "- m" e] 3 assms by simp
    finally show ?thesis .
  qed (use round_pos_exact assms in \<open>simp_all add: round_f64_def\<close>)
qed

interpretation f64_rounding: binary_rounding round_f64
  by unfold_locales (simp_all add: round_f64_mono round_f64_exact)

lemma round_f64_bound: "\<bar>x\<bar> \<le> of_int (2 ^ 53) \<Longrightarrow> \<bar>round_f64 x\<bar> \<le> of_int (2 ^ 53)"
proof -
  assume x: "\<bar>x\<bar> \<le> of_int (2 ^ 53)"
  have "round_f64 x \<le> round_f64 (of_int (2 ^ 53))" by (rule round_f64_mono) (use x in linarith)
  moreover have "round_f64 (of_int (- (2 ^ 53))) \<le> round_f64 x"
    by (rule round_f64_mono) (use x in \<open>simp only: of_int_minus abs_le_iff, linarith\<close>)
  moreover have "round_f64 (of_int (2 ^ 53)) = of_int (2 ^ 53)"
    and "round_f64 (of_int (- (2 ^ 53))) = of_int (- (2 ^ 53))"
    by (rule f64_rounding.rnd_int, simp)+
  ultimately have "round_f64 x \<le> of_int (2 ^ 53)" and "- round_f64 x \<le> of_int (2 ^ 53)"
    by (simp_all only: of_int_minus)
  then show ?thesis by (rule abs_leI)
qed

lemma to_f64_small: "\<bar>x\<bar> \<le> of_int (2 ^ 53) \<Longrightarrow> to_f64 x = Fin (round_f64 x)"
proof -
  assume "\<bar>x\<bar> \<le> of_int (2 ^ 53)"
  from round_f64_bound [OF this] have b: "\<bar>round_f64 x\<bar> \<le> pow2 53" by (simp add: pow2_nat)
  have "pow2 53 < pow2 1024" by (simp add: pow2_less_iff)
  with b have "round_f64 x < pow2 1024" and "- pow2 1024 < round_f64 x" by linarith+
  then show ?thesis by (simp add: to_f64_def Let_def)
qed

lemma f64_of_int_exact: "\<bar>n\<bar> \<le> 2 ^ 53 \<Longrightarrow> f64_of_int n = Fin (of_int n)"
proof -
  assume n: "\<bar>n\<bar> \<le> 2 ^ 53"
  then have "\<bar>of_int n :: rat\<bar> \<le> of_int (2 ^ 53)"
    by (simp only: of_int_abs [symmetric] of_int_le_iff)
  then show ?thesis by (simp only: f64_of_int_def to_f64_small f64_rounding.rnd_int [OF n])
qed

text \<open>Evaluating a rounding at a concrete number: give the exponent, then \<open>simp\<close>.\<close>

lemma round_f64_eval:
  assumes "pow2 k \<le> x" and "x < pow2 (k + 1)" and "- 1022 \<le> k"
  shows "round_f64 x = of_int (round_half_even (x / pow2 (k - 52))) * pow2 (k - 52)"
proof -
  have "0 < x" using assms(1) pow2_pos less_le_trans by blast
  moreover have "exp2 x = k" using assms by (intro exp2_unique)
  ultimately show ?thesis using assms(3)
    by (simp add: round_f64_def round_pos_def ulp_exp_def max_def)
qed

lemma to_f64_Fin: "\<bar>round_f64 x\<bar> < pow2 1024 \<Longrightarrow> to_f64 x = Fin (round_f64 x)"
  by (auto simp: to_f64_def Let_def abs_less_iff)

end
