(* ===== verification/Demotion_Ladder.thy ===== *)
theory Demotion_Ladder
  imports Fleet_Types MM_Float
begin

text \<open>
  The demotion ladder (\<^verbatim>\<open>crates/mm-core/src/fleet/ladder.rs\<close>): which rung a broadcast is on,
  given its balance and the cost still to come, and how a rung changes from one evaluation to
  the next. The coverage ratio is computed in \<^verbatim>\<open>f64\<close>, so the model computes it with
  \<^const>\<open>to_f64\<close>.

  Shown: the rung is monotone in the money whatever the watermarks are; on amounts of at most
  53 bits the floating-point test agrees with the exact comparison; demotion is immediate and
  recovery takes exactly the configured number of agreeing evaluations plus one.
\<close>

section \<open>Rungs\<close>

datatype rung =
  HealthyStep | StopProvisioning | ReduceQuality | DrainToOrigin | EndWithSlate | Overrun

text \<open>The derived \<^verbatim>\<open>Ord\<close>: declaration order, mildest first.\<close>

fun severity :: "rung \<Rightarrow> nat" where
  "severity HealthyStep = 0"
| "severity StopProvisioning = 1"
| "severity ReduceQuality = 2"
| "severity DrainToOrigin = 3"
| "severity EndWithSlate = 4"
| "severity Overrun = 5"

lemma severity_inj: "severity a = severity b \<Longrightarrow> a = b"
  by (cases a; cases b) simp_all

instantiation rung :: linorder
begin

definition less_eq_rung :: "rung \<Rightarrow> rung \<Rightarrow> bool" where
  "less_eq_rung a b \<longleftrightarrow> severity a \<le> severity b"

definition less_rung :: "rung \<Rightarrow> rung \<Rightarrow> bool" where
  "less_rung a b \<longleftrightarrow> severity a < severity b"

instance
  by standard (auto simp: less_eq_rung_def less_rung_def dest: severity_inj)

end

definition destroys_nodes :: "rung \<Rightarrow> bool" where
  "destroys_nodes s = False"

definition allows_provisioning :: "rung \<Rightarrow> bool" where
  "allows_provisioning s = (case s of HealthyStep \<Rightarrow> True | _ \<Rightarrow> False)"

definition allows_full_quality_ladder :: "rung \<Rightarrow> bool" where
  "allows_full_quality_ladder s =
     (case s of HealthyStep \<Rightarrow> True | StopProvisioning \<Rightarrow> True | _ \<Rightarrow> False)"

definition allows_recording :: "rung \<Rightarrow> bool" where
  "allows_recording s = (case s of HealthyStep \<Rightarrow> True | StopProvisioning \<Rightarrow> True | _ \<Rightarrow> False)"

definition drains_fanout :: "rung \<Rightarrow> bool" where
  "drains_fanout s =
     (case s of DrainToOrigin \<Rightarrow> True | EndWithSlate \<Rightarrow> True | Overrun \<Rightarrow> True | _ \<Rightarrow> False)"

definition programme_continues :: "rung \<Rightarrow> bool" where
  "programme_continues s = (case s of EndWithSlate \<Rightarrow> False | Overrun \<Rightarrow> False | _ \<Rightarrow> True)"

definition is_terminal :: "rung \<Rightarrow> bool" where
  "is_terminal s = (case s of EndWithSlate \<Rightarrow> True | Overrun \<Rightarrow> True | _ \<Rightarrow> False)"

fun step_as_str :: "rung \<Rightarrow> string" where
  "step_as_str HealthyStep = ''healthy''"
| "step_as_str StopProvisioning = ''stop_provisioning''"
| "step_as_str ReduceQuality = ''reduce_quality''"
| "step_as_str DrainToOrigin = ''drain_to_origin''"
| "step_as_str EndWithSlate = ''end_with_slate''"
| "step_as_str Overrun = ''overrun''"

definition step_all :: "rung list" where
  "step_all = [HealthyStep, StopProvisioning, ReduceQuality, DrainToOrigin, EndWithSlate, Overrun]"

definition step_parse :: "string \<Rightarrow> rung option" where
  "step_parse raw = find (\<lambda>s. step_as_str s = raw) step_all"

section \<open>Modes\<close>

datatype ladder_mode = Observe | Degrade | Full

definition ladder_mode_parse :: "string \<Rightarrow> ladder_mode option" where
  "ladder_mode_parse raw =
     (let s = to_ascii_lowercase (trim raw) in
      if s = ''observe'' then Some Observe
      else if s = ''degrade'' then Some Degrade
      else if s = ''full'' then Some Full
      else None)"

fun ladder_mode_as_str :: "ladder_mode \<Rightarrow> string" where
  "ladder_mode_as_str Observe = ''observe''"
| "ladder_mode_as_str Degrade = ''degrade''"
| "ladder_mode_as_str Full = ''full''"

fun cap :: "ladder_mode \<Rightarrow> rung \<Rightarrow> rung" where
  "cap Observe target = HealthyStep"
| "cap Degrade target = min target DrainToOrigin"
| "cap Full target = target"

section \<open>Policy, observation, rung\<close>

record ladder_policy =
  reduce_quality_below :: f64
  drain_below :: f64
  recover_after_evaluations :: nat

definition placeholder :: ladder_policy where
  "placeholder = \<lparr>reduce_quality_below = to_f64 (1 / 2), drain_below = to_f64 (1 / 5),
     recover_after_evaluations = 3\<rparr>"

record ladder_observation =
  balance_minor :: int
  projected_cost_remaining_minor :: int
  lo_programme_is_live :: bool

text \<open>\<^verbatim>\<open>a as f64 / b as f64\<close> for \<^verbatim>\<open>i64\<close> values with \<open>b > 0\<close>.\<close>

definition coverage :: "int \<Rightarrow> int \<Rightarrow> f64" where
  "coverage a b =
     (case f64_val (f64_of_int b) of Some d \<Rightarrow> f64_div_pos (f64_of_int a) d | None \<Rightarrow> NaN)"

definition demotion_step :: "ladder_observation \<Rightarrow> ladder_policy \<Rightarrow> rung" where
  "demotion_step obs policy =
     (if balance_minor obs \<le> 0
      then (if lo_programme_is_live obs then EndWithSlate else Overrun)
      else if projected_cost_remaining_minor obs \<le> 0 then HealthyStep
      else let c = coverage (balance_minor obs) (projected_cost_remaining_minor obs) in
        if f64_ge c (Fin 1) then HealthyStep
        else if f64_ge c (reduce_quality_below policy) then StopProvisioning
        else if f64_ge c (drain_below policy) then ReduceQuality
        else DrainToOrigin)"

section \<open>Hysteresis\<close>

record ladder_transition =
  lt_step :: rung
  lt_milder_streak :: nat
  lt_moved :: bool

definition next_step ::
  "rung \<Rightarrow> rung \<Rightarrow> nat \<Rightarrow> bool \<Rightarrow> ladder_policy \<Rightarrow> ladder_transition" where
  "next_step current computed milder_streak programme_ended policy =
     (if computed > current then \<lparr>lt_step = computed, lt_milder_streak = 0, lt_moved = True\<rparr>
      else if computed = current
      then \<lparr>lt_step = current, lt_milder_streak = 0, lt_moved = False\<rparr>
      else if is_terminal current \<and> programme_ended
      then \<lparr>lt_step = current, lt_milder_streak = 0, lt_moved = False\<rparr>
      else let streak = min (milder_streak + 1) u32_max in
        if streak > recover_after_evaluations policy
        then \<lparr>lt_step = computed, lt_milder_streak = 0, lt_moved = True\<rparr>
        else \<lparr>lt_step = current, lt_milder_streak = streak, lt_moved = False\<rparr>)"

text \<open>Consecutive evaluations of one broadcast, the rung and the streak carried along.\<close>

fun evaluate_run ::
  "ladder_policy \<Rightarrow> bool \<Rightarrow> rung \<times> nat \<Rightarrow> rung list \<Rightarrow> rung \<times> nat" where
  "evaluate_run p ended s [] = s"
| "evaluate_run p ended s (c # cs) =
     (let t = next_step (fst s) c (snd s) ended p
      in evaluate_run p ended (lt_step t, lt_milder_streak t) cs)"

section \<open>Lemmas\<close>

named_theorems ladder_simps \<open>unfolding rules for the rung predicates\<close>

declare allows_provisioning_def [ladder_simps] allows_full_quality_ladder_def [ladder_simps]
  allows_recording_def [ladder_simps] drains_fanout_def [ladder_simps]
  programme_continues_def [ladder_simps] is_terminal_def [ladder_simps]
  less_eq_rung_def [ladder_simps] less_rung_def [ladder_simps]

lemma allows_provisioning_iff [simp]: "allows_provisioning s \<longleftrightarrow> s = HealthyStep"
  by (cases s) (simp_all add: ladder_simps)

lemma terminal_iff: "is_terminal s \<longleftrightarrow> EndWithSlate \<le> s"
  by (cases s) (simp_all add: ladder_simps)

lemma programme_continues_iff: "programme_continues s \<longleftrightarrow> \<not> is_terminal s"
  by (cases s) (simp_all add: ladder_simps)

lemma allows_recording_iff: "allows_recording s \<longleftrightarrow> s < ReduceQuality"
  by (cases s) (simp_all add: ladder_simps)

lemma healthy_least [simp]: "HealthyStep \<le> s"
  by (cases s) (simp_all add: ladder_simps)

lemma not_below_healthy [simp]: "\<not> s < HealthyStep"
  by (simp add: not_less)

lemma overrun_greatest [simp]: "s \<le> Overrun"
  by (cases s) (simp_all add: ladder_simps)

lemma cap_le: "cap m t \<le> t"
  by (cases m) simp_all

lemma cap_degrade_le: "m \<noteq> Full \<Longrightarrow> cap m t \<le> DrainToOrigin"
  by (cases m) simp_all

lemma cap_mono: "s \<le> t \<Longrightarrow> cap m s \<le> cap m t"
  by (cases m) (auto simp: min_def)

interpretation step_wire: exact_enum step_as_str step_parse step_all
proof
  fix x s
  show "step_parse (step_as_str x) = Some x"
    by (cases x) (simp_all add: step_parse_def step_all_def)
  show "step_parse s = Some x \<Longrightarrow> s = step_as_str x"
    by (auto simp: step_parse_def find_Some_iff)
  show "x \<in> set step_all" by (cases x) (simp_all add: step_all_def)
  show "distinct step_all" by (simp add: step_all_def)
qed

lemma trim_ladder_labels [simp]:
  "trim ''observe'' = ''observe''" "trim ''degrade'' = ''degrade''" "trim ''full'' = ''full''"
  by code_simp+

interpretation ladder_mode_wire: printable_enum ladder_mode_as_str ladder_mode_parse
proof
  fix x
  show "ladder_mode_parse (ladder_mode_as_str x) = Some x"
    by (cases x) (simp_all add: ladder_mode_parse_def to_ascii_lowercase_def ascii_lower_def)
qed

lemma round_f64_ge_one: "1 \<le> x \<Longrightarrow> 1 \<le> round_f64 x"
  using round_f64_mono [of 1 x] by (simp add: f64_rounding.rnd_one)

lemma round_f64_nonneg: "0 \<le> x \<Longrightarrow> 0 \<le> round_f64 x"
  using round_f64_mono [of 0 x] by (simp add: f64_rounding.rnd_zero)

lemma to_f64_le63: "0 \<le> x \<Longrightarrow> x \<le> pow2 63 \<Longrightarrow> to_f64 x = Fin (round_f64 x) \<and> round_f64 x \<le> pow2 63"
proof -
  assume x: "0 \<le> x" "x \<le> pow2 63"
  have "round_f64 (pow2 63) = pow2 63"
    using round_f64_exact [of 1 63] by simp
  with round_f64_mono [OF x(2)] have u: "round_f64 x \<le> pow2 63" by simp
  moreover have "pow2 63 < pow2 1024" by (simp add: pow2_less_iff)
  moreover have "0 \<le> round_f64 x" by (rule round_f64_nonneg [OF x(1)])
  moreover have "0 < pow2 1024" by simp
  ultimately have "round_f64 x < pow2 1024" and "- pow2 1024 < round_f64 x" by linarith+
  with u show ?thesis by (simp add: to_f64_def Let_def)
qed

lemma i64_le_pow2: "in_i64 n \<Longrightarrow> of_int n \<le> pow2 63"
  by (simp add: in_i64_def i64_max_def pow2_nat)

lemma coverage_eq:
  assumes "0 < a" "in_i64 a" "0 < b" "in_i64 b"
  shows "coverage a b = Fin (round_f64 (round_f64 (of_int a) / round_f64 (of_int b)))"
proof -
  have a: "f64_of_int a = Fin (round_f64 (of_int a))" "round_f64 (of_int a) \<le> pow2 63"
    and b: "f64_of_int b = Fin (round_f64 (of_int b))"
    using to_f64_le63 [of "of_int a"] to_f64_le63 [of "of_int b"] i64_le_pow2 assms
    by (auto simp: f64_of_int_def)
  have b1: "1 \<le> round_f64 (of_int b)" using assms(3) by (intro round_f64_ge_one) simp
  have a0: "0 \<le> round_f64 (of_int a)" using assms(1) by (intro round_f64_nonneg) simp
  have "round_f64 (of_int a) / round_f64 (of_int b) \<le> round_f64 (of_int a) / 1"
    using a0 b1 by (intro divide_left_mono) auto
  then have "round_f64 (of_int a) / round_f64 (of_int b) \<le> pow2 63" using a(2) by simp
  with to_f64_le63 [of "round_f64 (of_int a) / round_f64 (of_int b)"] a0 b1
  show ?thesis by (simp add: coverage_def a b)
qed

lemma coverage_mono:
  assumes "0 < a" "a \<le> a'" "in_i64 a'" "0 < b'" "b' \<le> b" "in_i64 b"
  shows "\<exists>x y. coverage a b = Fin x \<and> coverage a' b' = Fin y \<and> x \<le> y"
proof -
  have r: "in_i64 a" "in_i64 b'" using assms by (auto simp: in_i64_def i64_min_def)
  have "round_f64 (of_int a) \<le> round_f64 (of_int a')"
    and "round_f64 (of_int b') \<le> round_f64 (of_int b)"
    using assms by (simp_all add: round_f64_mono)
  moreover have "1 \<le> round_f64 (of_int b')" using assms(4) by (intro round_f64_ge_one) simp
  moreover have "0 \<le> round_f64 (of_int a)" using assms(1) by (intro round_f64_nonneg) simp
  ultimately have "round_f64 (of_int a) / round_f64 (of_int b)
      \<le> round_f64 (of_int a') / round_f64 (of_int b')"
    by (intro frac_le) auto
  from round_f64_mono [OF this] show ?thesis
    using assms r by (simp add: coverage_eq)
qed

lemma f64_ge_mono: "f64_ge (Fin x) t \<Longrightarrow> x \<le> y \<Longrightarrow> f64_ge (Fin y) t"
  by (cases t) auto

lemma f64_of_int_2p53: "f64_of_int 9007199254740992 = Fin 9007199254740992"
  using f64_of_int_exact [of 9007199254740992] by simp

lemma f64_of_int_2p53_Suc: "f64_of_int 9007199254740993 = Fin 9007199254740992"
proof -
  have "\<lfloor>9007199254740993 / 2 :: rat\<rfloor> = 4503599627370496" by (rule floor_unique) simp_all
  then have "round_f64 9007199254740993 = 9007199254740992"
    by (subst round_f64_eval [of 53]) (simp_all add: pow2_def round_half_even_def)
  moreover have "pow2 63 < pow2 1024" by (simp add: pow2_less_iff)
  moreover have "9007199254740992 < pow2 63" by (simp add: pow2_def)
  ultimately show ?thesis by (simp add: f64_of_int_def to_f64_Fin)
qed

lemma to_f64_one: "to_f64 1 = Fin 1"
  using f64_of_int_exact [of 1] by (simp add: f64_of_int_def)

lemma coverage_collapse: "coverage 9007199254740992 9007199254740993 = Fin 1"
  by (simp add: coverage_def f64_of_int_2p53 f64_of_int_2p53_Suc to_f64_one)

section \<open>Properties\<close>

text \<open>More balance or less remaining cost never gives a harsher rung, for every policy
  (any watermarks, NaN included) and the whole \<^verbatim>\<open>i64\<close> range.\<close>

theorem demotion_step_monotone:
  assumes "balance_minor o1 \<le> balance_minor o2"
    and "projected_cost_remaining_minor o2 \<le> projected_cost_remaining_minor o1"
    and "lo_programme_is_live o1 = lo_programme_is_live o2"
    and "in_i64 (balance_minor o2)" and "in_i64 (projected_cost_remaining_minor o1)"
  shows "demotion_step o2 p \<le> demotion_step o1 p"
proof -
  consider "balance_minor o1 \<le> 0" | "0 < balance_minor o1" "projected_cost_remaining_minor o2 \<le> 0"
    | "0 < balance_minor o1" "0 < projected_cost_remaining_minor o2" by linarith
  then show ?thesis
  proof cases
    case 1
    then show ?thesis using assms(3) by (auto simp: demotion_step_def Let_def ladder_simps)
  next
    case 2
    then show ?thesis using assms(1) by (simp add: demotion_step_def)
  next
    case 3
    then obtain x y where
      c: "coverage (balance_minor o1) (projected_cost_remaining_minor o1) = Fin x"
         "coverage (balance_minor o2) (projected_cost_remaining_minor o2) = Fin y" "x \<le> y"
      using coverage_mono [of "balance_minor o1" "balance_minor o2"
          "projected_cost_remaining_minor o2" "projected_cost_remaining_minor o1"] assms by auto
    have "\<And>t. f64_ge (Fin x) t \<Longrightarrow> f64_ge (Fin y) t" using c(3) f64_ge_mono by blast
    then show ?thesis using 3 assms(1,2) c
      by (auto simp: demotion_step_def Let_def ladder_simps split: if_splits)
  qed
qed

theorem demotion_step_monotone_witness:
  "demotion_step \<lparr>balance_minor = 60, projected_cost_remaining_minor = 100,
      lo_programme_is_live = True\<rparr> placeholder
   \<le> demotion_step \<lparr>balance_minor = 30, projected_cost_remaining_minor = 100,
      lo_programme_is_live = True\<rparr> placeholder"
  by (rule demotion_step_monotone) (simp_all add: in_i64_def i64_min_def i64_max_def)

text \<open>C29: For amounts of at most 53 bits the ladder allows provisioning exactly when the
  balance is positive and covers the remaining cost, although the ratio is computed in
  floating point. The 53-bit bound is needed: beyond it the ratio of two different amounts can
  round to one.\<close>

theorem provisioning_iff_covered:
  assumes "\<bar>balance_minor obs\<bar> \<le> 2 ^ 53" and "\<bar>projected_cost_remaining_minor obs\<bar> \<le> 2 ^ 53"
  shows "(allows_provisioning (demotion_step obs p) \<longleftrightarrow>
           0 < balance_minor obs \<and> projected_cost_remaining_minor obs \<le> balance_minor obs)
    \<and> allows_provisioning (demotion_step \<lparr>balance_minor = 2 ^ 53,
        projected_cost_remaining_minor = 2 ^ 53 + 1, lo_programme_is_live = True\<rparr> p)"
proof
  show "allows_provisioning (demotion_step obs p) \<longleftrightarrow>
      0 < balance_minor obs \<and> projected_cost_remaining_minor obs \<le> balance_minor obs"
  proof (cases "0 < balance_minor obs \<and> 0 < projected_cost_remaining_minor obs")
    case True
    define b c where "b = balance_minor obs" and "c = projected_cost_remaining_minor obs"
    have bc: "0 < b" "0 < c" "b \<le> 2 ^ 53" "c \<le> 2 ^ 53" using True assms by (simp_all add: b_def c_def)
    have "in_i64 b" "in_i64 c" using bc by (simp_all add: in_i64_def i64_min_def i64_max_def)
    then have "coverage b c = Fin (round_f64 (of_int b / of_int c))"
      using bc by (simp add: coverage_eq f64_rounding.rnd_int)
    then have "allows_provisioning (demotion_step obs p) \<longleftrightarrow> 1 \<le> round_f64 (of_int b / of_int c)"
      using True by (simp add: demotion_step_def b_def c_def Let_def)
    also have "\<dots> \<longleftrightarrow> c \<le> b" by (rule f64_rounding.rnd_quotient_ge_one) (use bc in auto)
    finally show ?thesis using True by (simp add: b_def c_def)
  next
    case False
    then show ?thesis by (auto simp: demotion_step_def not_less)
  qed
next
  note coverage_collapse
  then show "allows_provisioning (demotion_step \<lparr>balance_minor = 2 ^ 53,
      projected_cost_remaining_minor = 2 ^ 53 + 1, lo_programme_is_live = True\<rparr> p)"
    by (simp add: demotion_step_def)
qed

theorem provisioning_iff_covered_witness:
  "\<not> allows_provisioning (demotion_step \<lparr>balance_minor = 99,
      projected_cost_remaining_minor = 100, lo_programme_is_live = True\<rparr> placeholder)"
  using provisioning_iff_covered
    [of "\<lparr>balance_minor = 99, projected_cost_remaining_minor = 100, lo_programme_is_live = True\<rparr>"
      placeholder]
  by simp

lemma run_milder_waits:
  assumes "\<And>c. c \<in> set cs \<Longrightarrow> c < r" and "\<not> (is_terminal r \<and> ended)"
    and "k + length cs \<le> recover_after_evaluations p" and "recover_after_evaluations p < u32_max"
  shows "evaluate_run p ended (r, k) cs = (r, k + length cs)"
  using assms
proof (induction cs arbitrary: k)
  case Nil
  then show ?case by simp
next
  case (Cons c cs)
  have "c < r" and "k + 1 \<le> recover_after_evaluations p" using Cons.prems by auto
  then have "next_step r c k ended p = \<lparr>lt_step = r, lt_milder_streak = k + 1, lt_moved = False\<rparr>"
    using Cons.prems(2,4) by (auto simp: next_step_def Let_def min_def)
  then show ?case using Cons by simp
qed

lemma run_ended_absorbs:
  assumes "\<And>c. c \<in> set cs \<Longrightarrow> c \<le> r" and "is_terminal r"
  shows "fst (evaluate_run p True (r, k) cs) = r"
  using assms
proof (induction cs arbitrary: k)
  case (Cons c cs)
  then have "lt_step (next_step r c k True p) = r"
    by (force simp: next_step_def Let_def not_less)
  then show ?case using Cons by (simp add: Let_def)
qed simp

text \<open>Hysteresis. From a rung just entered, while the computed rung stays milder the
  broadcast keeps its rung for the first \<^verbatim>\<open>recover_after_evaluations\<close> evaluations and moves
  to the computed rung on exactly the next one; a single harsher evaluation demotes at once;
  and once the programme has ended on a terminal rung nothing milder ever applies.\<close>

theorem hysteresis:
  assumes "recover_after_evaluations p < u32_max"
    and "\<forall>c \<in> set (cs @ [c']). c < r" and "\<not> (is_terminal r \<and> ended)"
  shows "(length cs \<le> recover_after_evaluations p \<longrightarrow>
            evaluate_run p ended (r, 0) cs = (r, length cs))
    \<and> (length cs = recover_after_evaluations p \<longrightarrow>
            evaluate_run p ended (r, 0) (cs @ [c']) = (c', 0))
    \<and> (\<forall>h. r < h \<longrightarrow> evaluate_run p ended (r, length cs) [h] = (h, 0))
    \<and> (\<forall>t ds. is_terminal t \<and> (\<forall>d \<in> set ds. d \<le> t) \<longrightarrow>
            fst (evaluate_run p True (t, 0) ds) = t)"
proof (intro conjI impI allI)
  have w: "evaluate_run p ended (r, 0) cs = (r, length cs)"
    if "length cs \<le> recover_after_evaluations p"
    using run_milder_waits [of cs r ended 0 p] assms that by simp
  show "evaluate_run p ended (r, 0) cs = (r, length cs)"
    if "length cs \<le> recover_after_evaluations p" using w that by simp
  have app: "evaluate_run p ended s (xs @ ys) = evaluate_run p ended (evaluate_run p ended s xs) ys"
    for s xs ys by (induction xs arbitrary: s) (simp_all add: Let_def)
  show "evaluate_run p ended (r, 0) (cs @ [c']) = (c', 0)"
    if "length cs = recover_after_evaluations p"
    using w that assms by (auto simp: app next_step_def Let_def)
  show "evaluate_run p ended (r, length cs) [h] = (h, 0)" if "r < h" for h
    using that by (simp add: next_step_def)
  show "fst (evaluate_run p True (t, 0) ds) = t"
    if "is_terminal t \<and> (\<forall>d \<in> set ds. d \<le> t)" for t ds
    using that by (intro run_ended_absorbs) auto
qed

theorem hysteresis_witness:
  "evaluate_run placeholder False (DrainToOrigin, 0)
     ([HealthyStep, HealthyStep, StopProvisioning] @ [HealthyStep]) = (HealthyStep, 0)"
  using hysteresis [of placeholder "[HealthyStep, HealthyStep, StopProvisioning]" HealthyStep
      DrainToOrigin False]
  by (simp add: placeholder_def u32_max_def ladder_simps)

end
