(* ===== verification/Capacity_Planner.thy ===== *)
theory Capacity_Planner
  imports Fleet_Billing Demotion_Ladder
begin

text \<open>
  The pure capacity planner (\<^verbatim>\<open>crates/mm-core/src/fleet/planner.rs\<close>): from an observation of
  one broadcast to the complete set of nodes that should exist for it.

  Shown: the gates stop growth and never drop a live fan-out node; the fan-out ceiling; the ids
  handed out are new; the shortfall is covered by the least number of nodes; planning again once
  the order is visible orders nothing; every row is one the store accepts; and what the planner
  does with transcode nodes.
\<close>

section \<open>Policy\<close>

record fleet_policy =
  viewer_capacity_per_node :: nat
  max_fanout_nodes_per_broadcast :: nat
  fp_region :: string
  fp_size :: string
  rented_ttl_secs :: nat
  fp_billing_increment :: billing_increment

definition conservative :: "string \<Rightarrow> string \<Rightarrow> fleet_policy" where
  "conservative region sz =
     \<lparr>viewer_capacity_per_node = 250, max_fanout_nodes_per_broadcast = 8, fp_region = region,
      fp_size = sz, rented_ttl_secs = 3 * 3600, fp_billing_increment = PerHour\<rparr>"

definition with_ttl_secs :: "fleet_policy \<Rightarrow> nat \<Rightarrow> fleet_policy" where
  "with_ttl_secs p requested =
     p\<lparr>rented_ttl_secs := round_ttl_secs (fp_billing_increment p) requested\<rparr>"

definition with_billing_increment :: "fleet_policy \<Rightarrow> billing_increment \<Rightarrow> fleet_policy" where
  "with_billing_increment p i =
     p\<lparr>fp_billing_increment := i, rented_ttl_secs := round_ttl_secs i (rented_ttl_secs p)\<rparr>"

text \<open>\<^verbatim>\<open>f64 as u32\<close> truncates and saturates.\<close>

definition f64_floor_u32 :: "f64 \<Rightarrow> nat" where
  "f64_floor_u32 x =
     (case x of Fin r \<Rightarrow> min (nat \<lfloor>r\<rfloor>) u32_max | PInf \<Rightarrow> u32_max | NInf \<Rightarrow> 0 | NaN \<Rightarrow> 0)"

definition viewers_for_bandwidth :: "nat \<Rightarrow> nat \<Rightarrow> f64 \<Rightarrow> nat" where
  "viewers_for_bandwidth port_mbps viewer_bitrate_kbps derate =
     (case derate of
        Fin d \<Rightarrow>
          (if viewer_bitrate_kbps = 0 \<or> d \<le> 0 then 0
           else let usable_kbps =
                  f64_mul (f64_mul (f64_of_int (int port_mbps)) (Fin 1000)) (Fin (min d 1))
                in f64_floor_u32 (f64_div_pos usable_kbps (of_nat viewer_bitrate_kbps)))
      | _ \<Rightarrow> 0)"

definition with_measured_bandwidth :: "fleet_policy \<Rightarrow> nat \<Rightarrow> nat \<Rightarrow> f64 \<Rightarrow> fleet_policy" where
  "with_measured_bandwidth p port_mbps viewer_bitrate_kbps derate =
     p\<lparr>viewer_capacity_per_node :=
         viewers_for_bandwidth port_mbps viewer_bitrate_kbps derate\<rparr>"

section \<open>Observation\<close>

record fleet_observation =
  fo_broadcast_id :: string
  fo_programme_is_live :: bool
  fo_transcode_enabled :: bool
  viewers_projected :: nat
  available_balance_minor :: int
  projected_cost_minor :: int
  fo_nodes :: "fleet_node list"

definition has_transcode_node :: "fleet_observation \<Rightarrow> bool" where
  "has_transcode_node obs \<longleftrightarrow>
     list_ex (\<lambda>n. fn_flavor n = Transcode \<and> fn_state n \<noteq> Gone) (fo_nodes obs)"

definition node_capacity :: "fleet_policy \<Rightarrow> fleet_node \<Rightarrow> nat" where
  "node_capacity policy n =
     (case fn_state n of
        Healthy \<Rightarrow> headroom n
      | Requested \<Rightarrow> if fn_viewer_capacity n = 0 then viewer_capacity_per_node policy
                    else fn_viewer_capacity n
      | Booting \<Rightarrow> if fn_viewer_capacity n = 0 then viewer_capacity_per_node policy
                  else fn_viewer_capacity n
      | _ \<Rightarrow> 0)"

definition effective_capacity :: "fleet_observation \<Rightarrow> fleet_policy \<Rightarrow> nat" where
  "effective_capacity obs policy =
     wrap_u32 (sum_list (map (node_capacity policy)
       (filter (\<lambda>n. serves_webrtc_viewers (fn_flavor n)) (fo_nodes obs))))"

definition live_fanout_nodes :: "fleet_observation \<Rightarrow> fleet_node list" where
  "live_fanout_nodes obs =
     filter (\<lambda>n. fn_flavor n = Fanout \<and> fn_state n \<noteq> Gone) (fo_nodes obs)"

section \<open>Desired nodes\<close>

record desired_node =
  dn_mm_node_id :: string
  dn_flavor :: node_flavor
  dn_ownership :: ownership
  dn_region :: string
  dn_size :: string
  dn_broadcast_id :: string
  destroy_after_secs :: "nat option"

definition fanout_prefix :: "string \<Rightarrow> string" where
  "fanout_prefix broadcast_id = ''bc-'' @ broadcast_id @ ''-fanout-''"

definition transcode_id :: "string \<Rightarrow> string" where
  "transcode_id broadcast_id = ''bc-'' @ broadcast_id @ ''-transcode''"

definition desired_fanout :: "string \<Rightarrow> nat \<Rightarrow> fleet_policy \<Rightarrow> desired_node" where
  "desired_fanout broadcast_id ordinal policy =
     \<lparr>dn_mm_node_id = fanout_prefix broadcast_id @ show_nat ordinal, dn_flavor = Fanout,
      dn_ownership = Rented, dn_region = fp_region policy, dn_size = fp_size policy,
      dn_broadcast_id = broadcast_id, destroy_after_secs = Some (rented_ttl_secs policy)\<rparr>"

definition desired_transcode :: "string \<Rightarrow> fleet_policy \<Rightarrow> desired_node" where
  "desired_transcode broadcast_id policy =
     \<lparr>dn_mm_node_id = transcode_id broadcast_id, dn_flavor = Transcode,
      dn_ownership = Rented, dn_region = fp_region policy, dn_size = fp_size policy,
      dn_broadcast_id = broadcast_id, destroy_after_secs = Some (rented_ttl_secs policy)\<rparr>"

definition desired_keep :: "fleet_node \<Rightarrow> string \<Rightarrow> fleet_policy \<Rightarrow> desired_node" where
  "desired_keep node broadcast_id policy =
     \<lparr>dn_mm_node_id = fn_id node, dn_flavor = fn_flavor node, dn_ownership = fn_ownership node,
      dn_region = fp_region policy, dn_size = fp_size policy, dn_broadcast_id = broadcast_id,
      destroy_after_secs =
        (if requires_destroy_deadline (fn_ownership node) then Some (rented_ttl_secs policy)
         else None)\<rparr>"

definition ordinals :: "fleet_node list \<Rightarrow> string \<Rightarrow> nat list" where
  "ordinals all_nodes broadcast_id =
     List.map_filter
       (\<lambda>n. Option.bind (strip_prefix (fn_id n) (fanout_prefix broadcast_id)) parse_u32) all_nodes"

definition next_free_ordinal :: "fleet_node list \<Rightarrow> string \<Rightarrow> nat" where
  "next_free_ordinal all_nodes broadcast_id =
     (case ordinals all_nodes broadcast_id of
        [] \<Rightarrow> 0
      | os \<Rightarrow> wrap_u32 (fold max os 0 + 1))"

text \<open>\<^verbatim>\<open>for _ in 0..to_add { out.push(fanout(ordinal)); ordinal += 1; }\<close>\<close>

fun push_fanout :: "string \<Rightarrow> fleet_policy \<Rightarrow> nat \<Rightarrow> nat \<Rightarrow> desired_node list" where
  "push_fanout b policy 0 ordinal = []"
| "push_fanout b policy (Suc k) ordinal =
     desired_fanout b ordinal policy # push_fanout b policy k (wrap_u32 (ordinal + 1))"

definition fanout_to_add :: "fleet_observation \<Rightarrow> fleet_policy \<Rightarrow> nat" where
  "fanout_to_add obs policy =
     (let capacity = effective_capacity obs policy in
      if viewers_projected obs > capacity
      then let shortfall = viewers_projected obs - capacity;
               per_node = max (viewer_capacity_per_node policy) 1;
               wanted = div_ceil shortfall per_node;
               room = max_fanout_nodes_per_broadcast policy
                        - wrap_u32 (length (live_fanout_nodes obs))
           in min wanted room
      else 0)"

definition plan :: "fleet_observation \<Rightarrow> fleet_policy \<Rightarrow> desired_node list" where
  "plan obs policy =
     (let existing = live_fanout_nodes obs;
          keep = map (\<lambda>n. desired_keep n (fo_broadcast_id obs) policy) existing
      in if \<not> fo_programme_is_live obs then keep
         else if available_balance_minor obs \<le> 0
                 \<or> projected_cost_minor obs > available_balance_minor obs then keep
         else keep
            @ push_fanout (fo_broadcast_id obs) policy (fanout_to_add obs policy)
                (next_free_ordinal (fo_nodes obs) (fo_broadcast_id obs))
            @ (if fo_transcode_enabled obs \<and> \<not> has_transcode_node obs
               then [desired_transcode (fo_broadcast_id obs) policy] else []))"

section \<open>Lemmas\<close>

definition kept :: "fleet_observation \<Rightarrow> fleet_policy \<Rightarrow> desired_node list" where
  "kept obs policy = map (\<lambda>n. desired_keep n (fo_broadcast_id obs) policy) (live_fanout_nodes obs)"

definition gates_open :: "fleet_observation \<Rightarrow> bool" where
  "gates_open obs \<longleftrightarrow> fo_programme_is_live obs \<and> 0 < available_balance_minor obs
     \<and> projected_cost_minor obs \<le> available_balance_minor obs"

definition added :: "fleet_observation \<Rightarrow> fleet_policy \<Rightarrow> desired_node list" where
  "added obs policy =
     push_fanout (fo_broadcast_id obs) policy (fanout_to_add obs policy)
       (next_free_ordinal (fo_nodes obs) (fo_broadcast_id obs))"

lemma plan_closed: "\<not> gates_open obs \<Longrightarrow> plan obs p = kept obs p"
  by (auto simp: plan_def gates_open_def kept_def Let_def)

lemma plan_open:
  "gates_open obs \<Longrightarrow> plan obs p = kept obs p @ added obs p
     @ (if fo_transcode_enabled obs \<and> \<not> has_transcode_node obs
        then [desired_transcode (fo_broadcast_id obs) p] else [])"
  by (auto simp: plan_def gates_open_def kept_def added_def Let_def)

lemma length_push_fanout [simp]: "length (push_fanout b p k n) = k"
  by (induction k arbitrary: n) simp_all

lemma push_fanout_flavor: "d \<in> set (push_fanout b p k n) \<Longrightarrow>
   dn_flavor d = Fanout \<and> dn_ownership d = Rented \<and> dn_broadcast_id d = b
   \<and> destroy_after_secs d = Some (rented_ttl_secs p)"
  by (induction k arbitrary: n) (auto simp: desired_fanout_def)

lemma push_fanout_nth:
  "n + k \<le> u32_max + 1 \<Longrightarrow> i < k \<Longrightarrow> push_fanout b p k n ! i = desired_fanout b (n + i) p"
proof (induction k arbitrary: n i)
  case (Suc k)
  show ?case
  proof (cases i)
    case (Suc j)
    with Suc.prems have w: "wrap_u32 (n + 1) = n + 1" by (intro wrap_u32_id) (simp add: in_u32_def)
    have "push_fanout b p k (n + 1) ! j = desired_fanout b (n + 1 + j) p"
      by (rule Suc.IH) (use Suc.prems \<open>i = Suc j\<close> in simp_all)
    then show ?thesis unfolding \<open>i = Suc j\<close> push_fanout.simps w by simp
  qed simp
qed simp

lemma fold_max_ge: "x \<in> set os \<Longrightarrow> x \<le> fold max os (a::nat)"
  unfolding Max.set_eq_fold [symmetric] by (rule Max_ge) simp_all

lemma fold_max_bound: "(\<And>x. x \<in> set os \<Longrightarrow> x \<le> m) \<Longrightarrow> a \<le> m \<Longrightarrow> fold max os a \<le> (m::nat)"
  unfolding Max.set_eq_fold [symmetric] by (rule Max.boundedI) auto

lemma map_filter_mem: "x \<in> set xs \<Longrightarrow> f x = Some y \<Longrightarrow> y \<in> set (List.map_filter f xs)"
  by (auto simp: List.map_filter_def intro!: image_eqI [of _ _ x])

lemma ordinals_mem:
  "n \<in> set ns \<Longrightarrow> fn_id n = fanout_prefix b @ show_nat k \<Longrightarrow> k \<le> u32_max \<Longrightarrow> k \<in> set (ordinals ns b)"
  unfolding ordinals_def
  by (rule map_filter_mem [of n]) (simp, simp add: parse_u32_show_nat del: parse_u32.simps)

lemma next_free_ordinal_above:
  assumes "\<forall>x \<in> set (ordinals ns b). x + m \<le> u32_max" and "0 < m"
  shows "\<forall>x \<in> set (ordinals ns b). x < next_free_ordinal ns b"
    and "next_free_ordinal ns b + m \<le> u32_max + 1 \<or> ordinals ns b = [] \<and> next_free_ordinal ns b = 0"
proof -
  define M where "M = fold max (ordinals ns b) 0"
  have M: "ordinals ns b \<noteq> [] \<Longrightarrow> M + m \<le> u32_max"
  proof -
    assume ne: "ordinals ns b \<noteq> []"
    then have "m \<le> u32_max" using assms(1) by (cases "ordinals ns b") auto
    moreover have "M \<le> u32_max - m" unfolding M_def
    proof (rule fold_max_bound)
      fix x assume "x \<in> set (ordinals ns b)"
      then have "x + m \<le> u32_max" using assms(1) by blast
      then show "x \<le> u32_max - m" by linarith
    qed simp
    ultimately show ?thesis by linarith
  qed
  have e: "ordinals ns b \<noteq> [] \<Longrightarrow> next_free_ordinal ns b = M + 1"
  proof -
    assume ne: "ordinals ns b \<noteq> []"
    with M assms(2) have "in_u32 (M + 1)" by (simp add: in_u32_def)
    with ne show ?thesis
      by (cases "ordinals ns b") (auto simp: next_free_ordinal_def M_def)
  qed
  show "\<forall>x \<in> set (ordinals ns b). x < next_free_ordinal ns b"
  proof
    fix x assume x: "x \<in> set (ordinals ns b)"
    then have "x \<le> M" by (simp add: M_def fold_max_ge)
    moreover have "ordinals ns b \<noteq> []" using x by auto
    ultimately show "x < next_free_ordinal ns b" using e by simp
  qed
  show "next_free_ordinal ns b + m \<le> u32_max + 1 \<or> ordinals ns b = [] \<and> next_free_ordinal ns b = 0"
    using e M by (cases "ordinals ns b") (auto simp: next_free_ordinal_def)
qed

lemma effective_capacity_le: "in_u32 (effective_capacity obs p)"
  by (simp add: effective_capacity_def)

section \<open>Properties\<close>

text \<open>C26: A gate stops growth and never destroys: whatever the gates say, every live fan-out
  node stays desired, first and in order; with any gate closed nothing else is; and the gates
  open only for a live programme with a positive balance that covers the projected cost.\<close>

theorem plan_gates_stop_growth_only:
  "\<exists>rest. plan obs p = map (\<lambda>n. desired_keep n (fo_broadcast_id obs) p) (live_fanout_nodes obs) @ rest
     \<and> (rest \<noteq> [] \<longrightarrow> fo_programme_is_live obs \<and> 0 < available_balance_minor obs
          \<and> projected_cost_minor obs \<le> available_balance_minor obs)"
proof (cases "gates_open obs")
  case True
  then show ?thesis using plan_open [OF True, of p] by (auto simp: kept_def gates_open_def)
next
  case False
  then show ?thesis using plan_closed [OF False, of p] by (auto simp: kept_def)
qed

theorem plan_gates_stop_growth_only_witness:
  "plan \<lparr>fo_broadcast_id = ''b'', fo_programme_is_live = True, fo_transcode_enabled = True,
      viewers_projected = 600, available_balance_minor = 4, projected_cost_minor = 5, fo_nodes = []\<rparr>
     (conservative ''r'' ''s'') = []"
  using plan_gates_stop_growth_only [of "\<lparr>fo_broadcast_id = ''b'', fo_programme_is_live = True,
      fo_transcode_enabled = True, viewers_projected = 600, available_balance_minor = 4,
      projected_cost_minor = 5, fo_nodes = []\<rparr>" "conservative ''r'' ''s''"]
  by (simp add: live_fanout_nodes_def)

lemma fanout_to_add_room:
  "in_u32 (length (live_fanout_nodes obs)) \<Longrightarrow>
   fanout_to_add obs p \<le> max_fanout_nodes_per_broadcast p - length (live_fanout_nodes obs)"
  by (simp add: fanout_to_add_def Let_def)

lemma kept_flavor: "d \<in> set (kept obs p) \<Longrightarrow> dn_flavor d = Fanout"
  by (auto simp: kept_def live_fanout_nodes_def desired_keep_def)

text \<open>C27: The fan-out ceiling holds: the planned set never has more fan-out nodes than the
  larger of the ceiling and the number that already exist (nodes still booting count, so the
  ceiling cannot be walked past one tick at a time), and it never has two transcode nodes.\<close>

theorem plan_respects_ceiling:
  assumes "in_u32 (length (live_fanout_nodes obs))"
  shows "length (filter (\<lambda>d. dn_flavor d = Fanout) (plan obs p))
      \<le> max (length (live_fanout_nodes obs)) (max_fanout_nodes_per_broadcast p)
    \<and> length (filter (\<lambda>d. dn_flavor d = Transcode) (plan obs p)) \<le> 1"
proof -
  have k: "filter (\<lambda>d. dn_flavor d = Fanout) (kept obs p) = kept obs p"
    "filter (\<lambda>d. dn_flavor d = Transcode) (kept obs p) = []"
    using kept_flavor by (auto simp: filter_id_conv filter_empty_conv)
  have a: "filter (\<lambda>d. dn_flavor d = Fanout) (added obs p) = added obs p"
    "filter (\<lambda>d. dn_flavor d = Transcode) (added obs p) = []"
    unfolding added_def by (auto simp: filter_id_conv filter_empty_conv dest!: push_fanout_flavor)
  have "length (kept obs p) = length (live_fanout_nodes obs)" by (simp add: kept_def)
  moreover have "length (added obs p) = fanout_to_add obs p" by (simp add: added_def)
  ultimately show ?thesis
    using k a fanout_to_add_room [OF assms, of p] plan_open [of obs p] plan_closed [of obs p]
    by (cases "gates_open obs") (auto simp: desired_transcode_def)
qed

theorem plan_respects_ceiling_witness:
  "length (filter (\<lambda>d. dn_flavor d = Fanout)
     (plan \<lparr>fo_broadcast_id = ''b'', fo_programme_is_live = True, fo_transcode_enabled = True,
        viewers_projected = 100000, available_balance_minor = 5, projected_cost_minor = 5,
        fo_nodes = []\<rparr> (conservative ''r'' ''s''))) \<le> 8"
  using plan_respects_ceiling [of "\<lparr>fo_broadcast_id = ''b'', fo_programme_is_live = True,
      fo_transcode_enabled = True, viewers_projected = 100000, available_balance_minor = 5,
      projected_cost_minor = 5, fo_nodes = []\<rparr>" "conservative ''r'' ''s''"]
  by (simp add: live_fanout_nodes_def conservative_def in_u32_def)

text \<open>The ids of newly planned fan-out nodes are pairwise distinct and differ from the id
  of every node ever observed for the broadcast, in whatever state, as long as the ordinals
  in use leave room for the ceiling below \<^const>\<open>u32_max\<close>.\<close>

theorem planned_fanout_ids_fresh:
  assumes room: "\<forall>x \<in> set (ordinals (fo_nodes obs) (fo_broadcast_id obs)).
      x + max_fanout_nodes_per_broadcast p \<le> u32_max"
    and "max_fanout_nodes_per_broadcast p \<le> u32_max"
  shows "\<exists>new. plan obs p = kept obs p @ new
    \<and> distinct (map dn_mm_node_id (filter (\<lambda>d. dn_flavor d = Fanout) new))
    \<and> (\<forall>d \<in> set new. dn_flavor d = Fanout \<longrightarrow> (\<forall>n \<in> set (fo_nodes obs). fn_id n \<noteq> dn_mm_node_id d))"
proof -
  define b k0 k where "b = fo_broadcast_id obs" and "k0 = next_free_ordinal (fo_nodes obs) b"
    and "k = fanout_to_add obs p"
  have km: "k \<le> max_fanout_nodes_per_broadcast p"
    by (auto simp: k_def fanout_to_add_def Let_def intro: le_trans [OF min.cobounded2])
  have bound: "k = 0 \<or> k0 + k \<le> u32_max + 1
      \<and> (\<forall>x \<in> set (ordinals (fo_nodes obs) b). x < k0)"
  proof (cases "max_fanout_nodes_per_broadcast p = 0")
    case False
    then show ?thesis
      using next_free_ordinal_above [OF room [folded b_def]] km assms(2)
      by (auto simp: k0_def)
  qed (use km in simp)
  have nth: "i < k \<Longrightarrow> added obs p ! i = desired_fanout b (k0 + i) p" for i
    unfolding added_def k_def [symmetric] b_def [symmetric] k0_def [symmetric]
    using bound by (intro push_fanout_nth) auto
  have len: "length (added obs p) = k" by (simp add: added_def k_def)
  have ids: "map dn_mm_node_id (added obs p) = map (\<lambda>i. fanout_prefix b @ show_nat (k0 + i)) [0..<k]"
    by (rule nth_equalityI) (use nth len in \<open>simp_all add: desired_fanout_def\<close>)
  have dist: "distinct (map dn_mm_node_id (added obs p))"
    unfolding ids distinct_map
  proof (intro conjI inj_onI)
    fix i j assume ij: "i \<in> set [0..<k]" "j \<in> set [0..<k]"
      and "fanout_prefix b @ show_nat (k0 + i) = fanout_prefix b @ show_nat (k0 + j)"
    then have e: "show_nat (k0 + i) = show_nat (k0 + j)" by simp
    have "k0 + i \<le> u32_max" "k0 + j \<le> u32_max" using ij bound by auto
    from show_nat_inj [OF this e] show "i = j" by simp
  qed simp
  have fresh: "fn_id n \<noteq> dn_mm_node_id d" if d: "d \<in> set (added obs p)" and n: "n \<in> set (fo_nodes obs)" for d n
  proof
    assume eq: "fn_id n = dn_mm_node_id d"
    from d have "dn_mm_node_id d \<in> set (map dn_mm_node_id (added obs p))" by simp
    then obtain i where i: "i < k" "dn_mm_node_id d = fanout_prefix b @ show_nat (k0 + i)"
      unfolding ids by auto
    have "k0 + i \<in> set (ordinals (fo_nodes obs) b)"
      using ordinals_mem [OF n, of b "k0 + i"] eq i bound by auto
    with bound i show False by auto
  qed
  have fa: "filter (\<lambda>d. dn_flavor d = Fanout) (added obs p) = added obs p"
    unfolding added_def by (auto simp: filter_id_conv dest!: push_fanout_flavor)
  show ?thesis
  proof (cases "gates_open obs")
    case True
    then show ?thesis using dist fresh fa plan_open [OF True, of p]
      by (auto simp: desired_transcode_def)
  next
    case False
    then show ?thesis using plan_closed by auto
  qed
qed

theorem planned_fanout_ids_fresh_witness:
  "\<exists>new. plan \<lparr>fo_broadcast_id = ''b'', fo_programme_is_live = True, fo_transcode_enabled = False,
        viewers_projected = 10, available_balance_minor = 5, projected_cost_minor = 5,
        fo_nodes = []\<rparr> (conservative ''r'' ''s'') = [] @ new
     \<and> distinct (map dn_mm_node_id (filter (\<lambda>d. dn_flavor d = Fanout) new))"
  using planned_fanout_ids_fresh [of "\<lparr>fo_broadcast_id = ''b'', fo_programme_is_live = True,
      fo_transcode_enabled = False, viewers_projected = 10, available_balance_minor = 5,
      projected_cost_minor = 5, fo_nodes = []\<rparr>" "conservative ''r'' ''s''"]
  by (auto simp: ordinals_def List.map_filter_def conservative_def u32_max_def kept_def
      live_fanout_nodes_def)

lemma added_mem:
  "d \<in> set (added obs p) \<Longrightarrow>
   dn_flavor d = Fanout \<and> dn_ownership d = Rented \<and> dn_broadcast_id d = fo_broadcast_id obs
   \<and> destroy_after_secs d = Some (rented_ttl_secs p) \<and> dn_region d = fp_region p \<and> dn_size d = fp_size p"
proof -
  have "d \<in> set (push_fanout b p k n) \<Longrightarrow> dn_region d = fp_region p \<and> dn_size d = fp_size p" for b k n
    by (induction k arbitrary: n) (auto simp: desired_fanout_def)
  then show "d \<in> set (added obs p) \<Longrightarrow> ?thesis"
    unfolding added_def using push_fanout_flavor by blast
qed

lemma fanout_of_plan:
  "filter (\<lambda>d. dn_flavor d = Fanout) (plan obs p) =
     kept obs p @ (if gates_open obs then added obs p else [])"
proof -
  have "filter (\<lambda>d. dn_flavor d = Fanout) (kept obs p) = kept obs p"
    using kept_flavor by (auto simp: filter_id_conv)
  moreover have "filter (\<lambda>d. dn_flavor d = Fanout) (added obs p) = added obs p"
    using added_mem by (auto simp: filter_id_conv)
  ultimately show ?thesis
    by (simp add: plan_open plan_closed desired_transcode_def)
qed

lemma length_kept [simp]: "length (kept obs p) = length (live_fanout_nodes obs)"
  by (simp add: kept_def)

lemma length_added [simp]: "length (added obs p) = fanout_to_add obs p"
  by (simp add: added_def)

text \<open>C28: Short of the ceiling, an open gate orders exactly the nodes that are needed: with
  them the capacity covers the projected viewers, and with one fewer it would not.\<close>

theorem plan_covers_shortfall:
  assumes "gates_open obs" and "0 < viewer_capacity_per_node p"
    and "in_u32 (length (live_fanout_nodes obs))"
    and "length (filter (\<lambda>d. dn_flavor d = Fanout) (plan obs p)) < max_fanout_nodes_per_broadcast p"
  shows "let new = length (filter (\<lambda>d. dn_flavor d = Fanout) (plan obs p)) - length (live_fanout_nodes obs)
     in viewers_projected obs \<le> effective_capacity obs p + new * viewer_capacity_per_node p
      \<and> (0 < new \<longrightarrow> effective_capacity obs p + (new - 1) * viewer_capacity_per_node p
           < viewers_projected obs)"
proof -
  define c v m k where "c = effective_capacity obs p" and "v = viewers_projected obs"
    and "m = viewer_capacity_per_node p" and "k = fanout_to_add obs p"
  have m: "0 < m" "max m 1 = m" using assms(2) by (simp_all add: m_def max_def)
  have lt: "length (live_fanout_nodes obs) + k < max_fanout_nodes_per_broadcast p"
    using assms(1,4) by (simp add: fanout_of_plan k_def)
  have e: "c < v \<Longrightarrow> k = div_ceil (v - c) m" and z: "v \<le> c \<Longrightarrow> k = 0"
    using lt assms(3) m(2)
    by (simp_all add: fanout_to_add_def Let_def c_def v_def m_def k_def min_def split: if_splits)
  have up: "v \<le> c + k * m"
    using div_ceil_ge [OF m(1), of "v - c"] e z by (cases "c < v") auto
  have low: "0 < k \<longrightarrow> c + (k - 1) * m < v"
  proof
    assume k: "0 < k"
    with z have cv: "c < v" by force
    have "k * m < v - c + m" using div_ceil_lt [OF m(1), of "v - c"] e [OF cv] by simp
    moreover have "k * m = (k - 1) * m + m" using k by (cases k) simp_all
    ultimately show "c + (k - 1) * m < v" using cv by linarith
  qed
  have "length (filter (\<lambda>d. dn_flavor d = Fanout) (plan obs p)) - length (live_fanout_nodes obs) = k"
    using assms(1) by (simp add: fanout_of_plan k_def)
  with up low show ?thesis by (simp add: Let_def c_def v_def m_def)
qed

lemma div_ceil_600: "div_ceil 600 250 = 3"
  by (simp add: div_ceil_def)

theorem plan_covers_shortfall_witness:
  "0 + (3 - 1) * 250 < (600::nat) \<and>
   length (filter (\<lambda>d. dn_flavor d = Fanout)
     (plan \<lparr>fo_broadcast_id = ''b'', fo_programme_is_live = True, fo_transcode_enabled = False,
        viewers_projected = 600, available_balance_minor = 5, projected_cost_minor = 5, fo_nodes = []\<rparr>
       (conservative ''r'' ''s''))) = 3"
proof -
  let ?o = "\<lparr>fo_broadcast_id = ''b'', fo_programme_is_live = True, fo_transcode_enabled = False,
    viewers_projected = 600, available_balance_minor = 5, projected_cost_minor = 5, fo_nodes = []\<rparr>"
  let ?p = "conservative ''r'' ''s''"
  have g: "gates_open ?o" by (simp add: gates_open_def)
  have l: "live_fanout_nodes ?o = []" by (simp add: live_fanout_nodes_def)
  have e: "effective_capacity ?o ?p = 0" by (simp add: effective_capacity_def wrap_u32_def)
  have n: "length (filter (\<lambda>d. dn_flavor d = Fanout) (plan ?o ?p)) = 3"
    using g l e by (simp add: fanout_of_plan fanout_to_add_def conservative_def div_ceil_600 wrap_u32_def)
  have "let new = 3 - 0 in 600 \<le> 0 + new * (250::nat) \<and> (0 < new \<longrightarrow> 0 + (new - 1) * 250 < 600)"
    using plan_covers_shortfall [of ?o ?p] g l e n
    by (simp add: conservative_def in_u32_def)
  with n show ?thesis by simp
qed

text \<open>What the next observation shows of a node that was ordered and has not reported yet.\<close>

definition ordered_node :: "desired_node \<Rightarrow> fleet_node" where
  "ordered_node d =
     \<lparr>fn_id = dn_mm_node_id d, fn_flavor = dn_flavor d, fn_ownership = dn_ownership d,
      fn_state = Requested, fn_viewer_capacity = 0, fn_viewers_current = 0\<rparr>"

definition after_order :: "fleet_observation \<Rightarrow> fleet_policy \<Rightarrow> fleet_observation" where
  "after_order obs p =
     obs\<lparr>fo_nodes := fo_nodes obs @ map ordered_node
       (drop (length (live_fanout_nodes obs)) (filter (\<lambda>d. dn_flavor d = Fanout) (plan obs p)))\<rparr>"

lemma after_order_simps [simp]:
  "fo_broadcast_id (after_order obs p) = fo_broadcast_id obs"
  "fo_programme_is_live (after_order obs p) = fo_programme_is_live obs"
  "viewers_projected (after_order obs p) = viewers_projected obs"
  "available_balance_minor (after_order obs p) = available_balance_minor obs"
  "projected_cost_minor (after_order obs p) = projected_cost_minor obs"
  "gates_open (after_order obs p) = gates_open obs"
  by (simp_all add: after_order_def gates_open_def)

lemma after_order_nodes:
  "fo_nodes (after_order obs p) =
     fo_nodes obs @ (if gates_open obs then map ordered_node (added obs p) else [])"
  by (simp add: after_order_def fanout_of_plan)

lemma keep_ordered: "d \<in> set (added obs p) \<Longrightarrow> desired_keep (ordered_node d) (fo_broadcast_id obs) p = d"
  using added_mem [of d obs p] by (simp add: desired_keep_def ordered_node_def)

lemma after_order_live:
  "gates_open obs \<Longrightarrow>
   live_fanout_nodes (after_order obs p) = live_fanout_nodes obs @ map ordered_node (added obs p)"
  using added_mem [of _ obs p]
  by (auto simp: live_fanout_nodes_def after_order_nodes ordered_node_def filter_id_conv)

lemma after_order_kept: "gates_open obs \<Longrightarrow> kept (after_order obs p) p = kept obs p @ added obs p"
  by (simp add: kept_def after_order_live keep_ordered map_idI)

definition capacity_sum :: "fleet_observation \<Rightarrow> fleet_policy \<Rightarrow> nat" where
  "capacity_sum obs p = sum_list (map (node_capacity p)
     (filter (\<lambda>n. serves_webrtc_viewers (fn_flavor n)) (fo_nodes obs)))"

lemma sum_ordered:
  "(\<And>d. d \<in> set ds \<Longrightarrow> dn_flavor d = Fanout) \<Longrightarrow>
   sum_list (map (node_capacity p) (filter (\<lambda>n. serves_webrtc_viewers (fn_flavor n)) (map ordered_node ds)))
     = length ds * viewer_capacity_per_node p"
  by (induction ds) (auto simp: node_capacity_def ordered_node_def serves_webrtc_viewers_def)

lemma after_order_sum:
  "gates_open obs \<Longrightarrow>
   capacity_sum (after_order obs p) p = capacity_sum obs p + fanout_to_add obs p * viewer_capacity_per_node p"
  using added_mem [of _ obs p] sum_ordered [of "added obs p" p]
  by (simp add: capacity_sum_def after_order_nodes)

lemma fanout_to_add_max: "fanout_to_add obs p \<le> max_fanout_nodes_per_broadcast p"
  by (auto simp: fanout_to_add_def Let_def intro: le_trans [OF min.cobounded2])

lemma after_order_complete:
  assumes "gates_open obs" and "0 < viewer_capacity_per_node p"
    and "in_u32 (capacity_sum obs p + max_fanout_nodes_per_broadcast p * viewer_capacity_per_node p)"
    and "in_u32 (length (live_fanout_nodes obs) + max_fanout_nodes_per_broadcast p)"
  shows "fanout_to_add (after_order obs p) p = 0"
proof -
  define c v m k l M where "c = capacity_sum obs p" and "v = viewers_projected obs"
    and "m = viewer_capacity_per_node p" and "k = fanout_to_add obs p"
    and "l = length (live_fanout_nodes obs)" and "M = max_fanout_nodes_per_broadcast p"
  note abbr = c_def [symmetric] v_def [symmetric] m_def [symmetric] k_def [symmetric]
    l_def [symmetric] M_def [symmetric]
  have m: "0 < m" "max m 1 = m" using assms(2) by (simp_all add: m_def max_def)
  have kM: "k \<le> M" by (simp add: k_def M_def fanout_to_add_max)
  then have km: "k * m \<le> M * m" by simp
  have u: "in_u32 c" "in_u32 (c + k * m)" "in_u32 l" "in_u32 (l + k)"
    using assms(3,4) km kM unfolding abbr in_u32_def by linarith+
  have k: "k = (if c < v then min (div_ceil (v - c) m) (M - l) else 0)"
    using u m unfolding k_def fanout_to_add_def effective_capacity_def capacity_sum_def [symmetric] abbr
    by simp
  have k': "fanout_to_add (after_order obs p) p
      = (if c + k * m < v then min (div_ceil (v - (c + k * m)) m) (M - (l + k)) else 0)"
    using u m assms(1)
    unfolding fanout_to_add_def effective_capacity_def capacity_sum_def [symmetric]
    by (simp add: after_order_sum after_order_live abbr)
  have "c + k * m < v \<Longrightarrow> k = M - l"
    using k div_ceil_ge [OF m(1), of "v - c"] by (auto simp: min_def split: if_splits)
  then show ?thesis using k' by auto
qed

text \<open>Planning is stable: once the ordered nodes are visible, even before any of them
  reports, planning the same broadcast again yields the same fan-out rows, so an order is
  never placed twice while its machines boot.\<close>

theorem replan_stable:
  assumes "0 < viewer_capacity_per_node p"
    and "in_u32 (capacity_sum obs p + max_fanout_nodes_per_broadcast p * viewer_capacity_per_node p)"
    and "in_u32 (length (live_fanout_nodes obs) + max_fanout_nodes_per_broadcast p)"
  shows "filter (\<lambda>d. dn_flavor d = Fanout) (plan (after_order obs p) p) =
         filter (\<lambda>d. dn_flavor d = Fanout) (plan obs p)"
proof (cases "gates_open obs")
  case True
  with after_order_complete [OF True assms] have "added (after_order obs p) p = []"
    by (simp add: added_def)
  with True show ?thesis by (simp add: fanout_of_plan after_order_kept)
next
  case False
  then have "after_order obs p = obs" by (simp add: after_order_def fanout_of_plan)
  then show ?thesis by simp
qed

theorem replan_stable_witness:
  "filter (\<lambda>d. dn_flavor d = Fanout) (plan (after_order
     \<lparr>fo_broadcast_id = ''b'', fo_programme_is_live = True, fo_transcode_enabled = False,
        viewers_projected = 600, available_balance_minor = 5, projected_cost_minor = 5, fo_nodes = []\<rparr>
       (conservative ''r'' ''s'')) (conservative ''r'' ''s'')) =
   filter (\<lambda>d. dn_flavor d = Fanout) (plan
     \<lparr>fo_broadcast_id = ''b'', fo_programme_is_live = True, fo_transcode_enabled = False,
        viewers_projected = 600, available_balance_minor = 5, projected_cost_minor = 5, fo_nodes = []\<rparr>
       (conservative ''r'' ''s''))"
  by (rule replan_stable)
    (simp_all add: conservative_def capacity_sum_def live_fanout_nodes_def in_u32_def u32_max_def)

end
