(* ===== verification/Database.thy ===== *)
theory Database
  imports Fleet_Billing
begin

text \<open>
  The PostgreSQL tables that the fleet and billing components share
  (\<^verbatim>\<open>crates/mm-db/migrations/V034\<close> to \<^verbatim>\<open>V038\<close>, and the columns of \<^verbatim>\<open>mm_streams\<close> they read), and
  the shape of a statement against them.

  A statement is a function from the database to a result and the next database; a transaction
  of several statements is one such function. \<^verbatim>\<open>sql\<close> runs it under a fault schedule: it may
  fail before taking effect, or take effect and lose its acknowledgement. The second component
  of the state, of any type, is what the component drives besides the database (a provider, an
  actuator, a file). Text columns with a \<^verbatim>\<open>CHECK (... IN ...)\<close> constraint stay strings, so that
  reading them back goes through the code's \<^verbatim>\<open>parse\<close>. \<^verbatim>\<open>BIGINT\<close> columns are \<^typ>\<open>int\<close>; an
  arithmetic overflow in a statement is an error, as in PostgreSQL. \<^verbatim>\<open>ORDER BY\<close> on text is by
  bytes. The identity columns count successful inserts.
\<close>

section \<open>Statements under faults\<close>

text \<open>A failed statement: a violated constraint, by name, or any other failure, by its text.\<close>

datatype sql_error = Violates string | Failed string

fun sql_text :: "sql_error \<Rightarrow> string" where
  "sql_text (Violates c) = ''violates constraint '' @ c"
| "sql_text (Failed e) = e"

type_synonym ('d, 'a) stmt = "'d \<Rightarrow> (sql_error + 'a) \<times> 'd"

type_synonym ('d, 'x) env = "('d \<times> 'x) world"

abbreviation world_db :: "('d, 'x) env \<Rightarrow> 'd" where
  "world_db w \<equiv> fst (fst w)"

abbreviation world_env :: "('d, 'x) env \<Rightarrow> 'x" where
  "world_env w \<equiv> snd (fst w)"

definition sql :: "schedule \<Rightarrow> ('d, 'a) stmt \<Rightarrow> ('d, 'x) env \<Rightarrow> (sql_error + 'a) \<times> ('d, 'x) env" where
  "sql \<phi> f w =
     (case db_call \<phi> (\<lambda>s. (fst (f (fst s)), (snd (f (fst s)), snd s))) w of
        (Inl e, w') \<Rightarrow> (Inl (Failed e), w')
      | (Inr r, w') \<Rightarrow> (r, w'))"

definition reads :: "('d \<Rightarrow> 'a) \<Rightarrow> ('d, 'a) stmt" where
  "reads q d = (Inr (q d), d)"

text \<open>A call on what the component drives besides the database; it reports its own failures.\<close>

definition drives :: "('x \<Rightarrow> 'a \<times> 'x) \<Rightarrow> ('d, 'x) env \<Rightarrow> 'a \<times> ('d, 'x) env" where
  "drives g w = (fst (g (world_env w)), ((world_db w, snd (g (world_env w))), snd w))"

lemma sql_env [simp]: "world_env (snd (sql \<phi> f w)) = world_env w"
  by (cases "\<phi> (snd w)") (simp_all add: sql_def db_call_def)

lemma sql_db: "world_db (snd (sql \<phi> f w)) = world_db w
   \<or> world_db (snd (sql \<phi> f w)) = snd (f (world_db w))"
  by (cases "\<phi> (snd w)") (simp_all add: sql_def db_call_def)

lemma sql_Inr: "fst (sql \<phi> f w) = Inr a \<Longrightarrow>
   fst (f (world_db w)) = Inr a \<and> world_db (snd (sql \<phi> f w)) = snd (f (world_db w))"
  by (cases "\<phi> (snd w)") (simp_all add: sql_def db_call_def)

lemma sql_Violates: "fst (sql \<phi> f w) = Inl (Violates c) \<Longrightarrow>
   fst (f (world_db w)) = Inl (Violates c) \<and> world_db (snd (sql \<phi> f w)) = snd (f (world_db w))"
  by (cases "\<phi> (snd w)") (simp_all add: sql_def db_call_def)

lemma sql_inv:
  "(\<And>d. I d \<Longrightarrow> I (snd (f d))) \<Longrightarrow> I (world_db w) \<Longrightarrow> I (world_db (snd (sql \<phi> f w)))"
  using sql_db [of \<phi> f w] by auto

lemma sql_no_faults [simp]:
  "sql no_faults f w = (fst (f (world_db w)), ((snd (f (world_db w)), world_env w), Suc (snd w)))"
  by (simp add: sql_def split: sum.splits)

lemma sql_reads_db [simp]: "world_db (snd (sql \<phi> (reads q) w)) = world_db w"
  using sql_db [of \<phi> "reads q" w] by (auto simp: reads_def)

lemma sql_reads_state [simp]: "fst (snd (sql \<phi> (reads q) w)) = fst w"
  by (rule prod_eqI) simp_all

lemma sql_reads_Inr: "fst (sql \<phi> (reads q) w) = Inr a \<Longrightarrow> a = q (world_db w)"
  by (drule sql_Inr) (simp add: reads_def)

lemma drives_simps [simp]:
  "world_db (snd (drives g w)) = world_db w"
  "world_env (snd (drives g w)) = snd (g (world_env w))"
  "fst (drives g w) = fst (g (world_env w))"
  by (simp_all add: drives_def)

lemma snd_case_result [simp]:
  "snd (case p of (Inl e, w) \<Rightarrow> (g e, w) | (Inr a, w) \<Rightarrow> (h a, w)) = snd p"
  by (cases p; cases "fst p") auto

text \<open>
  Tables whose unique idempotency key makes an insert safe to repeat: a known key changes
  nothing, and a row that is accepted makes its key known. Under any faults, any number of
  attempts then has the effect of none or of one.
\<close>

locale idempotent_post =
  fixes post :: "'m \<Rightarrow> 'd \<Rightarrow> 'd" and key :: "'m \<Rightarrow> string" and keys :: "'d \<Rightarrow> string set"
  assumes post_known: "key m \<in> keys d \<Longrightarrow> post m d = d"
    and post_keys: "post m d = d \<or> keys (post m d) = insert (key m) (keys d)"
begin

lemma post_twice: "post m (post m d) = post m d"
  using post_keys [of m d] post_known [of m "post m d"] by auto

lemma post_new_key: "post m d \<noteq> d \<Longrightarrow> key m \<notin> keys d \<and> key m \<in> keys (post m d)"
  using post_keys [of m d] post_known [of m d] by auto

lemma sql_once:
  assumes "\<And>d. snd (f d) = post m d" and "world_db w \<in> {d, post m d}"
  shows "world_db (snd (sql \<phi> f w)) \<in> {d, post m d}"
  using sql_db [of \<phi> f w] assms by (auto simp: post_twice)

end

section \<open>Fleet tables (V034)\<close>

record desired_tuple =
  dt_mm_node_id :: string
  dt_flavor :: string
  dt_ownership :: string
  dt_region :: string
  dt_size :: string
  dt_broadcast_id :: "string option"
  dt_requested_at :: instant
  dt_destroy_deadline :: "instant option"

record node_tuple =
  nt_mm_node_id :: string
  nt_flavor :: string
  nt_ownership :: string
  nt_provider :: string
  nt_provider_id :: "string option"
  nt_state :: string
  nt_viewer_capacity :: "int option"
  nt_viewers_current :: int
  nt_billing_started_at :: "instant option"
  nt_renewal_due_at :: "instant option"
  nt_destroy_deadline :: "instant option"

definition flavor_labels :: "string list" where
  "flavor_labels = [''origin'', ''fanout'', ''edge'', ''transcode'']"

definition ownership_labels :: "string list" where
  "ownership_labels = [''owned'', ''leased'', ''rented'']"

definition state_labels :: "string list" where
  "state_labels = [''requested'', ''booting'', ''healthy'', ''draining'', ''destroying'', ''gone'']"

text \<open>The \<^verbatim>\<open>CHECK\<close> constraints of a row: the name of the first one it violates.\<close>

definition desired_checks :: "desired_tuple \<Rightarrow> string option" where
  "desired_checks r =
     (if dt_flavor r \<notin> set flavor_labels then Some ''mm_fleet_desired_flavor_check''
      else if dt_ownership r \<notin> set ownership_labels then Some ''mm_fleet_desired_ownership_check''
      else if dt_ownership r = ''rented'' \<and> dt_destroy_deadline r = None
      then Some ''desired_rented_needs_deadline''
      else if dt_ownership r \<noteq> ''rented'' \<and> dt_destroy_deadline r \<noteq> None
      then Some ''desired_nonrented_has_no_deadline''
      else None)"

definition node_checks :: "node_tuple \<Rightarrow> string option" where
  "node_checks r =
     (if nt_flavor r \<notin> set flavor_labels then Some ''mm_fleet_nodes_flavor_check''
      else if nt_ownership r \<notin> set ownership_labels then Some ''mm_fleet_nodes_ownership_check''
      else if nt_state r \<notin> set state_labels then Some ''mm_fleet_nodes_state_check''
      else if nt_ownership r = ''rented'' \<and> nt_destroy_deadline r = None
      then Some ''rented_needs_deadline''
      else if nt_ownership r \<noteq> ''rented'' \<and> nt_destroy_deadline r \<noteq> None
      then Some ''nonrented_has_no_deadline''
      else if nt_ownership r = ''leased'' \<and> nt_renewal_due_at r = None
      then Some ''leased_needs_renewal''
      else None)"

section \<open>Billing tables (V035, V036, V038)\<close>

record wallet_row =
  wr_user_id :: string
  wr_currency :: string
  wr_balance_minor :: int
  wr_credit_limit_minor :: int
  wr_updated_at :: instant
  wr_rating_blocked_at :: "instant option"

record wallet_tx =
  wt_id :: int
  wt_user_id :: string
  wt_currency :: string
  wt_kind :: string
  wt_amount_minor :: int
  wt_idempotency_key :: string
  wt_broadcast_id :: "string option"

record rate_row =
  rr_version :: int
  rr_currency :: string
  rr_unit :: string
  rr_price_minor :: int

record usage_event =
  ue_id :: int
  ue_user_id :: string
  ue_broadcast_id :: string
  ue_unit :: string
  ue_quantity_milli :: int
  ue_mm_node_id :: "string option"
  ue_idempotency_key :: string
  ue_occurred_at :: instant
  ue_rated_at :: "instant option"
  ue_rate_card_version :: "int option"
  ue_transaction_id :: "int option"
  ue_egress_epoch :: "string option"
  ue_cumulative_bytes :: "int option"

record baseline_row =
  bl_mm_node_id :: string
  bl_source :: string
  bl_epoch :: string
  bl_cumulative_bytes :: int
  bl_observed_at :: instant

definition is_iso4217_lower :: "string \<Rightarrow> bool" where
  "is_iso4217_lower c \<longleftrightarrow> length c = 3 \<and> list_all (\<lambda>x. CHR ''a'' \<le> x \<and> x \<le> CHR ''z'') c"

definition wallet_checks :: "wallet_row \<Rightarrow> string option" where
  "wallet_checks r =
     (if \<not> is_iso4217_lower (wr_currency r) then Some ''wallet_currency_is_iso4217_lower''
      else if wr_credit_limit_minor r < 0 then Some ''wallet_credit_limit_not_negative''
      else if wr_balance_minor r < - wr_credit_limit_minor r then Some ''wallet_within_credit_limit''
      else None)"

definition tx_checks :: "wallet_tx \<Rightarrow> string option" where
  "tx_checks r =
     (if wt_kind r \<notin> {''deposit'', ''charge'', ''refund'', ''adjustment''}
      then Some ''mm_wallet_transactions_kind_check''
      else if (wt_kind r = ''deposit'' \<and> 0 < wt_amount_minor r)
        \<or> (wt_kind r = ''refund'' \<and> 0 < wt_amount_minor r)
        \<or> (wt_kind r = ''charge'' \<and> wt_amount_minor r < 0)
        \<or> (wt_kind r = ''adjustment'' \<and> wt_amount_minor r \<noteq> 0) then None
      else Some ''wallet_tx_sign_matches_kind'')"

definition unit_labels :: "string list" where
  "unit_labels = [''egress_gb'', ''gpu_minute'', ''node_minute'', ''storage_gb_month'']"

definition usage_checks :: "usage_event \<Rightarrow> string option" where
  "usage_checks r =
     (if ue_unit r \<notin> set unit_labels then Some ''mm_usage_events_unit_check''
      else if ue_quantity_milli r < 0 then Some ''mm_usage_events_quantity_milli_check''
      else if (ue_rated_at r = None \<and> ue_rate_card_version r = None \<and> ue_transaction_id r = None)
        \<or> (ue_rated_at r \<noteq> None \<and> ue_rate_card_version r \<noteq> None) then None
      else Some ''usage_rating_is_all_or_nothing'')"

definition baseline_checks :: "baseline_row \<Rightarrow> string option" where
  "baseline_checks r =
     (if bl_cumulative_bytes r < 0 then Some ''mm_egress_baseline_cumulative_bytes_check'' else None)"

section \<open>Ladder tables (V037) and broadcasts\<close>

record demotion_row =
  dm_broadcast_id :: string
  dm_target_step :: string
  dm_applied_step :: string
  dm_entered_at :: instant
  dm_evaluated_at :: instant
  dm_balance_minor :: int
  dm_projected_cost_minor :: int
  dm_milder_streak :: int

record demotion_event_row =
  de_broadcast_id :: string
  de_user_id :: string
  de_from_step :: string
  de_to_step :: string
  de_balance_minor :: int
  de_projected_cost_minor :: int
  de_statement :: string
  de_kind :: string
  de_delivered_at :: "instant option"
  de_occurred_at :: instant

record stream_row =
  st_id :: string
  st_host_user_id :: string
  st_status :: string
  st_started_at :: instant

definition step_labels :: "string list" where
  "step_labels = [''healthy'', ''stop_provisioning'', ''reduce_quality'', ''drain_to_origin'',
     ''end_with_slate'', ''overrun'']"

definition demotion_checks :: "demotion_row \<Rightarrow> string option" where
  "demotion_checks r =
     (if dm_target_step r \<notin> set step_labels then Some ''mm_broadcast_demotion_target_step_check''
      else if dm_applied_step r \<notin> set step_labels then Some ''mm_broadcast_demotion_applied_step_check''
      else if dm_milder_streak r < 0 then Some ''mm_broadcast_demotion_milder_streak_check''
      else None)"

definition event_checks :: "demotion_event_row \<Rightarrow> string option" where
  "event_checks r =
     (if de_statement r = [] then Some ''mm_demotion_events_statement_check''
      else if de_kind r \<notin> {''decision'', ''applied''} then Some ''mm_demotion_events_kind_check''
      else None)"

section \<open>The database\<close>

record db =
  db_now :: instant
  fleet_desired :: "desired_tuple list"
  fleet_nodes :: "node_tuple list"
  fleet_generation :: int
  wallets :: "wallet_row list"
  wallet_transactions :: "wallet_tx list"
  wallet_tx_next :: int
  rate_card :: "rate_row list"
  usage_events :: "usage_event list"
  usage_next :: int
  egress_baseline :: "baseline_row list"
  broadcast_demotion :: "demotion_row list"
  demotion_events :: "demotion_event_row list"
  streams :: "stream_row list"

definition empty_db :: db where
  "empty_db =
     \<lparr>db_now = 0, fleet_desired = [], fleet_nodes = [], fleet_generation = 1, wallets = [],
      wallet_transactions = [], wallet_tx_next = 1, rate_card = [], usage_events = [], usage_next = 1,
      egress_baseline = [], broadcast_demotion = [], demotion_events = [], streams = []\<rparr>"

type_synonym 'a query = "(db, 'a) stmt"

type_synonym 'x dbenv = "(db, 'x) env"

end
