(* ===== verification/Fleet_Store.thy ===== *)
theory Fleet_Store
  imports Capacity_Planner Database
begin

text \<open>
  The desired-set store (\<^verbatim>\<open>crates/mm-fleet/src/desired.rs\<close>) over the tables of V034, and the
  provider boundary (\<^verbatim>\<open>provider.rs\<close>) with its recording implementation \<^verbatim>\<open>DryRunProvider\<close>.

  Shown: the schema's constraints hold after every operation under every fault schedule, so
  reading the tables back loses no row; replacing a broadcast's desired set refines a
  replacement on the abstract map from ids to rows, atomically; a teardown deletes the desired
  row before it asks the provider for anything, whatever fails; the generation counter moves
  whenever the desired set does.
\<close>

section \<open>Providers\<close>

datatype provider_error = Transient string | Permanent string | Capacity string | Quota string

definition is_transient :: "provider_error \<Rightarrow> bool" where
  "is_transient e \<longleftrightarrow> (case e of Transient _ \<Rightarrow> True | _ \<Rightarrow> False)"

definition is_capacity :: "provider_error \<Rightarrow> bool" where
  "is_capacity e \<longleftrightarrow> (case e of Capacity _ \<Rightarrow> True | _ \<Rightarrow> False)"

definition is_quota :: "provider_error \<Rightarrow> bool" where
  "is_quota e \<longleftrightarrow> (case e of Quota _ \<Rightarrow> True | _ \<Rightarrow> False)"

definition needs_human :: "provider_error \<Rightarrow> bool" where
  "needs_human e \<longleftrightarrow> (case e of Permanent _ \<Rightarrow> True | Quota _ \<Rightarrow> True | _ \<Rightarrow> False)"

record instance_spec =
  is_mm_node_id :: string
  is_flavor :: node_flavor
  is_region :: string
  is_size :: string
  is_user_data :: string

record instance_handle =
  ih_provider_id :: string
  ih_public_ip :: "string option"
  ih_created_at :: "instant option"

text \<open>The trait: its operations on the provider's own state.\<close>

record 'p provider =
  provider_name :: string
  create :: "instance_spec \<Rightarrow> 'p \<Rightarrow> (provider_error + instance_handle) \<times> 'p"
  destroy :: "string \<Rightarrow> 'p \<Rightarrow> (provider_error + unit) \<times> 'p"
  list_instances :: "'p \<Rightarrow> (provider_error + instance_handle list) \<times> 'p"

datatype intent = IntentCreate string | IntentDestroy string | IntentList

record dry_run_state =
  intents :: "intent list"
  live :: "instance_handle list"
  fail_create :: "provider_error option"
  fail_destroy :: "provider_error option"
  fail_list :: "provider_error option"

definition dry_run_new :: dry_run_state where
  "dry_run_new = \<lparr>intents = [], live = [], fail_create = None, fail_destroy = None, fail_list = None\<rparr>"

definition seed_created_at :: "string \<Rightarrow> instant option \<Rightarrow> dry_run_state \<Rightarrow> dry_run_state" where
  "seed_created_at i t st =
     st\<lparr>live := live st @ [\<lparr>ih_provider_id = i, ih_public_ip = None, ih_created_at = t\<rparr>]\<rparr>"

definition seed :: "string list \<Rightarrow> dry_run_state \<Rightarrow> dry_run_state" where
  "seed ids st = fold (\<lambda>i. seed_created_at i (Some 0)) ids st"

definition fail_next_create :: "provider_error \<Rightarrow> dry_run_state \<Rightarrow> dry_run_state" where
  "fail_next_create e st = st\<lparr>fail_create := Some e\<rparr>"

definition fail_next_destroy :: "provider_error \<Rightarrow> dry_run_state \<Rightarrow> dry_run_state" where
  "fail_next_destroy e st = st\<lparr>fail_destroy := Some e\<rparr>"

definition fail_next_list :: "provider_error \<Rightarrow> dry_run_state \<Rightarrow> dry_run_state" where
  "fail_next_list e st = st\<lparr>fail_list := Some e\<rparr>"

text \<open>\<^verbatim>\<open>Utc::now()\<close> is read when the instance is created: the first argument.\<close>

definition dry_run_create ::
  "instant \<Rightarrow> instance_spec \<Rightarrow> dry_run_state \<Rightarrow> (provider_error + instance_handle) \<times> dry_run_state" where
  "dry_run_create now spec st0 =
     (let st = st0\<lparr>intents := intents st0 @ [IntentCreate (is_mm_node_id spec)]\<rparr> in
      case fail_create st of
        Some e \<Rightarrow> (Inl e, st\<lparr>fail_create := None\<rparr>)
      | None \<Rightarrow>
          let h = \<lparr>ih_provider_id = ''dry-run-'' @ is_mm_node_id spec,
                   ih_public_ip = Some ''203.0.113.1'', ih_created_at = Some now\<rparr>
          in (Inr h, st\<lparr>live := live st @ [h]\<rparr>))"

definition dry_run_destroy ::
  "string \<Rightarrow> dry_run_state \<Rightarrow> (provider_error + unit) \<times> dry_run_state" where
  "dry_run_destroy i st0 =
     (let st = st0\<lparr>intents := intents st0 @ [IntentDestroy i]\<rparr> in
      case fail_destroy st of
        Some e \<Rightarrow> (Inl e, st\<lparr>fail_destroy := None\<rparr>)
      | None \<Rightarrow> (Inr (), st\<lparr>live := filter (\<lambda>h. ih_provider_id h \<noteq> i) (live st)\<rparr>))"

definition dry_run_list ::
  "dry_run_state \<Rightarrow> (provider_error + instance_handle list) \<times> dry_run_state" where
  "dry_run_list st0 =
     (let st = st0\<lparr>intents := intents st0 @ [IntentList]\<rparr> in
      case fail_list st of
        Some e \<Rightarrow> (Inl e, st\<lparr>fail_list := None\<rparr>)
      | None \<Rightarrow> (Inr (live st), st))"

definition dry_run :: "instant \<Rightarrow> dry_run_state provider" where
  "dry_run now = \<lparr>provider_name = ''dry-run'', create = dry_run_create now,
     destroy = dry_run_destroy, list_instances = dry_run_list\<rparr>"

text \<open>
  What the trait's documentation asks of an implementation: \<open>running p\<close> are the provider ids
  the account pays for. A successful destroy leaves the instance gone and can be repeated; no
  destroy touches another instance; a listing changes nothing and is complete.
\<close>

locale provider_contract =
  fixes prov :: "'p provider" and running :: "'p \<Rightarrow> string set"
  assumes destroy_gone: "fst (destroy prov i p) = Inr () \<Longrightarrow> i \<notin> running (snd (destroy prov i p))"
    and destroy_again: "fst (destroy prov i p) = Inr () \<Longrightarrow>
          fst (destroy prov i (snd (destroy prov i p))) = Inr ()"
    and destroy_others: "j \<noteq> i \<Longrightarrow> j \<in> running (snd (destroy prov i p)) \<longleftrightarrow> j \<in> running p"
    and destroy_fails: "fst (destroy prov i p) = Inl e \<Longrightarrow> running (snd (destroy prov i p)) \<subseteq> running p"
    and list_keeps: "running (snd (list_instances prov p)) = running p"
    and list_complete: "fst (list_instances prov p) = Inr hs \<Longrightarrow> ih_provider_id ` set hs = running p"
begin

lemma destroy_shrinks: "running (snd (destroy prov i p)) \<subseteq> running p"
proof (cases "fst (destroy prov i p)")
  case (Inr u)
  then show ?thesis using destroy_gone destroy_others by (metis (full_types) old.unit.exhaust subsetI)
qed (rule destroy_fails)

lemma destroy_exact: "running p - {i} \<subseteq> running (snd (destroy prov i p))"
  using destroy_others by blast

end

definition running_ids :: "dry_run_state \<Rightarrow> string set" where
  "running_ids st = ih_provider_id ` set (live st)"

interpretation dry: provider_contract "dry_run now" running_ids for now
  by unfold_locales
    (auto simp: dry_run_def dry_run_destroy_def dry_run_list_def running_ids_def Let_def
      split: option.splits)

section \<open>Rows as read back\<close>

record desired_row =
  dr_mm_node_id :: string
  dr_flavor :: node_flavor
  dr_ownership :: ownership
  dr_region :: string
  dr_size :: string
  dr_broadcast_id :: "string option"
  dr_requested_at :: instant
  dr_destroy_deadline :: "instant option"

record observed_node =
  on_mm_node_id :: string
  on_flavor :: node_flavor
  on_ownership :: ownership
  on_state :: node_state
  on_provider_id :: "string option"
  on_destroy_deadline :: "instant option"
  on_billing_started_at :: "instant option"
  on_viewer_capacity :: nat
  on_viewers_current :: nat

record teardown_target =
  tt_mm_node_id :: string
  tt_ownership :: ownership
  tt_flavor :: node_flavor
  tt_provider_id :: "string option"

definition teardown_target_of :: "observed_node \<Rightarrow> teardown_target" where
  "teardown_target_of n =
     \<lparr>tt_mm_node_id = on_mm_node_id n, tt_ownership = on_ownership n, tt_flavor = on_flavor n,
      tt_provider_id = on_provider_id n\<rparr>"

datatype store_error =
    RentedWithoutDeadline string
  | NonRentedWithDeadline string ownership
  | NotReapable string ownership
  | ProviderFailure string provider_error
  | StoreDb sql_error

definition parse_desired :: "desired_tuple \<Rightarrow> desired_row option" where
  "parse_desired r =
     (case flavor_parse (dt_flavor r) of None \<Rightarrow> None | Some fl \<Rightarrow>
      (case ownership_parse (dt_ownership r) of None \<Rightarrow> None | Some ow \<Rightarrow>
       Some \<lparr>dr_mm_node_id = dt_mm_node_id r, dr_flavor = fl, dr_ownership = ow,
             dr_region = dt_region r, dr_size = dt_size r, dr_broadcast_id = dt_broadcast_id r,
             dr_requested_at = dt_requested_at r, dr_destroy_deadline = dt_destroy_deadline r\<rparr>))"

definition parse_node :: "node_tuple \<Rightarrow> observed_node option" where
  "parse_node r =
     (case flavor_parse (nt_flavor r) of None \<Rightarrow> None | Some fl \<Rightarrow>
      (case ownership_parse (nt_ownership r) of None \<Rightarrow> None | Some ow \<Rightarrow>
      (case state_parse (nt_state r) of None \<Rightarrow> None | Some st \<Rightarrow>
       Some \<lparr>on_mm_node_id = nt_mm_node_id r, on_flavor = fl, on_ownership = ow, on_state = st,
             on_provider_id =
               (case nt_provider_id r of Some p \<Rightarrow> if p = [] then None else Some p | None \<Rightarrow> None),
             on_destroy_deadline = nt_destroy_deadline r,
             on_billing_started_at = nt_billing_started_at r,
             on_viewer_capacity =
               i32_clamp_u32 (case nt_viewer_capacity r of Some c \<Rightarrow> c | None \<Rightarrow> 0),
             on_viewers_current = i32_clamp_u32 (nt_viewers_current r)\<rparr>)))"

section \<open>Operations\<close>

fun validate :: "desired_node list \<Rightarrow> store_error option" where
  "validate [] = None"
| "validate (d # ds) =
     (case (requires_destroy_deadline (dn_ownership d), destroy_after_secs d) of
        (True, None) \<Rightarrow> Some (RentedWithoutDeadline (dn_mm_node_id d))
      | (False, Some _) \<Rightarrow> Some (NonRentedWithDeadline (dn_mm_node_id d) (dn_ownership d))
      | _ \<Rightarrow> validate ds)"

text \<open>The inserted row, and what \<^verbatim>\<open>ON CONFLICT\<close> leaves of the one it replaces.\<close>

definition desired_insert :: "instant \<Rightarrow> instant \<Rightarrow> desired_node \<Rightarrow> desired_tuple" where
  "desired_insert now default_now d =
     \<lparr>dt_mm_node_id = dn_mm_node_id d, dt_flavor = flavor_as_str (dn_flavor d),
      dt_ownership = ownership_as_str (dn_ownership d), dt_region = dn_region d, dt_size = dn_size d,
      dt_broadcast_id = Some (dn_broadcast_id d), dt_requested_at = default_now,
      dt_destroy_deadline = map_option (\<lambda>s. now + secs (int s)) (destroy_after_secs d)\<rparr>"

definition desired_merge :: "desired_tuple \<Rightarrow> desired_tuple \<Rightarrow> desired_tuple" where
  "desired_merge old new = new\<lparr>dt_requested_at := dt_requested_at old\<rparr>"

text \<open>
  The statement triggers bump the generation once per statement: a \<^verbatim>\<open>DELETE\<close> fires one, and an
  \<^verbatim>\<open>INSERT ... ON CONFLICT DO UPDATE\<close> fires both the insert and the update trigger.
\<close>

definition delete_desired :: "(desired_tuple \<Rightarrow> bool) \<Rightarrow> db \<Rightarrow> db" where
  "delete_desired P d =
     d\<lparr>fleet_desired := filter (\<lambda>r. \<not> P r) (fleet_desired d),
       fleet_generation := fleet_generation d + 1\<rparr>"

definition upsert_desired :: "instant \<Rightarrow> desired_node \<Rightarrow> unit query" where
  "upsert_desired now n d =
     (let r = desired_insert now (db_now d) n in
      case desired_checks r of
        Some c \<Rightarrow> (Inl (Violates c), d)
      | None \<Rightarrow>
          (Inr (), d\<lparr>fleet_desired := upsert dt_mm_node_id desired_merge r (fleet_desired d),
                     fleet_generation := fleet_generation d + 2\<rparr>))"

fun upsert_all_desired :: "instant \<Rightarrow> desired_node list \<Rightarrow> unit query" where
  "upsert_all_desired now [] d = (Inr (), d)"
| "upsert_all_desired now (n # ns) d =
     (case upsert_desired now n d of
        (Inl e, d') \<Rightarrow> (Inl e, d')
      | (Inr _, d') \<Rightarrow> upsert_all_desired now ns d')"

definition replace_desired :: "string \<Rightarrow> desired_node list \<Rightarrow> instant \<Rightarrow> unit query" where
  "replace_desired broadcast_id desired now d =
     (let keep = map dn_mm_node_id desired;
          d1 = delete_desired
                 (\<lambda>r. dt_broadcast_id r = Some broadcast_id \<and> dt_mm_node_id r \<notin> set keep) d
      in case upsert_all_desired now desired d1 of
           (Inl e, _) \<Rightarrow> (Inl e, d)
         | (Inr _, d2) \<Rightarrow> (Inr (), d2))"

definition upsert_for_broadcast ::
  "schedule \<Rightarrow> string \<Rightarrow> desired_node list \<Rightarrow> instant \<Rightarrow> 'x dbenv \<Rightarrow> (store_error + unit) \<times> 'x dbenv" where
  "upsert_for_broadcast \<phi> broadcast_id desired now w =
     (case validate desired of
        Some e \<Rightarrow> (Inl e, w)
      | None \<Rightarrow>
          (case sql \<phi> (replace_desired broadcast_id desired now) w of
             (Inl e, w') \<Rightarrow> (Inl (StoreDb e), w')
           | (Inr _, w') \<Rightarrow> (Inr (), w')))"

definition load_all_rows :: "db \<Rightarrow> desired_row list" where
  "load_all_rows d = List.map_filter parse_desired (sort_key dt_mm_node_id (fleet_desired d))"

definition load_all :: "schedule \<Rightarrow> 'x dbenv \<Rightarrow> (store_error + desired_row list) \<times> 'x dbenv" where
  "load_all \<phi> w = (case sql \<phi> (reads load_all_rows) w of
     (Inl e, w') \<Rightarrow> (Inl (StoreDb e), w') | (Inr rs, w') \<Rightarrow> (Inr rs, w'))"

definition desired_deadlines_rows :: "db \<Rightarrow> (string \<rightharpoonup> instant)" where
  "desired_deadlines_rows d =
     map_of (List.map_filter
       (\<lambda>r. map_option (Pair (dt_mm_node_id r)) (dt_destroy_deadline r)) (rev (fleet_desired d)))"

definition desired_deadlines ::
  "schedule \<Rightarrow> 'x dbenv \<Rightarrow> (store_error + (string \<rightharpoonup> instant)) \<times> 'x dbenv" where
  "desired_deadlines \<phi> w = (case sql \<phi> (reads desired_deadlines_rows) w of
     (Inl e, w') \<Rightarrow> (Inl (StoreDb e), w') | (Inr m, w') \<Rightarrow> (Inr m, w'))"

definition load_nodes_rows :: "db \<Rightarrow> observed_node list" where
  "load_nodes_rows d = List.map_filter parse_node (sort_key nt_mm_node_id (fleet_nodes d))"

definition load_nodes :: "schedule \<Rightarrow> 'x dbenv \<Rightarrow> (store_error + observed_node list) \<times> 'x dbenv" where
  "load_nodes \<phi> w = (case sql \<phi> (reads load_nodes_rows) w of
     (Inl e, w') \<Rightarrow> (Inl (StoreDb e), w') | (Inr ns, w') \<Rightarrow> (Inr ns, w'))"

definition generation :: "schedule \<Rightarrow> 'x dbenv \<Rightarrow> (store_error + int) \<times> 'x dbenv" where
  "generation \<phi> w = (case sql \<phi> (reads fleet_generation) w of
     (Inl e, w') \<Rightarrow> (Inl (StoreDb e), w') | (Inr g, w') \<Rightarrow> (Inr g, w'))"

definition update_node_state :: "string \<Rightarrow> node_state \<Rightarrow> unit query" where
  "update_node_state node st d =
     (Inr (), d\<lparr>fleet_nodes :=
        map (\<lambda>r. if nt_mm_node_id r = node then r\<lparr>nt_state := state_as_str st\<rparr> else r)
          (fleet_nodes d)\<rparr>)"

definition set_node_state ::
  "schedule \<Rightarrow> string \<Rightarrow> node_state \<Rightarrow> 'x dbenv \<Rightarrow> (store_error + unit) \<times> 'x dbenv" where
  "set_node_state \<phi> node st w = (case sql \<phi> (update_node_state node st) w of
     (Inl e, w') \<Rightarrow> (Inl (StoreDb e), w') | (Inr _, w') \<Rightarrow> (Inr (), w'))"

definition delete_desired_row :: "string \<Rightarrow> unit query" where
  "delete_desired_row node d = (Inr (), delete_desired (\<lambda>r. dt_mm_node_id r = node) d)"

definition teardown ::
  "schedule \<Rightarrow> 'p provider \<Rightarrow> teardown_target \<Rightarrow> 'p dbenv \<Rightarrow> (store_error + unit) \<times> 'p dbenv" where
  "teardown \<phi> prov target w =
     (if \<not> ownership_is_reapable (tt_ownership target)
      then (Inl (NotReapable (tt_mm_node_id target) (tt_ownership target)), w)
      else case sql \<phi> (delete_desired_row (tt_mm_node_id target)) w of
        (Inl e, w1) \<Rightarrow> (Inl (StoreDb e), w1)
      | (Inr _, w1) \<Rightarrow>
          (case tt_provider_id target of
             None \<Rightarrow> set_node_state \<phi> (tt_mm_node_id target) Gone w1
           | Some provider_id \<Rightarrow>
               (case drives (destroy prov provider_id) w1 of
                  (Inr _, w2) \<Rightarrow> set_node_state \<phi> (tt_mm_node_id target) Gone w2
                | (Inl source, w2) \<Rightarrow>
                    (case set_node_state \<phi> (tt_mm_node_id target) Destroying w2 of
                       (Inl e, w3) \<Rightarrow> (Inl e, w3)
                     | (Inr _, w3) \<Rightarrow> (Inl (ProviderFailure (tt_mm_node_id target) source), w3)))))"

section \<open>The schema's constraints\<close>

definition fleet_wf :: "db \<Rightarrow> bool" where
  "fleet_wf d \<longleftrightarrow> distinct (map dt_mm_node_id (fleet_desired d)) \<and> distinct (map nt_mm_node_id (fleet_nodes d))
     \<and> list_all (\<lambda>r. desired_checks r = None) (fleet_desired d)
     \<and> list_all (\<lambda>r. node_checks r = None) (fleet_nodes d)"

named_theorems store_defs \<open>unfolding rules for the store's statements\<close>

declare delete_desired_def [store_defs] upsert_desired_def [store_defs]
  update_node_state_def [store_defs] delete_desired_row_def [store_defs]

interpretation desired_tbl: keyed_table dt_mm_node_id desired_merge
  by unfold_locales (simp add: desired_merge_def)

lemma labels_in_schema [simp]:
  "flavor_as_str f \<in> set flavor_labels" "ownership_as_str o' \<in> set ownership_labels"
  "state_as_str st \<in> set state_labels"
proof -
  show "flavor_as_str f \<in> set flavor_labels" by (cases f) (simp_all add: flavor_labels_def)
  show "ownership_as_str o' \<in> set ownership_labels" by (cases o') (simp_all add: ownership_labels_def)
  show "state_as_str st \<in> set state_labels" by (cases st) (simp_all add: state_labels_def)
qed

lemma ownership_rented_iff [simp]: "ownership_as_str o' = ''rented'' \<longleftrightarrow> o' = Rented"
  by (cases o') simp_all

lemma desired_checks_insert:
  "desired_checks (desired_insert now t n) = None \<longleftrightarrow>
   requires_destroy_deadline (dn_ownership n) = (destroy_after_secs n \<noteq> None)"
  by (auto simp: desired_checks_def desired_insert_def split: option.splits)

lemma desired_checks_merge [simp]: "desired_checks (desired_merge x r) = desired_checks r"
  by (simp add: desired_checks_def desired_merge_def)

lemma validate_None_iff:
  "validate ds = None \<longleftrightarrow>
   list_all (\<lambda>d. requires_destroy_deadline (dn_ownership d) = (destroy_after_secs d \<noteq> None)) ds"
  by (induction ds rule: validate.induct) (auto split: option.splits bool.splits)

lemma parse_desired_total: "desired_checks r = None \<Longrightarrow> parse_desired r \<noteq> None"
  using flavor_wire.parse_None_iff [of "dt_flavor r"] ownership_wire.parse_None_iff [of "dt_ownership r"]
  by (auto simp: desired_checks_def parse_desired_def flavor_labels_def ownership_labels_def
      flavor_all_def ownership_all_def split: option.splits if_splits)

lemma parse_node_total: "node_checks r = None \<Longrightarrow> parse_node r \<noteq> None"
  using flavor_wire.parse_None_iff [of "nt_flavor r"] ownership_wire.parse_None_iff [of "nt_ownership r"]
    state_wire.parse_None_iff [of "nt_state r"]
  by (auto simp: node_checks_def parse_node_def flavor_labels_def ownership_labels_def state_labels_def
      flavor_all_def ownership_all_def state_all_def split: option.splits if_splits)

lemma map_filter_total: "(\<And>x. x \<in> set xs \<Longrightarrow> f x \<noteq> None) \<Longrightarrow> map Some (List.map_filter f xs) = map f xs"
  by (induction xs) (auto simp: List.map_filter_simps split: option.splits)

lemma load_all_lossless:
  "fleet_wf d \<Longrightarrow> map Some (load_all_rows d) = map parse_desired (sort_key dt_mm_node_id (fleet_desired d))"
  unfolding load_all_rows_def
  by (rule map_filter_total) (auto simp: fleet_wf_def list_all_iff dest: parse_desired_total)

lemma load_nodes_lossless:
  "fleet_wf d \<Longrightarrow> map Some (load_nodes_rows d) = map parse_node (sort_key nt_mm_node_id (fleet_nodes d))"
  unfolding load_nodes_rows_def
  by (rule map_filter_total) (auto simp: fleet_wf_def list_all_iff dest: parse_node_total)

lemma empty_wf: "fleet_wf empty_db"
  by (simp add: fleet_wf_def empty_db_def)

section \<open>What each statement does\<close>

definition desired_view :: "db \<Rightarrow> (string \<rightharpoonup> desired_tuple)" where
  "desired_view d k = lookup_row dt_mm_node_id k (fleet_desired d)"

lemma delete_desired_fields [simp]:
  "fleet_nodes (delete_desired P d) = fleet_nodes d" "db_now (delete_desired P d) = db_now d"
  "fleet_generation (delete_desired P d) = fleet_generation d + 1"
  "fleet_desired (delete_desired P d) = filter (\<lambda>r. \<not> P r) (fleet_desired d)"
  by (simp_all add: delete_desired_def)

lemma delete_desired_wf: "fleet_wf d \<Longrightarrow> fleet_wf (delete_desired P d)"
  by (auto simp: fleet_wf_def list_all_iff distinct_map_filter)

lemma lookup_filter_distinct:
  "distinct (map key t) \<Longrightarrow> lookup_row key k (filter (\<lambda>r. \<not> P r) t) =
     (case lookup_row key k t of Some r \<Rightarrow> if P r then None else Some r | None \<Rightarrow> None)"
proof (induction t)
  case (Cons x t)
  then show ?case
  proof (cases "key x = k")
    case True
    with Cons.prems have "k \<notin> key ` set t" by auto
    then have "lookup_row key k (filter (\<lambda>r. \<not> P r) t) = None" by (auto simp: lookup_row_None)
    with True show ?thesis by (simp add: lookup_row_def)
  qed (simp add: lookup_row_def)
qed (simp add: lookup_row_def)

lemma upsert_desired_valid:
  assumes "requires_destroy_deadline (dn_ownership n) = (destroy_after_secs n \<noteq> None)"
  shows "fst (upsert_desired now n d) = Inr ()"
    and "desired_view (snd (upsert_desired now n d)) =
      (desired_view d)(dn_mm_node_id n \<mapsto> (desired_insert now (db_now d) n)
        \<lparr>dt_requested_at := case desired_view d (dn_mm_node_id n) of Some r \<Rightarrow> dt_requested_at r | None \<Rightarrow> db_now d\<rparr>)"
    and "fleet_wf d \<Longrightarrow> fleet_wf (snd (upsert_desired now n d))"
    and "db_now (snd (upsert_desired now n d)) = db_now d"
    and "fleet_nodes (snd (upsert_desired now n d)) = fleet_nodes d"
    and "fleet_generation d < fleet_generation (snd (upsert_desired now n d))"
proof -
  define r where "r = desired_insert now (db_now d) n"
  have c: "desired_checks r = None" using assms by (simp add: r_def desired_checks_insert)
  have k: "dt_mm_node_id r = dn_mm_node_id n" and t: "dt_requested_at r = db_now d"
    by (simp_all add: r_def desired_insert_def)
  have e: "upsert_desired now n d = (Inr (), d\<lparr>fleet_desired := upsert dt_mm_node_id desired_merge r (fleet_desired d),
      fleet_generation := fleet_generation d + 2\<rparr>)"
    using c by (simp add: upsert_desired_def Let_def r_def)
  then show "fst (upsert_desired now n d) = Inr ()" "db_now (snd (upsert_desired now n d)) = db_now d"
    "fleet_nodes (snd (upsert_desired now n d)) = fleet_nodes d"
    "fleet_generation d < fleet_generation (snd (upsert_desired now n d))" by simp_all
  show "fleet_wf d \<Longrightarrow> fleet_wf (snd (upsert_desired now n d))"
    using e c desired_tbl.upsert_distinct [of "fleet_desired d" r]
      desired_tbl.upsert_all [of "fleet_desired d" "\<lambda>r. desired_checks r = None" r]
    by (auto simp: fleet_wf_def list_all_iff)
  show "desired_view (snd (upsert_desired now n d)) =
      (desired_view d)(dn_mm_node_id n \<mapsto> (desired_insert now (db_now d) n)
        \<lparr>dt_requested_at := case desired_view d (dn_mm_node_id n) of Some r \<Rightarrow> dt_requested_at r | None \<Rightarrow> db_now d\<rparr>)"
  proof
    fix x
    show "desired_view (snd (upsert_desired now n d)) x =
      ((desired_view d)(dn_mm_node_id n \<mapsto> (desired_insert now (db_now d) n)
        \<lparr>dt_requested_at := case desired_view d (dn_mm_node_id n) of Some r \<Rightarrow> dt_requested_at r | None \<Rightarrow> db_now d\<rparr>)) x"
      using e k t desired_tbl.upsert_lookup_same [of r "fleet_desired d"]
        desired_tbl.upsert_lookup_other [of x r "fleet_desired d"]
      by (auto simp: desired_view_def r_def [symmetric] desired_merge_def split: option.splits)
  qed
qed

text \<open>The abstract replacement: the last desired node of each id, with the time its row was
  first requested; rows of the broadcast that are not desired go, all others stay.\<close>

definition desired_after :: "desired_node list \<Rightarrow> instant \<Rightarrow> instant \<Rightarrow>
    (string \<rightharpoonup> desired_tuple) \<Rightarrow> (string \<rightharpoonup> desired_tuple)" where
  "desired_after ds now default_now m k =
     (case find (\<lambda>n. dn_mm_node_id n = k) (rev ds) of
        Some n \<Rightarrow> Some ((desired_insert now default_now n)\<lparr>dt_requested_at :=
                    case m k of Some r \<Rightarrow> dt_requested_at r | None \<Rightarrow> default_now\<rparr>)
      | None \<Rightarrow> m k)"

definition replace_spec :: "string \<Rightarrow> desired_node list \<Rightarrow> instant \<Rightarrow> instant \<Rightarrow>
    (string \<rightharpoonup> desired_tuple) \<Rightarrow> (string \<rightharpoonup> desired_tuple)" where
  "replace_spec b ds now default_now m k =
     (if k \<in> dn_mm_node_id ` set ds then desired_after ds now default_now m k
      else case m k of
             Some r \<Rightarrow> if dt_broadcast_id r = Some b then None else Some r
           | None \<Rightarrow> None)"

lemma find_append: "find P (xs @ ys) = (case find P xs of Some x \<Rightarrow> Some x | None \<Rightarrow> find P ys)"
  by (induction xs) auto

lemma desired_after_Cons:
  "desired_after (n # ds) now t m =
   desired_after ds now t (m(dn_mm_node_id n \<mapsto> (desired_insert now t n)
     \<lparr>dt_requested_at := case m (dn_mm_node_id n) of Some r \<Rightarrow> dt_requested_at r | None \<Rightarrow> t\<rparr>))"
  by (rule ext) (auto simp: desired_after_def find_append split: option.splits)

lemma upsert_all_desired_valid:
  "validate ds = None \<Longrightarrow>
   fst (upsert_all_desired now ds d) = Inr ()
   \<and> desired_view (snd (upsert_all_desired now ds d)) = desired_after ds now (db_now d) (desired_view d)
   \<and> (fleet_wf d \<longrightarrow> fleet_wf (snd (upsert_all_desired now ds d)))
   \<and> fleet_nodes (snd (upsert_all_desired now ds d)) = fleet_nodes d
   \<and> fleet_generation d \<le> fleet_generation (snd (upsert_all_desired now ds d))"
proof (induction ds arbitrary: d)
  case Nil
  then show ?case by (auto simp: desired_after_def)
next
  case (Cons n ds)
  have v: "validate ds = None"
    "requires_destroy_deadline (dn_ownership n) = (destroy_after_secs n \<noteq> None)"
    using Cons.prems validate_None_iff [of "n # ds"] validate_None_iff [of ds]
    by (simp_all del: validate.simps requires_deadline_iff)
  note u = upsert_desired_valid [OF v(2), where now = now and d = d]
  obtain d' where d': "upsert_desired now n d = (Inr (), d')" using u(1) by (cases "upsert_desired now n d") auto
  with u Cons.IH [OF v(1), of d'] show ?case
    by (simp add: desired_after_Cons fun_upd_def)
qed

lemma replace_desired_valid:
  assumes "validate ds = None"
  shows "fst (replace_desired b ds now d) = Inr ()"
    and "fleet_wf d \<Longrightarrow> desired_view (snd (replace_desired b ds now d))
           = replace_spec b ds now (db_now d) (desired_view d)"
    and "fleet_wf d \<Longrightarrow> fleet_wf (snd (replace_desired b ds now d))"
    and "fleet_nodes (snd (replace_desired b ds now d)) = fleet_nodes d"
    and "fleet_generation d < fleet_generation (snd (replace_desired b ds now d))"
proof -
  define P :: "desired_tuple \<Rightarrow> bool" where
    "P r \<longleftrightarrow> dt_broadcast_id r = Some b \<and> dt_mm_node_id r \<notin> dn_mm_node_id ` set ds" for r
  define d1 where "d1 = delete_desired P d"
  note u = upsert_all_desired_valid [OF assms, of now d1]
  have e: "replace_desired b ds now d = (Inr (), snd (upsert_all_desired now ds d1))"
    using u by (auto simp: replace_desired_def P_def [abs_def] d1_def Let_def split: prod.splits sum.splits)
  show "fst (replace_desired b ds now d) = Inr ()" using e by simp
  show "fleet_wf d \<Longrightarrow> fleet_wf (snd (replace_desired b ds now d))"
    using e u delete_desired_wf [of d P] by (simp add: d1_def)
  show "fleet_nodes (snd (replace_desired b ds now d)) = fleet_nodes d"
    and "fleet_generation d < fleet_generation (snd (replace_desired b ds now d))"
    using e u by (simp_all add: d1_def)
  assume "fleet_wf d"
  then have dist: "distinct (map dt_mm_node_id (fleet_desired d))" by (simp add: fleet_wf_def)
  have v: "desired_view d1 k = (case desired_view d k of Some r \<Rightarrow> if P r then None else Some r | None \<Rightarrow> None)" for k
    using lookup_filter_distinct [OF dist, of k P] by (simp add: desired_view_def d1_def)
  have key: "desired_view d k = Some r \<Longrightarrow> dt_mm_node_id r = k" for k r
    using lookup_row_Some_set [of dt_mm_node_id k "fleet_desired d" r] by (simp add: desired_view_def)
  have "desired_after ds now (db_now d) (desired_view d1) k
      = replace_spec b ds now (db_now d) (desired_view d) k" for k
  proof (cases "k \<in> dn_mm_node_id ` set ds")
    case True
    then have e1: "desired_view d1 k = desired_view d k"
      using key by (auto simp: v P_def split: option.splits)
    show ?thesis unfolding replace_spec_def desired_after_def e1 using True by simp
  next
    case False
    then have "find (\<lambda>n. dn_mm_node_id n = k) (rev ds) = None" by (auto simp: find_None_iff)
    then show ?thesis using False key
      by (auto simp: replace_spec_def desired_after_def v P_def split: option.splits)
  qed
  then show "desired_view (snd (replace_desired b ds now d)) = replace_spec b ds now (db_now d) (desired_view d)"
    using e u by (auto simp: d1_def)
qed

lemma upsert_Inr:
  assumes "fst (upsert_for_broadcast \<phi> b ds now w) = Inr ()" and "fleet_wf (world_db w)"
  shows "desired_view (world_db (snd (upsert_for_broadcast \<phi> b ds now w)))
    = replace_spec b ds now (db_now (world_db w)) (desired_view (world_db w))"
proof -
  have v: "validate ds = None"
    using assms(1) by (auto simp: upsert_for_broadcast_def split: option.splits)
  obtain r w' where s: "sql \<phi> (replace_desired b ds now) w = (r, w')"
    by (cases "sql \<phi> (replace_desired b ds now) w")
  with assms(1) v have r: "r = Inr ()"
    by (cases r) (simp_all add: upsert_for_broadcast_def)
  with s sql_Inr [of \<phi> "replace_desired b ds now" w "()"]
  have "world_db w' = snd (replace_desired b ds now (world_db w))" by simp
  with s r v replace_desired_valid(2) [OF v assms(2)] show ?thesis
    by (simp add: upsert_for_broadcast_def)
qed

lemma plan_rows_valid: "validate (plan obs p) = None"
proof -
  have "\<forall>d \<in> set (kept obs p @ added obs p @ [desired_transcode (fo_broadcast_id obs) p]).
      requires_destroy_deadline (dn_ownership d) = (destroy_after_secs d \<noteq> None)"
    using added_mem [of _ obs p] by (auto simp: kept_def desired_keep_def desired_transcode_def split: if_splits)
  then show ?thesis unfolding validate_None_iff list_all_iff
    by (cases "gates_open obs") (auto simp: plan_open plan_closed)
qed

section \<open>Properties\<close>

text \<open>C24: Replacing a broadcast's desired set refines the abstract replacement, atomically. A
  batch with a rented node without a deadline, or any other node with one, is refused before
  the database is touched. Otherwise, whatever fails, the desired set is either as it was or
  completely replaced; a reported success means replaced, a database at rest never refuses a
  valid batch, and the node table and the provider are not touched.\<close>

theorem upsert_for_broadcast_refines:
  assumes "fleet_wf (world_db w)"
  shows "case upsert_for_broadcast \<phi> b ds now w of (r, w') \<Rightarrow>
      (\<forall>e. validate ds = Some e \<longrightarrow> r = Inl e \<and> w' = w)
    \<and> (validate ds = None \<longrightarrow>
         (r = Inr () \<longrightarrow> desired_view (world_db w')
            = replace_spec b ds now (db_now (world_db w)) (desired_view (world_db w)))
       \<and> (world_db w' = world_db w \<or> desired_view (world_db w')
            = replace_spec b ds now (db_now (world_db w)) (desired_view (world_db w)))
       \<and> (\<phi> (snd w) = Works \<longrightarrow> r = Inr ()))
    \<and> fleet_nodes (world_db w') = fleet_nodes (world_db w) \<and> world_env w' = world_env w"
proof (cases "validate ds")
  case None
  note v = replace_desired_valid [OF None, where b = b and now = now and d = "world_db w"]
  let ?s = "sql \<phi> (replace_desired b ds now) w"
  have "\<phi> (snd w) = Works \<Longrightarrow> fst ?s = Inr ()"
    using v(1) by (simp add: sql_def db_call_def)
  then show ?thesis
    using None v(2) [OF assms] v(4) sql_db [of \<phi> "replace_desired b ds now" w]
      sql_Inr [of \<phi> "replace_desired b ds now" w] sql_env [of \<phi> "replace_desired b ds now" w]
    by (cases ?s; cases "fst ?s") (auto simp: upsert_for_broadcast_def)
qed (simp add: upsert_for_broadcast_def)

theorem upsert_for_broadcast_refines_witness:
  "upsert_for_broadcast no_faults ''b'' [desired_fanout ''b'' 0 (conservative ''r'' ''s'')] 0
     ((empty_db, ()), 0)
   = (Inr (), snd (upsert_for_broadcast no_faults ''b'' [desired_fanout ''b'' 0 (conservative ''r'' ''s'')] 0
     ((empty_db, ()), 0)))
   \<and> fleet_nodes (world_db (snd (upsert_for_broadcast no_faults ''b''
        [desired_fanout ''b'' 0 (conservative ''r'' ''s'')] 0 ((empty_db, ()), 0)))) = []"
  using upsert_for_broadcast_refines
    [where w = "((empty_db, ()), 0)" and \<phi> = no_faults and b = "''b''" and now = 0
      and ds = "[desired_fanout ''b'' 0 (conservative ''r'' ''s'')]"]
  by (auto simp: fleet_wf_def empty_db_def no_faults_def desired_fanout_def split: prod.splits)

lemma set_node_state_world: "snd (set_node_state \<phi> n st w) = snd (sql \<phi> (update_node_state n st) w)"
  by (simp add: set_node_state_def split: prod.splits sum.splits)

lemma set_node_state_simps:
  "world_env (snd (set_node_state \<phi> n st w)) = world_env w"
  "fleet_desired (world_db (snd (set_node_state \<phi> n st w))) = fleet_desired (world_db w)"
  "fleet_generation (world_db (snd (set_node_state \<phi> n st w))) = fleet_generation (world_db w)"
  "fst (set_node_state \<phi> n st w) = Inr () \<Longrightarrow>
     fleet_nodes (world_db (snd (set_node_state \<phi> n st w))) =
     map (\<lambda>r. if nt_mm_node_id r = n then r\<lparr>nt_state := state_as_str st\<rparr> else r) (fleet_nodes (world_db w))"
proof -
  note db = sql_db [of \<phi> "update_node_state n st" w]
  show "world_env (snd (set_node_state \<phi> n st w)) = world_env w"
    by (simp add: set_node_state_world)
  show "fleet_desired (world_db (snd (set_node_state \<phi> n st w))) = fleet_desired (world_db w)"
    and "fleet_generation (world_db (snd (set_node_state \<phi> n st w))) = fleet_generation (world_db w)"
    unfolding set_node_state_world using db by (auto simp: update_node_state_def)
  assume "fst (set_node_state \<phi> n st w) = Inr ()"
  then have "fst (sql \<phi> (update_node_state n st) w) = Inr ()"
    by (auto simp: set_node_state_def split: prod.splits sum.splits)
  then show "fleet_nodes (world_db (snd (set_node_state \<phi> n st w))) =
     map (\<lambda>r. if nt_mm_node_id r = n then r\<lparr>nt_state := state_as_str st\<rparr> else r) (fleet_nodes (world_db w))"
    unfolding set_node_state_world using sql_Inr [of \<phi> "update_node_state n st" w "()"]
    by (simp add: update_node_state_def)
qed

lemma set_node_state_error: "fst (set_node_state \<phi> n st w) = Inl e \<Longrightarrow> \<exists>s. e = StoreDb s"
  by (auto simp: set_node_state_def split: prod.splits sum.splits)

lemma delete_row_sql:
  assumes "sql \<phi> (delete_desired_row n) w = (r, w1)"
  shows "world_env w1 = world_env w" and "fleet_nodes (world_db w1) = fleet_nodes (world_db w)"
    and "k \<noteq> n \<Longrightarrow> desired_view (world_db w1) k = desired_view (world_db w) k"
    and "r = Inr () \<Longrightarrow> desired_view (world_db w1) n = None"
    and "world_db w1 = world_db w \<or> world_db w1 = delete_desired (\<lambda>r. dt_mm_node_id r = n) (world_db w)"
proof -
  have db: "world_db w1 = world_db w \<or> world_db w1 = delete_desired (\<lambda>r. dt_mm_node_id r = n) (world_db w)"
    using sql_db [of \<phi> "delete_desired_row n" w] assms by (simp add: delete_desired_row_def)
  then show "world_db w1 = world_db w \<or> world_db w1 = delete_desired (\<lambda>r. dt_mm_node_id r = n) (world_db w)" .
  show "world_env w1 = world_env w" using sql_env [of \<phi> "delete_desired_row n" w] assms by simp
  show "fleet_nodes (world_db w1) = fleet_nodes (world_db w)" using db by auto
  have o: "k \<noteq> n \<Longrightarrow> lookup_row dt_mm_node_id k (filter (\<lambda>r. dt_mm_node_id r \<noteq> n) t) = lookup_row dt_mm_node_id k t" for t
    by (induction t) (auto simp: lookup_row_def)
  show "k \<noteq> n \<Longrightarrow> desired_view (world_db w1) k = desired_view (world_db w) k"
    using db o by (auto simp: desired_view_def)
  assume "r = Inr ()"
  then have "world_db w1 = delete_desired (\<lambda>r. dt_mm_node_id r = n) (world_db w)"
    using sql_Inr [of \<phi> "delete_desired_row n" w "()"] assms by (simp add: delete_desired_row_def)
  then show "desired_view (world_db w1) n = None"
    by (auto simp: desired_view_def lookup_row_None)
qed

lemma teardown_env:
  "world_env (snd (teardown \<phi> prov t w)) = world_env w
   \<or> (\<exists>i. tt_ownership t = Rented \<and> tt_provider_id t = Some i
        \<and> world_env (snd (teardown \<phi> prov t w)) = snd (destroy prov i (world_env w)))"
proof -
  obtain r1 w1 where d: "sql \<phi> (delete_desired_row (tt_mm_node_id t)) w = (r1, w1)"
    by (cases "sql \<phi> (delete_desired_row (tt_mm_node_id t)) w")
  note env = delete_row_sql(1) [OF d]
  show ?thesis
  proof (cases "tt_provider_id t")
    case None
    then show ?thesis using d env by (cases r1) (simp_all add: teardown_def set_node_state_simps)
  next
    case (Some i)
    then show ?thesis using d env
      by (cases r1; cases "fst (destroy prov i (world_env w1))")
        (simp_all add: teardown_def drives_def set_node_state_simps)
  qed
qed

lemma teardown_Inr:
  assumes "fst (teardown \<phi> prov t w) = Inr ()" and "tt_provider_id t = Some i"
  shows "fst (destroy prov i (world_env w)) = Inr ()"
    and "world_env (snd (teardown \<phi> prov t w)) = snd (destroy prov i (world_env w))"
proof -
  obtain r1 w1 where d: "sql \<phi> (delete_desired_row (tt_mm_node_id t)) w = (r1, w1)"
    by (cases "sql \<phi> (delete_desired_row (tt_mm_node_id t)) w")
  have "fst (destroy prov i (world_env w)) = Inr ()
      \<and> world_env (snd (teardown \<phi> prov t w)) = snd (destroy prov i (world_env w))"
    using assms d delete_row_sql(1) [OF d]
    by (cases r1; cases "fst (destroy prov i (world_env w1))")
      (auto simp: teardown_def drives_def set_node_state_simps split: if_splits prod.splits sum.splits)
  then show "fst (destroy prov i (world_env w)) = Inr ()"
    and "world_env (snd (teardown \<phi> prov t w)) = snd (destroy prov i (world_env w))" by simp_all
qed

lemma desired_view_cong: "fleet_desired d = fleet_desired d' \<Longrightarrow> desired_view d = desired_view d'"
  by (simp add: desired_view_def fun_eq_iff)

text \<open>C23: Teardown, for every provider and whatever database call fails. It refuses anything that
  is not rented without touching anything. If the provider was asked to do anything at all, the
  node's desired row is already gone, so no later apply can create the machine again. Success
  means the row is gone, the provider confirmed the destruction of the recorded instance, and
  the node is recorded as gone; a provider failure leaves the row deleted and the node recorded
  as destroying. No other node's desired row is affected.\<close>

theorem teardown_order:
  assumes "teardown \<phi> prov t w = (r, w')"
  shows "(\<not> ownership_is_reapable (tt_ownership t) \<longrightarrow>
            r = Inl (NotReapable (tt_mm_node_id t) (tt_ownership t)) \<and> w' = w)
    \<and> (world_env w' \<noteq> world_env w \<longrightarrow>
        ownership_is_reapable (tt_ownership t) \<and> desired_view (world_db w') (tt_mm_node_id t) = None
        \<and> (\<exists>i. tt_provider_id t = Some i \<and> world_env w' = snd (destroy prov i (world_env w))))
    \<and> (r = Inr () \<longrightarrow>
        desired_view (world_db w') (tt_mm_node_id t) = None
        \<and> (\<forall>i. tt_provider_id t = Some i \<longrightarrow> fst (destroy prov i (world_env w)) = Inr ())
        \<and> fleet_nodes (world_db w') = map (\<lambda>n. if nt_mm_node_id n = tt_mm_node_id t
             then n\<lparr>nt_state := ''gone''\<rparr> else n) (fleet_nodes (world_db w)))
    \<and> (\<forall>n e. r = Inl (ProviderFailure n e) \<longrightarrow>
        desired_view (world_db w') (tt_mm_node_id t) = None
        \<and> fleet_nodes (world_db w') = map (\<lambda>n. if nt_mm_node_id n = tt_mm_node_id t
             then n\<lparr>nt_state := ''destroying''\<rparr> else n) (fleet_nodes (world_db w)))
    \<and> (\<forall>k. k \<noteq> tt_mm_node_id t \<longrightarrow> desired_view (world_db w') k = desired_view (world_db w) k)"
proof (cases "ownership_is_reapable (tt_ownership t)")
  case False
  then show ?thesis using assms by (auto simp: teardown_def)
next
  case True
  let ?n = "tt_mm_node_id t"
  obtain r1 w1 where d: "sql \<phi> (delete_desired_row ?n) w = (r1, w1)" by (cases "sql \<phi> (delete_desired_row ?n) w")
  note del = delete_row_sql [OF d]
  note st = set_node_state_simps set_node_state_error
  show ?thesis
  proof (cases r1)
    case (Inl e)
    then show ?thesis using assms True d del by (auto simp: teardown_def)
  next
    case r1: (Inr u)
    then have gone: "desired_view (world_db w1) ?n = None" using del(4) by simp
    note base = assms True d r1 gone del(1,2,3)
    have view: "desired_view (world_db (snd (set_node_state \<phi> n s v))) = desired_view (world_db v)" for n s v
      by (rule desired_view_cong) (rule st)
    show ?thesis
    proof (cases "tt_provider_id t")
      case None
      with base have rw: "set_node_state \<phi> ?n Gone w1 = (r, w')" by (simp add: teardown_def)
      from base None view [of ?n Gone w1] st [of \<phi> ?n Gone w1] show ?thesis unfolding rw by auto
    next
      case i: (Some i)
      define w2 where "w2 = snd (drives (destroy prov i) w1)"
      have w2: "world_db w2 = world_db w1" "world_env w2 = snd (destroy prov i (world_env w))"
        using del(1) by (simp_all add: w2_def)
      show ?thesis
      proof (cases "fst (destroy prov i (world_env w))")
        case ok: (Inr u)
        with base i have rw: "set_node_state \<phi> ?n Gone w2 = (r, w')"
          by (simp add: teardown_def w2_def drives_def)
        from base i ok w2 view [of ?n Gone w2] st [of \<phi> ?n Gone w2] show ?thesis unfolding rw by auto
      next
        case bad: (Inl src)
        obtain r3 w3 where rw: "set_node_state \<phi> ?n Destroying w2 = (r3, w3)"
          by (cases "set_node_state \<phi> ?n Destroying w2")
        with base i bad have r: "w' = w3" "r = (case r3 of Inl e \<Rightarrow> Inl e | Inr _ \<Rightarrow> Inl (ProviderFailure ?n src))"
          by (auto simp: teardown_def w2_def drives_def split: sum.splits)
        from base i bad w2 view [of ?n Destroying w2] st [of \<phi> ?n Destroying w2] show ?thesis
          unfolding r rw by (auto split: sum.splits)
      qed
    qed
  qed
qed

theorem teardown_order_witness:
  "let w = ((empty_db, fail_next_destroy (Transient ''503'') (seed [''i-1''] dry_run_new)), 0);
       t = \<lparr>tt_mm_node_id = ''n'', tt_ownership = Rented, tt_flavor = Fanout, tt_provider_id = Some ''i-1''\<rparr>
   in fst (teardown no_faults (dry_run 0) t w) = Inl (ProviderFailure ''n'' (Transient ''503''))
      \<and> desired_view (world_db (snd (teardown no_faults (dry_run 0) t w))) ''n'' = None"
proof -
  define w where "w = ((empty_db, fail_next_destroy (Transient ''503'') (seed [''i-1''] dry_run_new)), 0::nat)"
  define t where "t = \<lparr>tt_mm_node_id = ''n'', tt_ownership = Rented, tt_flavor = Fanout, tt_provider_id = Some ''i-1''\<rparr>"
  have r: "fst (teardown no_faults (dry_run 0) t w) = Inl (ProviderFailure ''n'' (Transient ''503''))"
    by (simp add: teardown_def w_def t_def delete_desired_row_def drives_def dry_run_def dry_run_destroy_def
        fail_next_destroy_def seed_def seed_created_at_def dry_run_new_def set_node_state_def update_node_state_def)
  have "desired_view (world_db (snd (teardown no_faults (dry_run 0) t w))) (tt_mm_node_id t) = None"
    using teardown_order [of no_faults "dry_run 0" t w, OF prod.collapse [symmetric]] r by blast
  moreover have "tt_mm_node_id t = ''n''" by (simp add: t_def)
  ultimately show ?thesis using r unfolding Let_def w_def [symmetric] t_def [symmetric] by simp
qed

section \<open>Runs of the store\<close>

lemma set_node_state_inv:
  "(\<And>d. I d \<Longrightarrow> I (snd (update_node_state n st d))) \<Longrightarrow> I (world_db w) \<Longrightarrow>
   I (world_db (snd (set_node_state \<phi> n st w)))"
  unfolding set_node_state_world by (rule sql_inv)

lemma teardown_inv:
  fixes w :: "'p dbenv"
  assumes del: "\<And>d. I d \<Longrightarrow> I (delete_desired (\<lambda>r. dt_mm_node_id r = tt_mm_node_id t) d)"
    and upd: "\<And>st d. I d \<Longrightarrow> I (snd (update_node_state (tt_mm_node_id t) st d))"
    and I: "I (world_db w)"
  shows "I (world_db (snd (teardown \<phi> prov t w)))"
proof -
  let ?n = "tt_mm_node_id t"
  have 1: "I (world_db (snd (sql \<phi> (delete_desired_row ?n) w)))"
    by (rule sql_inv [where I = I]) (simp_all add: delete_desired_row_def del I)
  have st: "I (world_db v) \<Longrightarrow> I (world_db (snd (set_node_state \<phi> ?n s v)))" for s and v :: "'p dbenv"
    by (rule set_node_state_inv) (simp_all add: upd)
  obtain r1 w1 where d: "sql \<phi> (delete_desired_row ?n) w = (r1, w1)" by (cases "sql \<phi> (delete_desired_row ?n) w")
  with 1 have I1: "I (world_db w1)" by simp
  show ?thesis
  proof (cases "tt_provider_id t")
    case None
    then show ?thesis using I d I1 st by (cases r1) (simp_all add: teardown_def)
  next
    case (Some i)
    then show ?thesis using I d I1 st [of "((world_db w1, snd (destroy prov i (world_env w1))), snd w1)"]
      by (cases r1; cases "fst (destroy prov i (world_env w1))") (simp_all add: teardown_def drives_def)
  qed
qed

lemma upsert_for_broadcast_inv:
  assumes "\<And>d. validate ds = None \<Longrightarrow> I d \<Longrightarrow> I (snd (replace_desired b ds now d))" and "I (world_db w)"
  shows "I (world_db (snd (upsert_for_broadcast \<phi> b ds now w)))"
proof (cases "validate ds")
  case None
  then have "I (world_db (snd (sql \<phi> (replace_desired b ds now) w)))"
    using assms by (intro sql_inv [where I = I]) simp_all
  with None show ?thesis by (auto simp: upsert_for_broadcast_def split: prod.splits sum.splits)
qed (simp add: upsert_for_broadcast_def assms)

datatype store_op = Replace string "desired_node list" instant | TearDown teardown_target

definition run_store_op :: "schedule \<Rightarrow> 'p provider \<Rightarrow> store_op \<Rightarrow> 'p dbenv \<Rightarrow> 'p dbenv" where
  "run_store_op \<phi> prov op w =
     (case op of Replace b ds now \<Rightarrow> snd (upsert_for_broadcast \<phi> b ds now w)
      | TearDown t \<Rightarrow> snd (teardown \<phi> prov t w))"

lemma update_node_state_wf: "fleet_wf d \<Longrightarrow> fleet_wf (snd (update_node_state n st d))"
proof -
  have "map nt_mm_node_id (map (\<lambda>r. if nt_mm_node_id r = n then r\<lparr>nt_state := s\<rparr> else r) ns) = map nt_mm_node_id ns"
    for ns :: "node_tuple list" and s
    by (induction ns) auto
  moreover have "node_checks r = None \<Longrightarrow> node_checks (r\<lparr>nt_state := state_as_str st\<rparr>) = None" for r
    by (auto simp: node_checks_def split: if_splits)
  ultimately show "fleet_wf d \<Longrightarrow> fleet_wf (snd (update_node_state n st d))"
    by (auto simp: fleet_wf_def update_node_state_def list_all_iff simp del: map_map)
qed

definition desired_moved :: "db \<Rightarrow> db \<Rightarrow> bool" where
  "desired_moved d d' \<longleftrightarrow> fleet_generation d \<le> fleet_generation d'
     \<and> (fleet_desired d' \<noteq> fleet_desired d \<longrightarrow> fleet_generation d < fleet_generation d')"

lemma teardown_keeps:
  "fleet_wf (world_db w) \<Longrightarrow> fleet_wf (world_db (snd (teardown \<phi> prov t w)))"
  by (rule teardown_inv) (simp_all add: delete_desired_wf update_node_state_wf)

lemma teardown_moves: "desired_moved d0 (world_db w) \<Longrightarrow> desired_moved d0 (world_db (snd (teardown \<phi> prov t w)))"
  by (rule teardown_inv [where I = "desired_moved d0"])
    (auto simp: desired_moved_def update_node_state_def)

lemma upsert_keeps:
  "fleet_wf (world_db w) \<Longrightarrow> fleet_wf (world_db (snd (upsert_for_broadcast \<phi> b ds now w)))"
  by (rule upsert_for_broadcast_inv) (auto intro: replace_desired_valid(3))

lemma upsert_moves:
  "desired_moved d0 (world_db w) \<Longrightarrow> desired_moved d0 (world_db (snd (upsert_for_broadcast \<phi> b ds now w)))"
proof (rule upsert_for_broadcast_inv [where I = "desired_moved d0"])
  fix d assume "validate ds = None" and "desired_moved d0 d"
  then show "desired_moved d0 (snd (replace_desired b ds now d))"
    using replace_desired_valid(5) [of ds d b now] by (auto simp: desired_moved_def)
qed

interpretation store_run: invariant_system "run_store_op \<phi> prov"
    "\<lambda>w. fleet_wf (world_db w) \<and> desired_moved d0 (world_db w)" for \<phi> prov d0
  by unfold_locales
    (auto simp: run_store_op_def teardown_keeps teardown_moves upsert_keeps upsert_moves split: store_op.split)

text \<open>C9: Whatever sequence of replacements and teardowns runs, under any faults, the schema's
  constraints hold: ids are unique, every stored label is one the code can parse (so reading
  the tables back loses no row), and a row has a deadline exactly when it is rented. The
  generation counter never decreases, and increases whenever the desired set changed.\<close>

theorem store_invariant:
  assumes "fleet_wf (world_db w)"
  shows "let d = world_db (fold (run_store_op \<phi> prov) ops w) in
      fleet_wf d
    \<and> map Some (load_all_rows d) = map parse_desired (sort_key dt_mm_node_id (fleet_desired d))
    \<and> map Some (load_nodes_rows d) = map parse_node (sort_key nt_mm_node_id (fleet_nodes d))
    \<and> desired_moved (world_db w) d"
proof -
  have "fleet_wf (world_db w) \<and> desired_moved (world_db w) (world_db w)"
    using assms by (simp add: desired_moved_def)
  from store_run.run_keeps [OF this, of \<phi> prov ops] show ?thesis
    by (simp add: Let_def load_all_lossless load_nodes_lossless)
qed

theorem store_invariant_witness:
  "fleet_wf (world_db (fold (run_store_op (\<lambda>n. if n = 1 then FailsAfter ''lost'' else Works) (dry_run 0))
     [Replace ''b'' [desired_fanout ''b'' 0 (conservative ''r'' ''s'')] 0,
      TearDown \<lparr>tt_mm_node_id = ''n'', tt_ownership = Rented, tt_flavor = Fanout, tt_provider_id = None\<rparr>]
     ((empty_db, dry_run_new), 0)))"
  using store_invariant [of "((empty_db, dry_run_new), 0)" "\<lambda>n. if n = 1 then FailsAfter ''lost'' else Works"
      "dry_run 0" "[Replace ''b'' [desired_fanout ''b'' 0 (conservative ''r'' ''s'')] 0,
      TearDown \<lparr>tt_mm_node_id = ''n'', tt_ownership = Rented, tt_flavor = Fanout, tt_provider_id = None\<rparr>]"]
  unfolding Let_def by (simp only: fst_conv empty_wf simp_thms)

end
