(* ===== verification/Sweeper.thy ===== *)
theory Sweeper
  imports Fleet_Store "HOL-Library.Multiset"
begin

text \<open>
  The two cost backstops (\<^verbatim>\<open>crates/mm-fleet/src/sweeper.rs\<close>): the deadline sweeper, which tears
  down rented nodes past their deadline, and the orphan sweeper, which destroys instances the
  provider runs and no node row names. Log lines and counters are left out; the kill counters
  move exactly with the \<^verbatim>\<open>reaped\<close> list.

  Shown, for every fault schedule: what either sweep can destroy, that every due node is
  accounted for exactly once, that a deferral ends within the hour, and that a failed listing
  destroys nothing.
\<close>

section \<open>Deadlines\<close>

definition due_for_reaping :: "instant \<Rightarrow> observed_node list \<Rightarrow> observed_node list" where
  "due_for_reaping now nodes =
     filter (\<lambda>n. ownership_is_reapable (on_ownership n) \<and> on_state n \<noteq> Gone
       \<and> (case on_destroy_deadline n of Some dl \<Rightarrow> dl \<le> now | None \<Rightarrow> False)) nodes"

record sweep_report =
  sr_reaped :: "string list"
  sr_failed :: "string list"
  sr_deferred :: "string list"
  sr_spared :: "string list"

definition empty_report :: sweep_report where
  "empty_report = \<lparr>sr_reaped = [], sr_failed = [], sr_deferred = [], sr_spared = []\<rparr>"

definition teardown_due_at :: "billing_increment \<Rightarrow> instant \<Rightarrow> observed_node \<Rightarrow> instant option" where
  "teardown_due_at inc now node =
     aligned_teardown_at inc (on_billing_started_at node)
       (case on_destroy_deadline node of Some dl \<Rightarrow> dl | None \<Rightarrow> now) now"

fun sweep_due ::
  "schedule \<Rightarrow> 'p provider \<Rightarrow> billing_increment \<Rightarrow> instant \<Rightarrow> observed_node list \<Rightarrow> sweep_report \<Rightarrow>
   'p dbenv \<Rightarrow> sweep_report \<times> 'p dbenv" where
  "sweep_due \<phi> prov inc now [] report w = (report, w)"
| "sweep_due \<phi> prov inc now (node # nodes) report w =
     (case teardown_due_at inc now node of
        Some boundary \<Rightarrow>
          sweep_due \<phi> prov inc now nodes
            (report\<lparr>sr_deferred := sr_deferred report @ [on_mm_node_id node]\<rparr>) w
      | None \<Rightarrow>
          (case teardown \<phi> prov (teardown_target_of node) w of
             (Inr _, w') \<Rightarrow>
               sweep_due \<phi> prov inc now nodes
                 (report\<lparr>sr_reaped := sr_reaped report @ [on_mm_node_id node]\<rparr>) w'
           | (Inl e, w') \<Rightarrow>
               sweep_due \<phi> prov inc now nodes
                 (report\<lparr>sr_failed := sr_failed report @ [on_mm_node_id node]\<rparr>) w'))"

definition sweep_deadlines ::
  "schedule \<Rightarrow> 'p provider \<Rightarrow> billing_increment \<Rightarrow> instant \<Rightarrow> 'p dbenv \<Rightarrow>
   (store_error + sweep_report) \<times> 'p dbenv" where
  "sweep_deadlines \<phi> prov inc now w =
     (case load_nodes \<phi> w of
        (Inl e, w') \<Rightarrow> (Inl e, w')
      | (Inr nodes, w') \<Rightarrow>
          (case sweep_due \<phi> prov inc now (due_for_reaping now nodes) empty_report w' of
             (report, w'') \<Rightarrow> (Inr report, w'')))"

section \<open>Orphans\<close>

definition old_enough :: "instant option \<Rightarrow> instant \<Rightarrow> instant \<Rightarrow> bool" where
  "old_enough created_at now min_age =
     (case created_at of Some t \<Rightarrow> now - t \<ge> min_age \<and> t \<le> now | None \<Rightarrow> False)"

definition orphans :: "string list \<Rightarrow> string set \<Rightarrow> string list" where
  "orphans at_provider known = filter (\<lambda>i. i \<notin> known) at_provider"

fun classify_listed ::
  "string set \<Rightarrow> instant \<Rightarrow> instant \<Rightarrow> instance_handle list \<Rightarrow> string list \<times> string list" where
  "classify_listed known now min_age [] = ([], [])"
| "classify_listed known now min_age (h # hs) =
     (let (at_provider, spared) = classify_listed known now min_age hs in
      if old_enough (ih_created_at h) now min_age then (ih_provider_id h # at_provider, spared)
      else if ih_provider_id h \<notin> known then (at_provider, ih_provider_id h # spared)
      else (at_provider, spared))"

fun destroy_all ::
  "'p provider \<Rightarrow> string list \<Rightarrow> sweep_report \<Rightarrow> 'p dbenv \<Rightarrow> sweep_report \<times> 'p dbenv" where
  "destroy_all prov [] report w = (report, w)"
| "destroy_all prov (i # is) report w =
     (case drives (destroy prov i) w of
        (Inr _, w') \<Rightarrow> destroy_all prov is (report\<lparr>sr_reaped := sr_reaped report @ [i]\<rparr>) w'
      | (Inl e, w') \<Rightarrow> destroy_all prov is (report\<lparr>sr_failed := sr_failed report @ [i]\<rparr>) w')"

definition known_ids :: "observed_node list \<Rightarrow> string set" where
  "known_ids nodes = set (List.map_filter on_provider_id nodes)"

fun store_error_text :: "store_error \<Rightarrow> string" where
  "store_error_text (StoreDb e) = ''database error: '' @ sql_text e"
| "store_error_text (RentedWithoutDeadline n) = ''node '' @ n @
     '' is rented but carries no TTL; a rented node with no deadline bills forever''"
| "store_error_text (NonRentedWithDeadline n o') = ''node '' @ n @ '' is '' @ ownership_as_str o' @
     '' and must not carry a TTL; a deadline on non-rented capacity invites the sweeper to destroy it''"
| "store_error_text (NotReapable n o') = ''refusing to tear down '' @ n @ '': ownership '' @
     ownership_as_str o' @ '' is not reapable''"
| "store_error_text (ProviderFailure n e) = ''provider failure during teardown of '' @ n @ '': '' @
     (case e of Transient m \<Rightarrow> ''transient provider failure: '' @ m
      | Permanent m \<Rightarrow> ''permanent provider failure: '' @ m
      | Capacity m \<Rightarrow> ''provider has no capacity: '' @ m
      | Quota m \<Rightarrow> ''provider quota exhausted: '' @ m)"

definition sweep_orphans ::
  "schedule \<Rightarrow> 'p provider \<Rightarrow> instant \<Rightarrow> instant \<Rightarrow> 'p dbenv \<Rightarrow>
   (provider_error + sweep_report) \<times> 'p dbenv" where
  "sweep_orphans \<phi> prov now min_age w =
     (case load_nodes \<phi> w of
        (Inl e, w1) \<Rightarrow> (Inl (Transient (''cannot read our own nodes: '' @ store_error_text e)), w1)
      | (Inr nodes, w1) \<Rightarrow>
          (let known = known_ids nodes in
           case drives (list_instances prov) w1 of
             (Inl e, w2) \<Rightarrow> (Inl e, w2)
           | (Inr listed, w2) \<Rightarrow>
               (let (at_provider, spared) = classify_listed known now min_age listed in
                case destroy_all prov (orphans at_provider known)
                       (empty_report\<lparr>sr_spared := spared\<rparr>) w2 of
                  (report, w3) \<Rightarrow> (Inr report, w3))))"

section \<open>Lemmas\<close>

lemma due_iff: "n \<in> set (due_for_reaping now nodes) \<longleftrightarrow>
   n \<in> set nodes \<and> on_ownership n = Rented \<and> on_state n \<noteq> Gone
   \<and> (\<exists>dl. on_destroy_deadline n = Some dl \<and> dl \<le> now)"
  by (auto simp: due_for_reaping_def split: option.splits)

lemma load_nodes_cases:
  obtains (err) e v where "load_nodes \<phi> w = (Inl e, v)" "fst v = fst w"
  | (rows) v where "load_nodes \<phi> w = (Inr (load_nodes_rows (world_db w)), v)" "fst v = fst w"
proof -
  obtain r v where s: "sql \<phi> (reads load_nodes_rows) w = (r, v)" by (cases "sql \<phi> (reads load_nodes_rows) w")
  then have "fst v = fst w" using sql_reads_state [of \<phi> load_nodes_rows w] by simp
  then show ?thesis
    using that s sql_reads_Inr [of \<phi> load_nodes_rows w] by (cases r) (auto simp: load_nodes_def)
qed

text \<open>What one sweep adds to its report: \<open>a\<close> reaped and \<open>b\<close> failed, in some order, of the nodes
  not deferred.\<close>

definition accounts :: "billing_increment \<Rightarrow> instant \<Rightarrow> observed_node list \<Rightarrow> sweep_report \<Rightarrow>
    sweep_report \<Rightarrow> string list \<Rightarrow> string list \<Rightarrow> bool" where
  "accounts inc now ns rep rep' a b \<longleftrightarrow>
     sr_reaped rep' = sr_reaped rep @ a \<and> sr_failed rep' = sr_failed rep @ b
     \<and> sr_spared rep' = sr_spared rep
     \<and> sr_deferred rep' = sr_deferred rep
         @ map on_mm_node_id (filter (\<lambda>n. teardown_due_at inc now n \<noteq> None) ns)
     \<and> mset (a @ b) = mset (map on_mm_node_id (filter (\<lambda>n. teardown_due_at inc now n = None) ns))"

lemma sweep_due_accounts:
  "\<exists>a b. accounts inc now ns rep (fst (sweep_due \<phi> prov inc now ns rep w)) a b"
proof (induction ns arbitrary: rep w)
  case Nil
  then show ?case by (simp add: accounts_def)
next
  case (Cons node nodes)
  let ?i = "on_mm_node_id node"
  show ?case
  proof (cases "teardown_due_at inc now node")
    case None
    obtain r w' where t: "teardown \<phi> prov (teardown_target_of node) w = (r, w')"
      by (cases "teardown \<phi> prov (teardown_target_of node) w")
    show ?thesis
    proof (cases r)
      case (Inl e)
      obtain a b where ab: "accounts inc now nodes (rep\<lparr>sr_failed := sr_failed rep @ [?i]\<rparr>)
          (fst (sweep_due \<phi> prov inc now nodes (rep\<lparr>sr_failed := sr_failed rep @ [?i]\<rparr>) w')) a b"
        using Cons.IH by blast
      then have "accounts inc now (node # nodes) rep (fst (sweep_due \<phi> prov inc now (node # nodes) rep w)) a (?i # b)"
        using None t Inl by (simp add: accounts_def)
      then show ?thesis by blast
    next
      case (Inr u)
      obtain a b where ab: "accounts inc now nodes (rep\<lparr>sr_reaped := sr_reaped rep @ [?i]\<rparr>)
          (fst (sweep_due \<phi> prov inc now nodes (rep\<lparr>sr_reaped := sr_reaped rep @ [?i]\<rparr>) w')) a b"
        using Cons.IH by blast
      then have "accounts inc now (node # nodes) rep (fst (sweep_due \<phi> prov inc now (node # nodes) rep w)) (?i # a) b"
        using None t Inr by (simp add: accounts_def)
      then show ?thesis by blast
    qed
  next
    case (Some boundary)
    obtain a b where ab: "accounts inc now nodes (rep\<lparr>sr_deferred := sr_deferred rep @ [?i]\<rparr>)
        (fst (sweep_due \<phi> prov inc now nodes (rep\<lparr>sr_deferred := sr_deferred rep @ [?i]\<rparr>) w)) a b"
      using Cons.IH by blast
    then have "accounts inc now (node # nodes) rep (fst (sweep_due \<phi> prov inc now (node # nodes) rep w)) a b"
      using Some by (simp add: accounts_def)
    then show ?thesis by blast
  qed
qed

text \<open>What a teardown and the sweeps do to the machines of any provider that keeps its contract.\<close>

context provider_contract
begin

lemma teardown_running:
  "running (world_env (snd (teardown \<phi> prov t w))) \<subseteq> running (world_env w)"
  "i \<in> running (world_env w) - running (world_env (snd (teardown \<phi> prov t w))) \<Longrightarrow>
     tt_ownership t = Rented \<and> tt_provider_id t = Some i"
proof -
  show "running (world_env (snd (teardown \<phi> prov t w))) \<subseteq> running (world_env w)"
    using teardown_env [of \<phi> prov t w] destroy_shrinks by (metis order_refl)
  assume "i \<in> running (world_env w) - running (world_env (snd (teardown \<phi> prov t w)))"
  then show "tt_ownership t = Rented \<and> tt_provider_id t = Some i"
    using teardown_env [of \<phi> prov t w] destroy_others [of i _ "world_env w"] by (metis DiffE)
qed

lemma sweep_due_running:
  "running (world_env (snd (sweep_due \<phi> prov inc now ns rep w))) \<subseteq> running (world_env w)
   \<and> (\<forall>i \<in> running (world_env w) - running (world_env (snd (sweep_due \<phi> prov inc now ns rep w))).
        \<exists>n \<in> set ns. teardown_due_at inc now n = None \<and> on_ownership n = Rented \<and> on_provider_id n = Some i)"
proof (induction ns arbitrary: rep w)
  case (Cons node nodes)
  let ?w = "snd (teardown \<phi> prov (teardown_target_of node) w)"
  note t = teardown_running [where \<phi> = \<phi> and t = "teardown_target_of node" and w = w]
  have own: "tt_ownership (teardown_target_of node) = on_ownership node"
    "tt_provider_id (teardown_target_of node) = on_provider_id node"
    by (simp_all add: teardown_target_of_def)
  obtain r w' where tw: "teardown \<phi> prov (teardown_target_of node) w = (r, w')"
    by (cases "teardown \<phi> prov (teardown_target_of node) w")
  have step: "\<exists>rep'. teardown_due_at inc now node = None \<longrightarrow>
      snd (sweep_due \<phi> prov inc now (node # nodes) rep w) = snd (sweep_due \<phi> prov inc now nodes rep' w')"
    using tw by (cases r) auto
  show ?case
  proof (cases "teardown_due_at inc now node")
    case None
    with step obtain rep' where
      e: "snd (sweep_due \<phi> prov inc now (node # nodes) rep w) = snd (sweep_due \<phi> prov inc now nodes rep' w')"
      by blast
    show ?thesis unfolding e using Cons.IH [of rep' w'] t own tw None by fastforce
  next
    case (Some boundary)
    with Cons.IH show ?thesis by fastforce
  qed
qed simp

lemma destroy_all_running:
  "running (world_env (snd (destroy_all prov is rep w))) \<subseteq> running (world_env w)
   \<and> running (world_env w) - running (world_env (snd (destroy_all prov is rep w))) \<subseteq> set is"
proof (induction "is" arbitrary: rep w)
  case (Cons i "is")
  define w1 where "w1 = snd (drives (destroy prov i) w)"
  have e: "\<exists>rep'. snd (destroy_all prov (i # is) rep w) = snd (destroy_all prov is rep' w1)"
    by (cases "fst (destroy prov i (world_env w))") (auto simp: drives_def w1_def)
  then obtain rep' where e: "snd (destroy_all prov (i # is) rep w) = snd (destroy_all prov is rep' w1)"
    by blast
  have w1: "running (world_env w1) \<subseteq> running (world_env w)" "running (world_env w) - {i} \<subseteq> running (world_env w1)"
    using destroy_shrinks destroy_exact by (simp_all add: w1_def)
  show ?case unfolding e using Cons.IH [of rep' w1] w1 by auto
qed simp

end

lemma classify_listed_mem:
  "i \<in> set (fst (classify_listed known now min_age hs)) \<longleftrightarrow>
   (\<exists>h \<in> set hs. ih_provider_id h = i \<and> old_enough (ih_created_at h) now min_age)"
  by (induction hs) (auto simp: Let_def split: prod.splits)

lemma destroy_all_accounts:
  "\<exists>a b. sr_reaped (fst (destroy_all prov is rep w)) = sr_reaped rep @ a
     \<and> sr_failed (fst (destroy_all prov is rep w)) = sr_failed rep @ b
     \<and> sr_spared (fst (destroy_all prov is rep w)) = sr_spared rep \<and> mset (a @ b) = mset is"
proof (induction "is" arbitrary: rep w)
  case (Cons i "is")
  show ?case
  proof (cases "fst (destroy prov i (world_env w))")
    case (Inl e)
    let ?rep = "rep\<lparr>sr_failed := sr_failed rep @ [i]\<rparr>"
    let ?w = "snd (drives (destroy prov i) w)"
    obtain a b where "sr_reaped (fst (destroy_all prov is ?rep ?w)) = sr_reaped ?rep @ a"
      "sr_failed (fst (destroy_all prov is ?rep ?w)) = sr_failed ?rep @ b"
      "sr_spared (fst (destroy_all prov is ?rep ?w)) = sr_spared ?rep" "mset (a @ b) = mset is"
      using Cons.IH [of ?rep ?w] by blast
    with Inl show ?thesis by (intro exI [of _ a] exI [of _ "i # b"]) (simp add: drives_def)
  next
    case (Inr u)
    let ?rep = "rep\<lparr>sr_reaped := sr_reaped rep @ [i]\<rparr>"
    let ?w = "snd (drives (destroy prov i) w)"
    obtain a b where "sr_reaped (fst (destroy_all prov is ?rep ?w)) = sr_reaped ?rep @ a"
      "sr_failed (fst (destroy_all prov is ?rep ?w)) = sr_failed ?rep @ b"
      "sr_spared (fst (destroy_all prov is ?rep ?w)) = sr_spared ?rep" "mset (a @ b) = mset is"
      using Cons.IH [of ?rep ?w] by blast
    with Inr show ?thesis by (intro exI [of _ "i # a"] exI [of _ b]) (simp add: drives_def)
  qed
qed simp

lemma teardown_view_None:
  "desired_view (world_db w) k = None \<Longrightarrow> desired_view (world_db (snd (teardown \<phi> prov t w))) k = None"
  by (rule teardown_inv [where I = "\<lambda>d. desired_view d k = None"])
    (auto simp: desired_view_def lookup_row_None update_node_state_def)

lemma teardown_Inr_view:
  assumes "fst (teardown \<phi> prov t w) = Inr ()"
  shows "desired_view (world_db (snd (teardown \<phi> prov t w))) (tt_mm_node_id t) = None"
proof -
  let ?n = "tt_mm_node_id t"
  obtain r1 w1 where d: "sql \<phi> (delete_desired_row ?n) w = (r1, w1)" by (cases "sql \<phi> (delete_desired_row ?n) w")
  have view: "desired_view (world_db (snd (set_node_state \<phi> n s v))) = desired_view (world_db v)"
    for n s and v :: "'a dbenv"
    by (rule desired_view_cong) (rule set_node_state_simps)
  have ok: "r1 = Inr ()" using assms d by (cases r1) (auto simp: teardown_def split: if_splits)
  with delete_row_sql(4) [OF d] have gone: "desired_view (world_db w1) ?n = None" by simp
  show ?thesis
  proof (cases "tt_provider_id t")
    case None
    then show ?thesis using assms d ok gone view by (simp add: teardown_def split: if_splits)
  next
    case (Some i)
    then show ?thesis using assms d ok gone view
      by (cases "fst (destroy prov i (world_env w1))") (simp_all add: teardown_def drives_def split: if_splits)
  qed
qed

lemma sweep_due_view:
  "(\<forall>k \<in> set (sr_reaped rep). desired_view (world_db w) k = None) \<Longrightarrow>
   k \<in> set (sr_reaped (fst (sweep_due \<phi> prov inc now ns rep w))) \<Longrightarrow>
   desired_view (world_db (snd (sweep_due \<phi> prov inc now ns rep w))) k = None"
proof (induction ns arbitrary: rep w)
  case (Cons node nodes)
  obtain r w' where tw: "teardown \<phi> prov (teardown_target_of node) w = (r, w')"
    by (cases "teardown \<phi> prov (teardown_target_of node) w")
  have keep: "desired_view (world_db w) j = None \<Longrightarrow> desired_view (world_db w') j = None" for j
    using teardown_view_None [of w j \<phi> prov "teardown_target_of node"] tw by simp
  have new: "r = Inr () \<Longrightarrow> desired_view (world_db w') (on_mm_node_id node) = None"
    using teardown_Inr_view [of \<phi> prov "teardown_target_of node" w] tw by (simp add: teardown_target_of_def)
  show ?case
  proof (cases "teardown_due_at inc now node")
    case None
    show ?thesis
      using Cons.prems None tw keep new Cons.IH [of _ w'] by (cases r) auto
  next
    case (Some boundary)
    then show ?thesis using Cons.prems Cons.IH [of _ w] by simp
  qed
qed simp

lemma parse_node_facts:
  assumes "parse_node r = Some n"
  shows "on_ownership n = Rented \<Longrightarrow> nt_ownership r = ''rented''"
    and "on_state n \<noteq> Gone \<Longrightarrow> nt_state r \<noteq> ''gone''"
    and "on_destroy_deadline n = nt_destroy_deadline r"
    and "on_provider_id n = Some i \<Longrightarrow> nt_provider_id r = Some i"
    and "nt_provider_id r = Some i \<Longrightarrow> i \<noteq> [] \<Longrightarrow> on_provider_id n = Some i"
    and "on_mm_node_id n = nt_mm_node_id r"
  using assms ownership_wire.parse_iff [of "nt_ownership r"] state_wire.parse_iff [of "nt_state r"]
  by (auto simp: parse_node_def split: option.splits if_splits)

lemma load_nodes_rows_mem:
  "n \<in> set (load_nodes_rows d) \<Longrightarrow> \<exists>r \<in> set (fleet_nodes d). parse_node r = Some n"
  by (auto simp: load_nodes_rows_def List.map_filter_def)

lemma load_nodes_rows_all:
  "fleet_wf d \<Longrightarrow> r \<in> set (fleet_nodes d) \<Longrightarrow> \<exists>n \<in> set (load_nodes_rows d). parse_node r = Some n"
proof -
  assume "fleet_wf d" and r: "r \<in> set (fleet_nodes d)"
  then have "parse_node r \<noteq> None" by (auto simp: fleet_wf_def list_all_iff dest: parse_node_total)
  then obtain n where "parse_node r = Some n" by auto
  with r show ?thesis
    unfolding load_nodes_rows_def by (intro bexI [of _ n] map_filter_mem [of r]) simp_all
qed

section \<open>Properties\<close>

text \<open>C20: The deadline sweep destroys only what it may. For every provider that keeps its
  contract and whatever fails, no machine starts, and every machine that stops belonged to a
  node row that is rented, not yet gone, and past its deadline. If the node table cannot be
  read, nothing happens at all.\<close>

theorem sweep_deadlines_safe:
  assumes "provider_contract prov running" and "sweep_deadlines \<phi> prov inc now w = (r, w')"
  shows "running (world_env w') \<subseteq> running (world_env w)
    \<and> (\<forall>i \<in> running (world_env w) - running (world_env w').
         \<exists>n \<in> set (fleet_nodes (world_db w)). nt_ownership n = ''rented'' \<and> nt_state n \<noteq> ''gone''
           \<and> nt_provider_id n = Some i \<and> (\<exists>dl \<le> now. nt_destroy_deadline n = Some dl))
    \<and> (\<forall>e. r = Inl e \<longrightarrow> fst w' = fst w)"
proof (cases rule: load_nodes_cases [of \<phi> w])
  case (err e v)
  then show ?thesis using assms(2) by (auto simp: sweep_deadlines_def)
next
  case (rows v)
  let ?ns = "due_for_reaping now (load_nodes_rows (world_db w))"
  have e: "snd (sweep_due \<phi> prov inc now ?ns empty_report v) = w'" "\<exists>rep. r = Inr rep"
    using assms(2) rows(1) by (auto simp: sweep_deadlines_def split: prod.splits)
  note s = provider_contract.sweep_due_running [OF assms(1), of \<phi> inc now ?ns empty_report v, unfolded e rows(2)]
  show ?thesis
  proof (intro conjI ballI)
    show "running (world_env w') \<subseteq> running (world_env w)" using s by simp
    show "\<forall>e. r = Inl e \<longrightarrow> fst w' = fst w" using e(2) by auto
    fix i assume "i \<in> running (world_env w) - running (world_env w')"
    with s obtain n where n: "n \<in> set ?ns" "on_provider_id n = Some i" by blast
    from n(1) have d: "n \<in> set (load_nodes_rows (world_db w))" "on_ownership n = Rented" "on_state n \<noteq> Gone"
      "\<exists>dl. on_destroy_deadline n = Some dl \<and> dl \<le> now" unfolding due_iff by blast+
    obtain t where t: "t \<in> set (fleet_nodes (world_db w))" "parse_node t = Some n"
      using load_nodes_rows_mem [OF d(1)] by blast
    note f = parse_node_facts [OF t(2)]
    show "\<exists>n \<in> set (fleet_nodes (world_db w)). nt_ownership n = ''rented'' \<and> nt_state n \<noteq> ''gone''
        \<and> nt_provider_id n = Some i \<and> (\<exists>dl \<le> now. nt_destroy_deadline n = Some dl)"
      using t(1) f(1) [OF d(2)] f(2) [OF d(3)] f(4) [OF n(2)] d(4) f(3) by metis
  qed
qed

theorem sweep_deadlines_safe_witness:
  "running_ids (world_env (snd (sweep_deadlines no_faults (dry_run 0) PerHour (secs 10)
      ((empty_db, seed [''i-1''] dry_run_new), 0)))) \<subseteq> {''i-1''}"
  using sweep_deadlines_safe [OF dry.provider_contract_axioms [of 0] prod.collapse [symmetric],
      where now = "secs 10" and \<phi> = no_faults and inc = PerHour
        and w = "((empty_db, seed [''i-1''] dry_run_new), 0)"]
  by (simp add: running_ids_def seed_def seed_created_at_def dry_run_new_def)

text \<open>C21: The deadline sweep accounts for every due node exactly once, as reaped, failed or
  deferred, and one node's failure does not stop the others. A reaped node has no desired row
  left. Deferral is only ever to a billing boundary, and from one hour past the deadline on a
  node that started billing no later than its deadline is always attempted.\<close>

theorem sweep_deadlines_complete:
  assumes "fst (sweep_deadlines \<phi> prov inc now w) = Inr rep"
  shows "let due = due_for_reaping now (load_nodes_rows (world_db w)) in
      mset (sr_reaped rep @ sr_failed rep @ sr_deferred rep) = mset (map on_mm_node_id due)
    \<and> (\<forall>k \<in> set (sr_reaped rep). desired_view (world_db (snd (sweep_deadlines \<phi> prov inc now w))) k = None)
    \<and> sr_deferred rep = map on_mm_node_id (filter (\<lambda>n. teardown_due_at inc now n \<noteq> None) due)
    \<and> (\<forall>n \<in> set due. \<forall>s dl. on_billing_started_at n = Some s \<and> on_destroy_deadline n = Some dl
         \<and> s \<le> dl \<and> dl + secs 3600 \<le> now \<longrightarrow> on_mm_node_id n \<in> set (sr_reaped rep @ sr_failed rep))"
proof (cases rule: load_nodes_cases [of \<phi> w])
  case (err e v)
  then show ?thesis using assms by (simp add: sweep_deadlines_def)
next
  case (rows v)
  define due where "due = due_for_reaping now (load_nodes_rows (world_db w))"
  have e: "fst (sweep_due \<phi> prov inc now due empty_report v) = rep"
    "snd (sweep_due \<phi> prov inc now due empty_report v) = snd (sweep_deadlines \<phi> prov inc now w)"
    using assms rows(1) by (auto simp: sweep_deadlines_def due_def split: prod.splits)
  obtain a b where ab: "accounts inc now due empty_report rep a b"
    using sweep_due_accounts [of inc now due empty_report \<phi> prov v] e by auto
  then have acc: "sr_reaped rep = a" "sr_failed rep = b"
    "sr_deferred rep = map on_mm_node_id (filter (\<lambda>n. teardown_due_at inc now n \<noteq> None) due)"
    "mset (a @ b) = mset (map on_mm_node_id (filter (\<lambda>n. teardown_due_at inc now n = None) due))"
    by (simp_all add: accounts_def empty_report_def)
  have all: "mset (sr_reaped rep @ sr_failed rep @ sr_deferred rep) = mset (map on_mm_node_id due)"
    using acc multiset_partition [of "mset due" "\<lambda>n. teardown_due_at inc now n = None"]
    by (simp add: image_mset_union [symmetric] add.assoc [symmetric])
  have gone: "k \<in> set (sr_reaped rep) \<Longrightarrow>
      desired_view (world_db (snd (sweep_deadlines \<phi> prov inc now w))) k = None" for k
    using sweep_due_view [of empty_report v k \<phi> prov inc now due] e by (simp add: empty_report_def)
  have tried: "on_mm_node_id n \<in> set (sr_reaped rep @ sr_failed rep)"
    if n: "n \<in> set due" "on_billing_started_at n = Some s" "on_destroy_deadline n = Some dl" "s \<le> dl"
      "dl + secs 3600 \<le> now" for n s dl
  proof -
    have "teardown_due_at inc now n = None"
    proof (rule ccontr)
      assume "teardown_due_at inc now n \<noteq> None"
      then obtain t where "aligned_teardown_at inc (Some s) dl now = Some t"
        using n(2,3) by (auto simp: teardown_due_at_def)
      from aligned_SomeD [OF this] boundary_window(2) [OF n(4)] n(5) show False by auto
    qed
    then have "n \<in> set (filter (\<lambda>n. teardown_due_at inc now n = None) due)" using n by simp
    then have "on_mm_node_id n \<in># mset (a @ b)" unfolding acc(4) by auto
    then show ?thesis using acc(1,2) by simp
  qed
  show ?thesis unfolding Let_def due_def [symmetric]
  proof (intro conjI ballI allI impI)
    fix n s dl assume "n \<in> set due" and "on_billing_started_at n = Some s
      \<and> on_destroy_deadline n = Some dl \<and> s \<le> dl \<and> dl + secs 3600 \<le> now"
    then show "on_mm_node_id n \<in> set (sr_reaped rep @ sr_failed rep)" using tried [of n s dl] by blast
  qed (fact all, erule gone, fact acc(3))
qed

text \<open>A node past its deadline, and the database that holds it.\<close>

definition overdue_node :: node_tuple where
  "overdue_node = \<lparr>nt_mm_node_id = ''bc-b-fanout-0'', nt_flavor = ''fanout'', nt_ownership = ''rented'',
     nt_provider = ''dry-run'', nt_provider_id = Some ''i-1'', nt_state = ''healthy'',
     nt_viewer_capacity = Some 250, nt_viewers_current = 3, nt_billing_started_at = Some 0,
     nt_renewal_due_at = None, nt_destroy_deadline = Some 0\<rparr>"

definition overdue_world :: "dry_run_state dbenv" where
  "overdue_world = ((empty_db\<lparr>fleet_nodes := [overdue_node]\<rparr>, seed [''i-1''] dry_run_new), 0)"

definition overdue_observed :: observed_node where
  "overdue_observed =
     \<lparr>on_mm_node_id = ''bc-b-fanout-0'', on_flavor = Fanout, on_ownership = Rented, on_state = Healthy,
      on_provider_id = Some ''i-1'', on_destroy_deadline = Some 0, on_billing_started_at = Some 0,
      on_viewer_capacity = 250, on_viewers_current = 3\<rparr>"

lemma overdue_rows: "load_nodes_rows (world_db overdue_world) = [overdue_observed]"
  by (simp add: load_nodes_rows_def overdue_world_def overdue_node_def overdue_observed_def
      List.map_filter_def parse_node_def flavor_parse_def ownership_parse_def state_parse_def i32_clamp_u32_def)

lemma overdue_due:
  "due_for_reaping (secs 4000) [overdue_observed] = [overdue_observed]"
  "teardown_due_at PerHour (secs 4000) overdue_observed = None"
  by (simp_all add: due_for_reaping_def overdue_observed_def secs_def teardown_due_at_def
      aligned_teardown_at_def next_period_boundary_def num_seconds_def)

lemma overdue_torn_down:
  "fst (teardown no_faults (dry_run 0) (teardown_target_of overdue_observed) (fst overdue_world, n)) = Inr ()"
  by (simp add: teardown_def teardown_target_of_def overdue_observed_def delete_desired_row_def drives_def
      dry_run_def dry_run_destroy_def set_node_state_def update_node_state_def overdue_world_def seed_def
      seed_created_at_def dry_run_new_def)

theorem sweep_deadlines_complete_witness:
  "fst (sweep_deadlines no_faults (dry_run 0) PerHour (secs 4000) overdue_world)
     = Inr (empty_report\<lparr>sr_reaped := [''bc-b-fanout-0'']\<rparr>)
   \<and> desired_view (world_db (snd (sweep_deadlines no_faults (dry_run 0) PerHour (secs 4000) overdue_world)))
       ''bc-b-fanout-0'' = None"
proof -
  have l: "load_nodes no_faults overdue_world = (Inr [overdue_observed], (fst overdue_world, Suc (snd overdue_world)))"
    using overdue_rows by (simp add: load_nodes_def reads_def)
  have r: "fst (sweep_deadlines no_faults (dry_run 0) PerHour (secs 4000) overdue_world)
     = Inr (empty_report\<lparr>sr_reaped := [''bc-b-fanout-0'']\<rparr>)"
    using overdue_torn_down [of "Suc (snd overdue_world)"]
    by (auto simp: sweep_deadlines_def l overdue_due empty_report_def split: prod.splits sum.splits)
      (simp_all add: overdue_observed_def)
  then show ?thesis using sweep_deadlines_complete [OF r] by (simp add: Let_def empty_report_def)
qed

text \<open>C22: The orphan sweep. For every provider that keeps its contract and whatever fails: if our
  own node table or the provider's listing cannot be read, no machine stops; otherwise the
  machines it stops were listed, at least as old as the grace period, and named by no row of
  the node table in any state; and every such machine is attempted.\<close>

theorem sweep_orphans_safe:
  assumes "provider_contract prov running" and "fleet_wf (world_db w)"
    and "sweep_orphans \<phi> prov now min_age w = (r, w')"
  shows "(\<forall>e. r = Inl e \<longrightarrow> running (world_env w') = running (world_env w))
    \<and> running (world_env w') \<subseteq> running (world_env w)
    \<and> (\<forall>i \<in> running (world_env w) - running (world_env w'). i \<noteq> [] \<longrightarrow>
         \<not> (\<exists>n \<in> set (fleet_nodes (world_db w)). nt_provider_id n = Some i)
       \<and> (\<exists>hs. fst (list_instances prov (world_env w)) = Inr hs
            \<and> (\<exists>h \<in> set hs. ih_provider_id h = i \<and> old_enough (ih_created_at h) now min_age)))
    \<and> (\<forall>rep hs h. r = Inr rep \<and> fst (list_instances prov (world_env w)) = Inr hs \<and> h \<in> set hs
         \<and> old_enough (ih_created_at h) now min_age
         \<and> \<not> (\<exists>n \<in> set (fleet_nodes (world_db w)). nt_provider_id n = Some (ih_provider_id h))
         \<longrightarrow> ih_provider_id h \<in> set (sr_reaped rep @ sr_failed rep))"
proof (cases rule: load_nodes_cases [of \<phi> w])
  case (err e v)
  then show ?thesis using assms(3) by (auto simp: sweep_orphans_def)
next
  case (rows v)
  let ?known = "known_ids (load_nodes_rows (world_db w))"
  define l where "l = fst (list_instances prov (world_env w))"
  define v2 where "v2 = snd (drives (list_instances prov) v)"
  have lv: "drives (list_instances prov) v = (l, v2)" using rows(2) by (simp add: v2_def l_def drives_def)
  have run2: "running (world_env v2) = running (world_env w)"
    using provider_contract.list_keeps [OF assms(1)] rows(2) by (simp add: v2_def)
  show ?thesis
  proof (cases l)
    case (Inl e)
    then have "r = Inl e" "w' = v2" using assms(3) rows(1) lv by (simp_all add: sweep_orphans_def)
    then show ?thesis using run2 by auto
  next
    case (Inr hs)
    define old where "old = fst (classify_listed ?known now min_age hs)"
    define rep0 where "rep0 = empty_report\<lparr>sr_spared := snd (classify_listed ?known now min_age hs)\<rparr>"
    have rw: "r = Inr (fst (destroy_all prov (orphans old ?known) rep0 v2))"
      "w' = snd (destroy_all prov (orphans old ?known) rep0 v2)"
      using assms(3) rows(1) lv Inr
      by (auto simp: sweep_orphans_def old_def rep0_def Let_def split: prod.splits)
    note run = provider_contract.destroy_all_running [OF assms(1), of "orphans old ?known" rep0 v2,
        folded rw(2), unfolded run2]
    have known: "nt_provider_id n = Some i \<Longrightarrow> i \<noteq> [] \<Longrightarrow> i \<in> ?known"
      if "n \<in> set (fleet_nodes (world_db w))" for n i
      using load_nodes_rows_all [OF assms(2) that] parse_node_facts(5) [of n _ i]
      by (auto simp: known_ids_def intro: map_filter_mem)
    have unknown: "i \<in> ?known \<Longrightarrow> \<exists>n \<in> set (fleet_nodes (world_db w)). nt_provider_id n = Some i" for i
      using load_nodes_rows_mem parse_node_facts(4) by (fastforce simp: known_ids_def List.map_filter_def)
    have stopped: "i \<in> running (world_env w) - running (world_env w') \<Longrightarrow> i \<in> set old \<and> i \<notin> ?known" for i
      using run by (auto simp: orphans_def)
    obtain a b where ab: "sr_reaped (fst (destroy_all prov (orphans old ?known) rep0 v2)) = a"
      "sr_failed (fst (destroy_all prov (orphans old ?known) rep0 v2)) = b" "mset (a @ b) = mset (orphans old ?known)"
      using destroy_all_accounts [of prov "orphans old ?known" rep0 v2] by (auto simp: rep0_def empty_report_def)
    have tried: "set (a @ b) = set (orphans old ?known)" using ab(3) by (metis set_mset_mset)
    show ?thesis
    proof (intro conjI allI impI ballI)
      fix e assume "r = Inl e" then show "running (world_env w') = running (world_env w)" using rw by simp
    next
      show "running (world_env w') \<subseteq> running (world_env w)" using run by blast
    next
      fix i assume i: "i \<in> running (world_env w) - running (world_env w')" "i \<noteq> []"
      from stopped [OF i(1)] known i(2)
      show "\<not> (\<exists>n \<in> set (fleet_nodes (world_db w)). nt_provider_id n = Some i)" by blast
      from stopped [OF i(1)] show "\<exists>hs. fst (list_instances prov (world_env w)) = Inr hs
          \<and> (\<exists>h \<in> set hs. ih_provider_id h = i \<and> old_enough (ih_created_at h) now min_age)"
        using Inr l_def by (auto simp: old_def classify_listed_mem)
    next
      fix rep hs' h assume h: "r = Inr rep \<and> fst (list_instances prov (world_env w)) = Inr hs' \<and> h \<in> set hs'
         \<and> old_enough (ih_created_at h) now min_age
         \<and> \<not> (\<exists>n \<in> set (fleet_nodes (world_db w)). nt_provider_id n = Some (ih_provider_id h))"
      then have "ih_provider_id h \<in> set old" using Inr l_def by (auto simp: old_def classify_listed_mem)
      moreover have "ih_provider_id h \<notin> ?known" using h unknown by blast
      ultimately have "ih_provider_id h \<in> set (a @ b)" unfolding tried by (simp add: orphans_def)
      then show "ih_provider_id h \<in> set (sr_reaped rep @ sr_failed rep)" using h rw ab by auto
    qed
  qed
qed

theorem sweep_orphans_safe_witness:
  "running_ids (world_env (snd (sweep_orphans no_faults (dry_run 0) (secs 10) (secs 5)
      ((empty_db, fail_next_list (Transient ''503'') (seed [''i-1''] dry_run_new)), 0)))) = {''i-1''}"
proof -
  let ?w = "((empty_db, fail_next_list (Transient ''503'') (seed [''i-1''] dry_run_new)), 0::nat)"
  have wf: "fleet_wf (world_db ?w)" by (simp add: empty_wf)
  have r: "fst (sweep_orphans no_faults (dry_run 0) (secs 10) (secs 5) ?w) = Inl (Transient ''503'')"
    by (simp add: sweep_orphans_def load_nodes_def reads_def drives_def dry_run_def dry_run_list_def
        fail_next_list_def)
  from sweep_orphans_safe [OF dry.provider_contract_axioms [of 0] wf prod.collapse [symmetric],
      of no_faults "secs 10" "secs 5"] r
  show ?thesis
    by (simp add: running_ids_def seed_def seed_created_at_def dry_run_new_def fail_next_list_def)
qed

end
