(* ===== verification/Tfvars.thy ===== *)
theory Tfvars
  imports Fleet_Store "HOL-Library.AList"
begin

text \<open>
  Rendering the desired set for Terraform (\<^verbatim>\<open>crates/mm-fleet/src/tfvars.rs\<close>). The file system is the
  fixed file and the temporary file beside it; every operation on them can fail, before or
  after taking effect, by the same schedules as database calls, and the rename is atomic. The
  JSON codec (\<^verbatim>\<open>serde_json\<close>) and the RFC 3339 formatter (\<^verbatim>\<open>chrono\<close>) are parameters.

  Shown: a write that is not told to shrink never removes more than half of what the file
  names, never replaces a file it cannot read, and leaves either the old file or the whole new
  one.
\<close>

record tf_node =
  tn_flavor :: string
  tn_ownership :: string
  tn_region :: string
  tn_size :: string
  tn_broadcast_id :: "string option"
  tn_destroy_deadline :: "string option"

text \<open>A \<^verbatim>\<open>BTreeMap\<close>: entries with distinct keys, in key order.\<close>

type_synonym tfvars = "(string \<times> tf_node) list"

record tf_codec =
  to_string_pretty :: "tfvars \<Rightarrow> string + string"
  from_str :: "string \<Rightarrow> string + tfvars"
  to_rfc3339 :: "instant \<Rightarrow> string"

definition tf_node_of :: "tf_codec \<Rightarrow> desired_row \<Rightarrow> tf_node" where
  "tf_node_of c r =
     \<lparr>tn_flavor = flavor_as_str (dr_flavor r), tn_ownership = ownership_as_str (dr_ownership r),
      tn_region = dr_region r, tn_size = dr_size r, tn_broadcast_id = dr_broadcast_id r,
      tn_destroy_deadline = map_option (to_rfc3339 c) (dr_destroy_deadline r)\<rparr>"

definition from_rows :: "tf_codec \<Rightarrow> desired_row list \<Rightarrow> tfvars" where
  "from_rows c rows =
     sort_key fst (fold (\<lambda>r. AList.update (dr_mm_node_id r) (tf_node_of c r)) rows [])"

definition tfvars_len :: "tfvars \<Rightarrow> nat" where
  "tfvars_len t = length t"

definition tfvars_is_empty :: "tfvars \<Rightarrow> bool" where
  "tfvars_is_empty t \<longleftrightarrow> t = []"

datatype tfvars_error =
    UnexpectedShrink nat nat nat
  | Serialize string
  | Io string string

record tfvars_writer =
  tw_path :: string
  tw_tmp_path :: string
  tw_shrink_threshold :: f64

record tf_file =
  tf_current :: "string option"
  tf_tmp :: "string option"

definition read_current ::
  "tf_codec \<Rightarrow> tfvars_writer \<Rightarrow> schedule \<Rightarrow> tf_file world \<Rightarrow> (tfvars_error + tfvars) \<times> tf_file world" where
  "read_current c wr \<phi> fs =
     (case db_read \<phi> tf_current fs of
        (Inl e, fs') \<Rightarrow> (Inl (Io (tw_path wr) e), fs')
      | (Inr None, fs') \<Rightarrow> (Inr [], fs')
      | (Inr (Some text), fs') \<Rightarrow>
          ((case from_str c text of Inl e \<Rightarrow> Inl (Serialize e) | Inr t \<Rightarrow> Inr t), fs'))"

definition removed_count :: "tfvars \<Rightarrow> tfvars \<Rightarrow> nat" where
  "removed_count current nxt = length (filter (\<lambda>k. k \<notin> set (map fst nxt)) (map fst current))"

definition shrink_error :: "tfvars_writer \<Rightarrow> tfvars \<Rightarrow> tfvars \<Rightarrow> tfvars_error option" where
  "shrink_error wr current nxt =
     (let removed = removed_count current nxt in
      if 0 < removed \<and> f64_gt (f64_of_int (int removed))
           (f64_mul (f64_of_int (int (tfvars_len current))) (tw_shrink_threshold wr))
      then Some (UnexpectedShrink (tfvars_len current) (tfvars_len nxt) removed) else None)"

definition shrink_guard ::
  "tf_codec \<Rightarrow> tfvars_writer \<Rightarrow> schedule \<Rightarrow> tfvars \<Rightarrow> bool \<Rightarrow> tf_file world \<Rightarrow>
   tfvars_error option \<times> tf_file world" where
  "shrink_guard c wr \<phi> nxt allow_shrink fs =
     (if allow_shrink then (None, fs)
      else case read_current c wr \<phi> fs of
        (Inl e, fs') \<Rightarrow> (Some e, fs')
      | (Inr current, fs') \<Rightarrow> (shrink_error wr current nxt, fs'))"

definition write_tfvars ::
  "tf_codec \<Rightarrow> tfvars_writer \<Rightarrow> schedule \<Rightarrow> desired_row list \<Rightarrow> bool \<Rightarrow> tf_file world \<Rightarrow>
   (tfvars_error + tfvars) \<times> tf_file world" where
  "write_tfvars c wr \<phi> rows allow_shrink fs =
     (let nxt = from_rows c rows in
      case shrink_guard c wr \<phi> nxt allow_shrink fs of
        (Some e, fs1) \<Rightarrow> (Inl e, fs1)
      | (None, fs1) \<Rightarrow>
          (case to_string_pretty c nxt of
             Inl e \<Rightarrow> (Inl (Serialize e), fs1)
           | Inr text \<Rightarrow>
               (let body = text @ [CHR 0x0A] in
                case db_call \<phi> (\<lambda>f. ((), f\<lparr>tf_tmp := Some body\<rparr>)) fs1 of
                  (Inl e, fs2) \<Rightarrow> (Inl (Io (tw_tmp_path wr) e), fs2)
                | (Inr _, fs2) \<Rightarrow>
                    (case db_call \<phi> (\<lambda>f. ((), f\<lparr>tf_current := tf_tmp f, tf_tmp := None\<rparr>)) fs2 of
                       (Inl e, fs3) \<Rightarrow> (Inl (Io (tw_path wr) e), fs3)
                     | (Inr _, fs3) \<Rightarrow> (Inr nxt, fs3)))))"

section \<open>Lemmas\<close>

lemma half_guard:
  assumes "tw_shrink_threshold wr = Fin (1 / 2)" and "int (tfvars_len cur) \<le> 2 ^ 53"
    and "shrink_error wr cur nxt = None"
  shows "2 * removed_count cur nxt \<le> tfvars_len cur"
proof (rule ccontr)
  assume more: "\<not> 2 * removed_count cur nxt \<le> tfvars_len cur"
  define r n where "r = int (removed_count cur nxt)" and "n = int (tfvars_len cur)"
  have rn: "r \<le> n" unfolding r_def n_def removed_count_def tfvars_len_def
    using length_filter_le [of "\<lambda>k. k \<notin> set (map fst nxt)" "map fst cur"] by simp
  have lt: "n < 2 * r" and pos: "0 < removed_count cur nxt" using more by (auto simp: r_def n_def)
  have n0: "0 \<le> r" "0 \<le> n" "n \<le> 2 ^ 53" using assms(2) by (simp_all add: r_def n_def)
  have fr: "f64_of_int r = Fin (of_int r)" by (rule f64_of_int_exact) (use rn n0 in linarith)
  have fn: "f64_of_int n = Fin (of_int n)" by (rule f64_of_int_exact) (use n0 in linarith)
  have half: "(of_int n :: rat) * (1 / 2) = of_int n * pow2 (- 1)" by (simp add: pow2_def)
  have m: "f64_mul (Fin (of_int n)) (Fin (1 / 2)) = Fin (of_int n * pow2 (- 1))"
  proof -
    have ex: "round_f64 (of_int n * pow2 (- 1)) = of_int n * pow2 (- 1)"
      by (rule round_f64_exact) (use assms(2) in \<open>simp_all add: n_def\<close>)
    have "\<bar>of_int n * (1 / 2) :: rat\<bar> \<le> of_int (2 ^ 53)"
    proof -
      have "(of_int n :: rat) \<le> of_int (2 ^ 53)" using assms(2) by (simp only: of_int_le_iff n_def)
      moreover have "(0::rat) \<le> of_int n" by (simp add: n_def)
      ultimately show ?thesis by linarith
    qed
    from to_f64_small [OF this] show ?thesis unfolding f64_mul.simps half ex .
  qed
  have "\<not> (of_int r :: rat) \<le> of_int n * pow2 (- 1)"
  proof -
    have "(of_int n :: rat) < of_int (2 * r)" using lt by (simp only: of_int_less_iff)
    then show ?thesis by (simp add: half [symmetric])
  qed
  then have "f64_gt (f64_of_int r) (f64_mul (f64_of_int n) (tw_shrink_threshold wr))"
    using fr fn m assms(1) by (simp add: f64_gt_def)
  with pos assms(3) show False by (simp add: shrink_error_def Let_def r_def n_def)
qed

lemma read_current_keeps: "fst (snd (read_current c wr \<phi> fs)) = fst fs"
  and read_current_Inr: "fst (read_current c wr \<phi> fs) = Inr t \<Longrightarrow>
   (case tf_current (fst fs) of None \<Rightarrow> t = [] | Some text \<Rightarrow> from_str c text = Inr t)"
proof -
  obtain x fs1 where d: "db_read \<phi> tf_current fs = (x, fs1)" by (cases "db_read \<phi> tf_current fs")
  then have k: "fst fs1 = fst fs" and v: "\<And>y. x = Inr y \<Longrightarrow> y = tf_current (fst fs)"
    using db_read_state [of \<phi> tf_current fs] db_read_Inr [of \<phi> tf_current fs] by simp_all
  show "fst (snd (read_current c wr \<phi> fs)) = fst fs"
    using d k by (cases x) (simp_all add: read_current_def split: option.splits)
  show "fst (read_current c wr \<phi> fs) = Inr t \<Longrightarrow>
     (case tf_current (fst fs) of None \<Rightarrow> t = [] | Some text \<Rightarrow> from_str c text = Inr t)"
    using d v by (cases x) (auto simp: read_current_def split: option.splits sum.splits)
qed

lemma shrink_guard_keeps: "fst (snd (shrink_guard c wr \<phi> nxt b fs)) = fst fs"
  using read_current_keeps [of c wr \<phi> fs]
  by (auto simp: shrink_guard_def split: prod.splits sum.splits)

section \<open>Properties\<close>

text \<open>C30: The shrink guard and the atomic replacement, with the default threshold of one half.
  Whatever fails, the file is either as it was or the whole rendering of the desired set. When
  the write was not allowed to shrink and the file changed, then the old file was absent or
  could be parsed, and at most half of the nodes it named are gone from the new one. A
  successful write leaves a file that reads back as what was asked for.\<close>

theorem write_tfvars_guard:
  assumes "tw_shrink_threshold wr = Fin (1 / 2)"
    and "write_tfvars c wr \<phi> rows allow_shrink fs = (r, fs')"
    and "\<forall>t s. to_string_pretty c t = Inr s \<longrightarrow> from_str c (s @ [CHR 0x0A]) = Inr t"
  shows "(tf_current (fst fs') = tf_current (fst fs)
        \<or> (\<exists>s. to_string_pretty c (from_rows c rows) = Inr s \<and> tf_current (fst fs') = Some (s @ [CHR 0x0A])))
    \<and> (tf_current (fst fs') \<noteq> tf_current (fst fs) \<and> \<not> allow_shrink \<longrightarrow>
         (case tf_current (fst fs) of None \<Rightarrow> True
          | Some text \<Rightarrow> \<exists>cur. from_str c text = Inr cur \<and> (int (tfvars_len cur) \<le> 2 ^ 53 \<longrightarrow>
              2 * removed_count cur (from_rows c rows) \<le> tfvars_len cur)))
    \<and> (\<forall>t. r = Inr t \<longrightarrow> t = from_rows c rows \<and>
         (\<exists>text. tf_current (fst fs') = Some text \<and> from_str c text = Inr t))"
proof -
  let ?n = "from_rows c rows"
  obtain g fs1 where g: "shrink_guard c wr \<phi> ?n allow_shrink fs = (g, fs1)"
    by (cases "shrink_guard c wr \<phi> ?n allow_shrink fs")
  have fs1: "fst fs1 = fst fs" using shrink_guard_keeps [of c wr \<phi> ?n allow_shrink fs] g by simp
  have half: "\<not> allow_shrink \<Longrightarrow> g = None \<Longrightarrow>
      (case tf_current (fst fs) of None \<Rightarrow> True
       | Some text \<Rightarrow> \<exists>cur. from_str c text = Inr cur \<and> (int (tfvars_len cur) \<le> 2 ^ 53 \<longrightarrow>
           2 * removed_count cur ?n \<le> tfvars_len cur))"
    using g read_current_Inr [of c wr \<phi> fs] half_guard [OF assms(1), of _ ?n]
    by (cases "read_current c wr \<phi> fs"; cases "fst (read_current c wr \<phi> fs)")
      (fastforce simp: shrink_guard_def split: option.splits)+
  show ?thesis
  proof (cases "g = None \<and> (\<exists>s. to_string_pretty c ?n = Inr s)")
    case False
    then have "fst fs' = fst fs" "\<exists>e. r = Inl e"
      using assms(2) g fs1 by (auto simp: write_tfvars_def Let_def split: option.splits sum.splits)
    then show ?thesis by auto
  next
    case True
    then obtain s where s: "to_string_pretty c ?n = Inr s" and gN: "g = None" by blast
    let ?body = "s @ [CHR 0x0A]"
    obtain r2 fs2 where t: "db_call \<phi> (\<lambda>f. ((), f\<lparr>tf_tmp := Some ?body\<rparr>)) fs1 = (r2, fs2)"
      by (cases "db_call \<phi> (\<lambda>f. ((), f\<lparr>tf_tmp := Some ?body\<rparr>)) fs1")
    obtain r3 fs3 where m: "db_call \<phi> (\<lambda>f. ((), f\<lparr>tf_current := tf_tmp f, tf_tmp := None\<rparr>)) fs2 = (r3, fs3)"
      by (cases "db_call \<phi> (\<lambda>f. ((), f\<lparr>tf_current := tf_tmp f, tf_tmp := None\<rparr>)) fs2")
    have fs2: "tf_current (fst fs2) = tf_current (fst fs)" "r2 = Inr () \<Longrightarrow> tf_tmp (fst fs2) = Some ?body"
      using db_call_state [of \<phi> "\<lambda>f. ((), f\<lparr>tf_tmp := Some ?body\<rparr>)" fs1]
        db_call_Inr [of \<phi> "\<lambda>f. ((), f\<lparr>tf_tmp := Some ?body\<rparr>)" fs1 "()"] t fs1 by auto
    have fs3: "tf_current (fst fs3) = tf_current (fst fs2) \<or> tf_current (fst fs3) = tf_tmp (fst fs2)"
      "r3 = Inr () \<Longrightarrow> tf_current (fst fs3) = tf_tmp (fst fs2)"
      using db_call_state [of \<phi> "\<lambda>f. ((), f\<lparr>tf_current := tf_tmp f, tf_tmp := None\<rparr>)" fs2]
        db_call_Inr [of \<phi> "\<lambda>f. ((), f\<lparr>tf_current := tf_tmp f, tf_tmp := None\<rparr>)" fs2 "()"] m by auto
    have out: "(r, fs') = (case r2 of Inl e \<Rightarrow> (Inl (Io (tw_tmp_path wr) e), fs2)
        | Inr _ \<Rightarrow> (case r3 of Inl e \<Rightarrow> (Inl (Io (tw_path wr) e), fs3) | Inr _ \<Rightarrow> (Inr ?n, fs3)))"
      using assms(2) g gN s t m by (simp add: write_tfvars_def Let_def split: sum.splits)
    show ?thesis
      using out fs2 fs3 s assms(3) half [OF _ gN] by (cases r2; cases r3) auto
  qed
qed

text \<open>A codec that renders the empty map only.\<close>

definition empty_codec :: tf_codec where
  "empty_codec = \<lparr>to_string_pretty = (\<lambda>t. if t = [] then Inr ''{}'' else Inl ''unsupported''),
     from_str = (\<lambda>s. if s = ''{}'' @ [CHR 0x0A] then Inr [] else Inl ''unsupported''),
     to_rfc3339 = (\<lambda>_. '''')\<rparr>"

theorem write_tfvars_guard_witness:
  "\<exists>text. tf_current (fst (snd (write_tfvars empty_codec
      \<lparr>tw_path = ''p'', tw_tmp_path = ''t'', tw_shrink_threshold = Fin (1 / 2)\<rparr> no_faults [] False
      (\<lparr>tf_current = None, tf_tmp = None\<rparr>, 0)))) = Some text \<and> from_str empty_codec text = Inr []"
proof -
  let ?wr = "\<lparr>tw_path = ''p'', tw_tmp_path = ''t'', tw_shrink_threshold = Fin (1 / 2)\<rparr>"
  let ?fs = "(\<lparr>tf_current = None, tf_tmp = None\<rparr>, 0::nat)"
  have r: "fst (write_tfvars empty_codec ?wr no_faults [] False ?fs) = Inr (from_rows empty_codec [])"
    by (simp add: write_tfvars_def from_rows_def shrink_guard_def read_current_def shrink_error_def
        removed_count_def empty_codec_def)
  have rt: "\<forall>t s. to_string_pretty empty_codec t = Inr s \<longrightarrow> from_str empty_codec (s @ [CHR 0x0A]) = Inr t"
    by (simp add: empty_codec_def)
  have "tw_shrink_threshold ?wr = Fin (1 / 2)" by simp
  from write_tfvars_guard [OF this prod.collapse [symmetric] rt, of no_faults "[]" False ?fs] r
  show ?thesis by (simp add: from_rows_def)
qed

end
