(* ===== verification/Runner.thy ===== *)
theory Runner
  imports Sweeper Tfvars
begin

text \<open>
  The reconcile loop (\<^verbatim>\<open>crates/mm-fleet/src/runner.rs\<close>). Its trait objects are parameters: the
  census of broadcasts (what it answers during the tick), the billing source, and the provider.
  The gauges and log lines are left out; the provision-time histogram is the list of samples.

  Shown: neither kill-switch mode ever adds a desired node; a failed census tears nothing down
  and plans nothing; what a tick may destroy in each mode; without a billing source nothing is
  ever provisioned; and two ways in which a tick works against the store's own rules.
\<close>

record live_broadcast =
  lb_broadcast_id :: string
  lb_viewers :: nat

record census =
  live_broadcasts :: "string + live_broadcast list"
  programme_is_live :: "string \<Rightarrow> string + bool"

record broadcast_billing =
  bb_available_balance_minor :: int
  bb_projected_cost_minor :: int
  bb_transcode_enabled :: bool

type_synonym 'x quote = "string \<Rightarrow> 'x dbenv \<Rightarrow> (string + broadcast_billing) \<times> 'x dbenv"

definition no_billing_yet :: "'x quote" where
  "no_billing_yet broadcast_id w =
     (Inl (''no wallet for broadcast '' @ broadcast_id @
        '': prepaid billing is WS-D and does not exist yet, so nothing may be provisioned on its behalf''), w)"

text \<open>A billing source reads; it changes neither the tables nor what the caller drives.\<close>

locale billing_source =
  fixes quote :: "'x quote"
  assumes quote_reads: "fst (snd (quote b w)) = fst w"

interpretation no_billing: billing_source no_billing_yet
  by unfold_locales (simp add: no_billing_yet_def)

record tick_report =
  tr_mode :: string
  tr_planned :: "string list"
  tr_skipped :: "(string \<times> string) list"
  tr_torn_down :: "string list"
  tr_teardown_failures :: "string list"
  tr_nodes_observed :: nat
  tr_tfvars_nodes :: "nat option"

record 'p runner_env =
  re_provider :: 'p
  re_file :: tf_file
  re_timed :: "string set"

record 'p fleet_runner =
  fr_census :: census
  fr_billing :: "'p runner_env quote"
  fr_policy :: fleet_policy
  fr_tfvars :: "tfvars_writer option"
  fr_codec :: tf_codec

text \<open>The provider, as part of what the runner drives.\<close>

definition on_provider :: "('p \<Rightarrow> 'a \<times> 'p) \<Rightarrow> 'p runner_env \<Rightarrow> 'a \<times> 'p runner_env" where
  "on_provider f e = (fst (f (re_provider e)), e\<lparr>re_provider := snd (f (re_provider e))\<rparr>)"

definition driven :: "'p provider \<Rightarrow> 'p runner_env provider" where
  "driven prov =
     \<lparr>provider_name = provider_name prov, create = (\<lambda>s. on_provider (create prov s)),
      destroy = (\<lambda>i. on_provider (destroy prov i)), list_instances = on_provider (list_instances prov)\<rparr>"

section \<open>Observation\<close>

definition observed_to_fleet_node :: "observed_node \<Rightarrow> fleet_node" where
  "observed_to_fleet_node n =
     \<lparr>fn_id = on_mm_node_id n, fn_flavor = on_flavor n, fn_ownership = on_ownership n,
      fn_state = on_state n, fn_viewer_capacity = on_viewer_capacity n,
      fn_viewers_current = on_viewers_current n\<rparr>"

definition nodes_for_broadcast :: "observed_node list \<Rightarrow> string \<Rightarrow> fleet_node list" where
  "nodes_for_broadcast nodes broadcast_id =
     map observed_to_fleet_node
       (filter (\<lambda>n. starts_with (on_mm_node_id n) (''bc-'' @ broadcast_id @ ''-'')) nodes)"

definition is_reapable_now :: "observed_node \<Rightarrow> bool" where
  "is_reapable_now n \<longleftrightarrow> ownership_is_reapable (on_ownership n) \<and> on_state n \<noteq> Gone"

definition provision_seconds :: "instant option \<Rightarrow> instant \<Rightarrow> f64 option" where
  "provision_seconds requested_at now =
     (case requested_at of
        None \<Rightarrow> None
      | Some t \<Rightarrow>
          (let s = f64_div_pos (f64_of_int ((now - t) sdiv 1000000)) 1000
           in if f64_ge s (Fin 0) then Some s else None))"

fun observe_provision_times ::
  "(string \<rightharpoonup> instant) \<Rightarrow> instant \<Rightarrow> observed_node list \<Rightarrow> string set \<Rightarrow> (string \<times> f64) list \<times> string set" where
  "observe_provision_times requested now [] timed = ([], timed)"
| "observe_provision_times requested now (n # ns) timed =
     (if on_state n = Healthy \<and> on_mm_node_id n \<notin> timed then
        case provision_seconds (requested (on_mm_node_id n)) now of
          Some s \<Rightarrow>
            (let (samples, timed') =
               observe_provision_times requested now ns (insert (on_mm_node_id n) timed)
             in ((flavor_as_str (on_flavor n), s) # samples, timed'))
        | None \<Rightarrow> observe_provision_times requested now ns timed
      else observe_provision_times requested now ns timed)"

section \<open>One tick\<close>

definition tear_down ::
  "schedule \<Rightarrow> 'p provider \<Rightarrow> observed_node \<Rightarrow> tick_report \<Rightarrow> 'p runner_env dbenv \<Rightarrow>
   tick_report \<times> 'p runner_env dbenv" where
  "tear_down \<phi> prov node report w =
     (case teardown \<phi> (driven prov) (teardown_target_of node) w of
        (Inr _, w') \<Rightarrow> (report\<lparr>tr_torn_down := tr_torn_down report @ [on_mm_node_id node]\<rparr>, w')
      | (Inl e, w') \<Rightarrow>
          (report\<lparr>tr_teardown_failures := tr_teardown_failures report @ [on_mm_node_id node]\<rparr>, w'))"

fun tear_down_all ::
  "schedule \<Rightarrow> 'p provider \<Rightarrow> observed_node list \<Rightarrow> tick_report \<Rightarrow> 'p runner_env dbenv \<Rightarrow>
   tick_report \<times> 'p runner_env dbenv" where
  "tear_down_all \<phi> prov [] report w = (report, w)"
| "tear_down_all \<phi> prov (n # ns) report w =
     (case tear_down \<phi> prov n report w of (report', w') \<Rightarrow> tear_down_all \<phi> prov ns report' w')"

definition plan_one ::
  "schedule \<Rightarrow> 'p fleet_runner \<Rightarrow> live_broadcast \<Rightarrow> observed_node list \<Rightarrow> instant \<Rightarrow>
   'p runner_env dbenv \<Rightarrow> (string + unit) \<times> 'p runner_env dbenv" where
  "plan_one \<phi> fr bc nodes now w =
     (case fr_billing fr (lb_broadcast_id bc) w of
        (Inl e, w1) \<Rightarrow> (Inl e, w1)
      | (Inr billing, w1) \<Rightarrow>
          (case programme_is_live (fr_census fr) (lb_broadcast_id bc) of
             Inl e \<Rightarrow> (Inl e, w1)
           | Inr on_air \<Rightarrow>
               (let obs = \<lparr>fo_broadcast_id = lb_broadcast_id bc, fo_programme_is_live = on_air,
                     fo_transcode_enabled = bb_transcode_enabled billing,
                     viewers_projected = lb_viewers bc,
                     available_balance_minor = bb_available_balance_minor billing,
                     projected_cost_minor = bb_projected_cost_minor billing,
                     fo_nodes = nodes_for_broadcast nodes (lb_broadcast_id bc)\<rparr>;
                    want = plan obs (fr_policy fr)
                in case upsert_for_broadcast \<phi> (lb_broadcast_id bc) want now w1 of
                     (Inl e, w2) \<Rightarrow> (Inl (''writing the desired set failed: '' @ store_error_text e), w2)
                   | (Inr _, w2) \<Rightarrow> (Inr (), w2))))"

fun plan_all ::
  "schedule \<Rightarrow> 'p fleet_runner \<Rightarrow> live_broadcast list \<Rightarrow> observed_node list \<Rightarrow> instant \<Rightarrow> tick_report \<Rightarrow>
   'p runner_env dbenv \<Rightarrow> tick_report \<times> 'p runner_env dbenv" where
  "plan_all \<phi> fr [] nodes now report w = (report, w)"
| "plan_all \<phi> fr (bc # bcs) nodes now report w =
     (case plan_one \<phi> fr bc nodes now w of
        (Inr _, w') \<Rightarrow>
          plan_all \<phi> fr bcs nodes now
            (report\<lparr>tr_planned := tr_planned report @ [lb_broadcast_id bc]\<rparr>) w'
      | (Inl why, w') \<Rightarrow>
          plan_all \<phi> fr bcs nodes now
            (report\<lparr>tr_skipped := tr_skipped report @ [(lb_broadcast_id bc, why)]\<rparr>) w')"

definition render_tfvars ::
  "schedule \<Rightarrow> 'p fleet_runner \<Rightarrow> bool \<Rightarrow> tick_report \<Rightarrow> 'p runner_env dbenv \<Rightarrow>
   tick_report \<times> 'p runner_env dbenv" where
  "render_tfvars \<phi> fr allow_shrink report w =
     (case fr_tfvars fr of
        None \<Rightarrow> (report, w)
      | Some writer \<Rightarrow>
          (case load_all \<phi> w of
             (Inl e, w1) \<Rightarrow> (report, w1)
           | (Inr rows, w1) \<Rightarrow>
               (case write_tfvars (fr_codec fr) writer \<phi> rows allow_shrink
                       (re_file (world_env w1), snd w1) of
                  (r, (file, n)) \<Rightarrow>
                    ((case r of Inr written \<Rightarrow> report\<lparr>tr_tfvars_nodes := Some (tfvars_len written)\<rparr>
                      | Inl e \<Rightarrow> report),
                     ((world_db w1, (world_env w1)\<lparr>re_file := file\<rparr>), n)))))"

definition ended_nodes ::
  "desired_row list \<Rightarrow> string set \<Rightarrow> observed_node list \<Rightarrow> observed_node list" where
  "ended_nodes desired live_ids nodes =
     filter (\<lambda>node.
       case find (\<lambda>d. dr_mm_node_id d = on_mm_node_id node) desired of
         None \<Rightarrow> False
       | Some d \<Rightarrow> (case dr_broadcast_id d of None \<Rightarrow> False
                    | Some bc \<Rightarrow> bc \<notin> live_ids \<and> is_reapable_now node)) nodes"

definition tick_body ::
  "schedule \<Rightarrow> 'p fleet_runner \<Rightarrow> 'p provider \<Rightarrow> fleet_mode \<Rightarrow> instant \<Rightarrow> observed_node list \<Rightarrow>
   desired_row list \<Rightarrow> tick_report \<Rightarrow> 'p runner_env dbenv \<Rightarrow> tick_report \<times> 'p runner_env dbenv" where
  "tick_body \<phi> fr prov mode now nodes desired report w =
     (if mode = Off then
        (case tear_down_all \<phi> prov (filter is_reapable_now nodes) report w of
           (report1, w1) \<Rightarrow> render_tfvars \<phi> fr True report1 w1)
      else case live_broadcasts (fr_census fr) of
        Inl e \<Rightarrow>
          (report\<lparr>tr_skipped := tr_skipped report @ [(''*'', ''census unavailable: '' @ e)]\<rparr>, w)
      | Inr on_air \<Rightarrow>
          (case tear_down_all \<phi> prov
                  (ended_nodes desired (set (map lb_broadcast_id on_air)) nodes) report w of
             (report1, w1) \<Rightarrow>
               if \<not> allows_placement mode then render_tfvars \<phi> fr False report1 w1
               else case plan_all \<phi> fr on_air nodes now report1 w1 of
                 (report2, w2) \<Rightarrow> render_tfvars \<phi> fr False report2 w2))"

definition start_report :: "fleet_mode \<Rightarrow> observed_node list \<Rightarrow> tick_report" where
  "start_report mode nodes =
     \<lparr>tr_mode = fleet_mode_display mode, tr_planned = [], tr_skipped = [], tr_torn_down = [],
      tr_teardown_failures = [], tr_nodes_observed = length nodes, tr_tfvars_nodes = None\<rparr>"

definition time_nodes ::
  "observed_node list \<Rightarrow> desired_row list \<Rightarrow> instant \<Rightarrow> 'p runner_env dbenv \<Rightarrow> 'p runner_env dbenv" where
  "time_nodes nodes desired now w =
     (let requested = map_of (rev (map (\<lambda>d. (dr_mm_node_id d, dr_requested_at d)) desired));
          timed = snd (observe_provision_times requested now nodes (re_timed (world_env w)))
      in ((world_db w, (world_env w)\<lparr>re_timed := timed\<rparr>), snd w))"

definition tick ::
  "schedule \<Rightarrow> 'p fleet_runner \<Rightarrow> 'p provider \<Rightarrow> fleet_mode \<Rightarrow> instant \<Rightarrow> 'p runner_env dbenv \<Rightarrow>
   (store_error + tick_report) \<times> 'p runner_env dbenv" where
  "tick \<phi> fr prov mode now w =
     (case load_nodes \<phi> w of
        (Inl e, w1) \<Rightarrow> (Inl e, w1)
      | (Inr nodes, w1) \<Rightarrow>
          (case load_all \<phi> w1 of
             (Inl e, w2) \<Rightarrow> (Inl e, w2)
           | (Inr desired, w2) \<Rightarrow>
               (case tick_body \<phi> fr prov mode now nodes desired (start_report mode nodes)
                       (time_nodes nodes desired now w2) of
                  (report, w3) \<Rightarrow> (Inr report, w3))))"

section \<open>Lemmas\<close>

text \<open>A provider that keeps its contract keeps it as part of what the runner drives.\<close>

lemma driven_destroy [simp]: "destroy (driven prov) i e =
    (fst (destroy prov i (re_provider e)), e\<lparr>re_provider := snd (destroy prov i (re_provider e))\<rparr>)"
  by (simp add: driven_def on_provider_def)

lemma driven_list [simp]: "list_instances (driven prov) e =
    (fst (list_instances prov (re_provider e)), e\<lparr>re_provider := snd (list_instances prov (re_provider e))\<rparr>)"
  by (simp add: driven_def on_provider_def)

context provider_contract
begin

lemma driven_contract: "provider_contract (driven prov) (\<lambda>e. running (re_provider e))"
  by unfold_locales
    (simp_all add: destroy_gone destroy_again destroy_others destroy_fails list_keeps list_complete)

end

lemma tear_down_world: "snd (tear_down \<phi> prov n rep w) = snd (teardown \<phi> (driven prov) (teardown_target_of n) w)"
  by (simp add: tear_down_def split: prod.splits sum.splits)

lemma tear_down_all_keeps:
  assumes "\<And>n v. n \<in> set ns \<Longrightarrow> J v \<Longrightarrow> J (snd (teardown \<phi> (driven prov) (teardown_target_of n) v))" and "J w"
  shows "J (snd (tear_down_all \<phi> prov ns rep w))"
  using assms
proof (induction ns arbitrary: rep w)
  case (Cons n ns)
  obtain rep' w' where t: "tear_down \<phi> prov n rep w = (rep', w')" by (cases "tear_down \<phi> prov n rep w")
  then have "w' = snd (teardown \<phi> (driven prov) (teardown_target_of n) w)"
    using tear_down_world [of \<phi> prov n rep w] by simp
  with Cons.prems have "J w'" by simp
  with Cons t show ?case by simp
qed simp

lemma load_all_cases:
  obtains (err) e v where "load_all \<phi> w = (Inl e, v)" "fst v = fst w"
  | (rows) v where "load_all \<phi> w = (Inr (load_all_rows (world_db w)), v)" "fst v = fst w"
proof -
  obtain r v where s: "sql \<phi> (reads load_all_rows) w = (r, v)" by (cases "sql \<phi> (reads load_all_rows) w")
  then have "fst v = fst w" using sql_reads_state [of \<phi> load_all_rows w] by simp
  then show ?thesis
    using that s sql_reads_Inr [of \<phi> load_all_rows w] by (cases r) (auto simp: load_all_def)
qed

lemma render_tfvars_keeps:
  "world_db (snd (render_tfvars \<phi> fr b rep w)) = world_db w"
  "re_provider (world_env (snd (render_tfvars \<phi> fr b rep w))) = re_provider (world_env w)"
  "tr_planned (fst (render_tfvars \<phi> fr b rep w)) = tr_planned rep"
  "tr_torn_down (fst (render_tfvars \<phi> fr b rep w)) = tr_torn_down rep"
proof -
  have "world_db (snd (render_tfvars \<phi> fr b rep w)) = world_db w
    \<and> re_provider (world_env (snd (render_tfvars \<phi> fr b rep w))) = re_provider (world_env w)
    \<and> tr_planned (fst (render_tfvars \<phi> fr b rep w)) = tr_planned rep
    \<and> tr_torn_down (fst (render_tfvars \<phi> fr b rep w)) = tr_torn_down rep"
  proof (cases "fr_tfvars fr")
    case None
    then show ?thesis by (simp add: render_tfvars_def)
  next
    case (Some wr)
    then show ?thesis
      by (cases rule: load_all_cases [of \<phi> w]) (simp_all add: render_tfvars_def split: prod.splits sum.splits)
  qed
  then show "world_db (snd (render_tfvars \<phi> fr b rep w)) = world_db w"
    "re_provider (world_env (snd (render_tfvars \<phi> fr b rep w))) = re_provider (world_env w)"
    "tr_planned (fst (render_tfvars \<phi> fr b rep w)) = tr_planned rep"
    "tr_torn_down (fst (render_tfvars \<phi> fr b rep w)) = tr_torn_down rep" by simp_all
qed

text \<open>A tick either fails on its first reads and changes nothing, or runs its body on them.\<close>

lemma tick_cases:
  obtains (err) e v where "tick \<phi> fr prov mode now w = (Inl e, v)" "fst v = fst w"
  | (body) rep v where "tick \<phi> fr prov mode now w =
      (Inr (fst (tick_body \<phi> fr prov mode now (load_nodes_rows (world_db w)) (load_all_rows (world_db w)) rep v)),
       snd (tick_body \<phi> fr prov mode now (load_nodes_rows (world_db w)) (load_all_rows (world_db w)) rep v))"
    "world_db v = world_db w" "re_provider (world_env v) = re_provider (world_env w)"
    "re_file (world_env v) = re_file (world_env w)"
    "tr_planned rep = []" "tr_torn_down rep = []"
proof (cases rule: load_nodes_cases [of \<phi> w])
  case (err e v)
  then have "tick \<phi> fr prov mode now w = (Inl e, v)" by (simp add: tick_def)
  with err(2) show ?thesis by (rule that(1) [rotated])
next
  case (rows v1)
  show ?thesis
  proof (cases rule: load_all_cases [of \<phi> v1])
    case (err e v)
    with rows have "tick \<phi> fr prov mode now w = (Inl e, v)" by (simp add: tick_def)
    then show ?thesis by (rule that(1)) (use err rows in simp)
  next
    case r2: (rows v2)
    let ?ns = "load_nodes_rows (world_db w)" and ?ds = "load_all_rows (world_db w)"
    have "tick \<phi> fr prov mode now w =
        (Inr (fst (tick_body \<phi> fr prov mode now ?ns ?ds (start_report mode ?ns) (time_nodes ?ns ?ds now v2))),
         snd (tick_body \<phi> fr prov mode now ?ns ?ds (start_report mode ?ns) (time_nodes ?ns ?ds now v2)))"
      using rows r2 by (simp add: tick_def split: prod.splits)
    then show ?thesis
      by (rule that(2)) (use rows r2 in \<open>simp_all add: time_nodes_def start_report_def Let_def\<close>)
  qed
qed

lemma desired_shrinks_teardown:
  "desired_view (world_db w) \<subseteq>\<^sub>m m \<Longrightarrow> desired_view (world_db (snd (teardown \<phi> prov t w))) \<subseteq>\<^sub>m m"
proof (rule teardown_inv [where I = "\<lambda>d. desired_view d \<subseteq>\<^sub>m m"])
  fix d assume m: "desired_view d \<subseteq>\<^sub>m m"
  have e: "lookup_row dt_mm_node_id k (filter (\<lambda>r. dt_mm_node_id r \<noteq> n) t)
      = (if k = n then None else lookup_row dt_mm_node_id k t)" for k n t
    by (induction t) (auto simp: lookup_row_def)
  show "desired_view (delete_desired (\<lambda>r. dt_mm_node_id r = tt_mm_node_id t) d) \<subseteq>\<^sub>m m"
    using m by (auto simp: map_le_def desired_view_def e dom_def split: if_splits)
qed (simp_all add: update_node_state_def desired_view_def map_le_def dom_def)

section \<open>Properties\<close>

text \<open>C16: Neither kill-switch mode provisions: whatever the census and the wallet say and whatever
  fails, a tick in \<^verbatim>\<open>frozen\<close> or \<^verbatim>\<open>off\<close> leaves a desired set contained in the one it found.\<close>

theorem kill_switch_never_provisions:
  assumes "mode \<noteq> On"
  shows "desired_view (world_db (snd (tick \<phi> fr prov mode now w))) \<subseteq>\<^sub>m desired_view (world_db w)"
proof (cases rule: tick_cases [of \<phi> fr prov mode now w])
  case (err e v)
  then show ?thesis by simp
next
  case (body rep v)
  have all: "desired_view (world_db (snd (tear_down_all \<phi> prov ns rep v))) \<subseteq>\<^sub>m desired_view (world_db w)" for ns
    by (rule tear_down_all_keeps [where J = "\<lambda>v. desired_view (world_db v) \<subseteq>\<^sub>m desired_view (world_db w)"])
      (simp_all add: desired_shrinks_teardown body)
  have base: "desired_view (world_db v) \<subseteq>\<^sub>m desired_view (world_db w)" by (simp add: body)
  show ?thesis
    using assms all base unfolding body(1) snd_conv
    by (cases mode) (auto simp: tick_body_def render_tfvars_keeps split_beta split: sum.splits)
qed

theorem kill_switch_never_provisions_witness:
  "desired_view (world_db (snd (tick no_faults
      \<lparr>fr_census = \<lparr>live_broadcasts = Inr [\<lparr>lb_broadcast_id = ''b'', lb_viewers = 900\<rparr>],
         programme_is_live = (\<lambda>_. Inr True)\<rparr>, fr_billing = no_billing_yet,
       fr_policy = conservative ''r'' ''s'', fr_tfvars = None, fr_codec = empty_codec\<rparr>
      (dry_run 0) Frozen 0
      ((empty_db, \<lparr>re_provider = dry_run_new, re_file = \<lparr>tf_current = None, tf_tmp = None\<rparr>, re_timed = {}\<rparr>), 0))))
   \<subseteq>\<^sub>m Map.empty"
proof -
  have e: "desired_view empty_db = Map.empty"
    by (simp add: desired_view_def empty_db_def lookup_row_def fun_eq_iff)
  have "Frozen \<noteq> On" by simp
  from kill_switch_never_provisions [OF this, where \<phi> = no_faults and prov = "dry_run 0" and now = 0
      and fr = "\<lparr>fr_census = \<lparr>live_broadcasts = Inr [\<lparr>lb_broadcast_id = ''b'', lb_viewers = 900\<rparr>],
         programme_is_live = (\<lambda>_. Inr True)\<rparr>, fr_billing = no_billing_yet,
       fr_policy = conservative ''r'' ''s'', fr_tfvars = None, fr_codec = empty_codec\<rparr>"
      and w = "((empty_db, \<lparr>re_provider = dry_run_new, re_file = \<lparr>tf_current = None, tf_tmp = None\<rparr>,
         re_timed = {}\<rparr>), 0)"]
  show ?thesis by (simp only: e fst_conv)
qed

text \<open>A census failure is not an empty census: outside \<^verbatim>\<open>off\<close>, when the list of live broadcasts
  cannot be read the tick changes neither the database nor the provider nor the file, and
  reports nothing planned and nothing torn down.\<close>

lemma census_failure_is_inert:
  assumes "mode \<noteq> Off" and "live_broadcasts (fr_census fr) = Inl e"
  shows "case tick \<phi> fr prov mode now w of (r, w') \<Rightarrow>
      world_db w' = world_db w \<and> re_provider (world_env w') = re_provider (world_env w)
    \<and> re_file (world_env w') = re_file (world_env w)
    \<and> (\<forall>rep. r = Inr rep \<longrightarrow> tr_planned rep = [] \<and> tr_torn_down rep = [])"
proof (cases rule: tick_cases [of \<phi> fr prov mode now w])
  case (err e v)
  then show ?thesis by simp
next
  case (body rep v)
  then show ?thesis using assms by (simp add: tick_body_def)
qed

lemma plan_one_no_billing:
  "fr_billing fr = no_billing_yet \<Longrightarrow> \<exists>e. plan_one \<phi> fr bc ns now w = (Inl e, w)"
  by (simp add: plan_one_def no_billing_yet_def)

lemma plan_all_no_billing:
  "fr_billing fr = no_billing_yet \<Longrightarrow> snd (plan_all \<phi> fr bcs ns now rep w) = w
   \<and> tr_planned (fst (plan_all \<phi> fr bcs ns now rep w)) = tr_planned rep"
proof (induction bcs arbitrary: rep)
  case (Cons bc bcs)
  obtain e where "plan_one \<phi> fr bc ns now w = (Inl e, w)"
    using plan_one_no_billing [OF Cons.prems] by blast
  with Cons show ?case by simp
qed simp

text \<open>Until there is a wallet to bill, nothing is provisioned: with \<^verbatim>\<open>NoBillingYet\<close> the desired
  set never grows in any mode, and no broadcast is reported as planned.\<close>

lemma no_billing_never_provisions:
  assumes "fr_billing fr = no_billing_yet"
  shows "case tick \<phi> fr prov mode now w of (r, w') \<Rightarrow>
      desired_view (world_db w') \<subseteq>\<^sub>m desired_view (world_db w)
    \<and> (\<forall>rep. r = Inr rep \<longrightarrow> tr_planned rep = [])"
proof (cases rule: tick_cases [of \<phi> fr prov mode now w])
  case (err e v)
  then show ?thesis by simp
next
  case (body rep v)
  have all: "desired_view (world_db (snd (tear_down_all \<phi> prov ns rep v))) \<subseteq>\<^sub>m desired_view (world_db w)" for ns
    by (rule tear_down_all_keeps [where J = "\<lambda>v. desired_view (world_db v) \<subseteq>\<^sub>m desired_view (world_db w)"])
      (simp_all add: desired_shrinks_teardown body)
  have planned: "tr_planned (fst (tear_down_all \<phi> prov ns r u)) = tr_planned r" for ns r u
    by (induction ns arbitrary: r u) (auto simp: tear_down_def split: prod.splits sum.splits)
  have base: "desired_view (world_db v) \<subseteq>\<^sub>m desired_view (world_db w)" by (simp add: body)
  show ?thesis
    using all base body(5) unfolding body(1)
    by (auto simp: tick_body_def render_tfvars_keeps split_beta plan_all_no_billing [OF assms] planned
        split: sum.splits)
qed

lemma upsert_world_env: "world_env (snd (upsert_for_broadcast \<phi> b ds now w)) = world_env w"
  by (auto simp: upsert_for_broadcast_def split: option.splits)

lemma plan_one_env:
  "billing_source (fr_billing fr) \<Longrightarrow> world_env (snd (plan_one \<phi> fr bc ns now w)) = world_env w"
proof -
  assume b: "billing_source (fr_billing fr)"
  obtain q w1 where q: "fr_billing fr (lb_broadcast_id bc) w = (q, w1)"
    by (cases "fr_billing fr (lb_broadcast_id bc) w")
  then have w1: "fst w1 = fst w"
    using billing_source.quote_reads [OF b, of "lb_broadcast_id bc" w] by simp
  then show ?thesis
    by (cases q; cases "programme_is_live (fr_census fr) (lb_broadcast_id bc)")
      (simp_all add: plan_one_def Let_def q upsert_world_env)
qed

lemma plan_all_env:
  "billing_source (fr_billing fr) \<Longrightarrow> world_env (snd (plan_all \<phi> fr bcs ns now rep w)) = world_env w"
proof (induction bcs arbitrary: rep w)
  case (Cons bc bcs)
  obtain r w' where "plan_one \<phi> fr bc ns now w = (r, w')" by (cases "plan_one \<phi> fr bc ns now w")
  with Cons plan_one_env [OF Cons.prems, of \<phi> bc ns now w] show ?case by (cases r) auto
qed simp

context provider_contract
begin

lemma tear_down_all_running:
  "running (re_provider (world_env (snd (tear_down_all \<phi> prov ns rep w)))) \<subseteq> running (re_provider (world_env w))
   \<and> (\<forall>i \<in> running (re_provider (world_env w)) - running (re_provider (world_env (snd (tear_down_all \<phi> prov ns rep w)))).
        \<exists>n \<in> set ns. on_ownership n = Rented \<and> on_provider_id n = Some i)"
proof (induction ns arbitrary: rep w)
  case (Cons n ns)
  let ?v = "snd (tear_down \<phi> prov n rep w)"
  have own: "tt_ownership (teardown_target_of n) = on_ownership n" "tt_provider_id (teardown_target_of n) = on_provider_id n"
    by (simp_all add: teardown_target_of_def)
  note t = provider_contract.teardown_running [OF driven_contract, where \<phi> = \<phi> and t = "teardown_target_of n" and w = w,
      unfolded own, folded tear_down_world [of \<phi> prov n rep]]
  have e: "tear_down_all \<phi> prov (n # ns) rep w = tear_down_all \<phi> prov ns (fst (tear_down \<phi> prov n rep w)) ?v"
    by (simp add: split_beta)
  note ih = Cons.IH [of "fst (tear_down \<phi> prov n rep w)" ?v]
  show ?case unfolding e
  proof (intro conjI ballI)
    show "running (re_provider (world_env (snd (tear_down_all \<phi> prov ns (fst (tear_down \<phi> prov n rep w)) ?v))))
        \<subseteq> running (re_provider (world_env w))" using ih t(1) by blast
    fix i assume "i \<in> running (re_provider (world_env w))
      - running (re_provider (world_env (snd (tear_down_all \<phi> prov ns (fst (tear_down \<phi> prov n rep w)) ?v))))"
    then show "\<exists>m \<in> set (n # ns). on_ownership m = Rented \<and> on_provider_id m = Some i"
      using ih t(2) [of i] by (cases "i \<in> running (re_provider (world_env ?v))") auto
  qed
qed simp

end

lemma reapable_row:
  assumes "n \<in> set (load_nodes_rows d)" and "on_provider_id n = Some i" and "is_reapable_now n"
  shows "\<exists>t \<in> set (fleet_nodes d). nt_mm_node_id t = on_mm_node_id n \<and> nt_ownership t = ''rented''
    \<and> nt_state t \<noteq> ''gone'' \<and> nt_provider_id t = Some i"
proof -
  obtain t where t: "t \<in> set (fleet_nodes d)" "parse_node t = Some n" using load_nodes_rows_mem [OF assms(1)] by blast
  note f = parse_node_facts [OF t(2)]
  have "on_ownership n = Rented" "on_state n \<noteq> Gone" using assms(3) by (simp_all add: is_reapable_now_def)
  then show ?thesis using t(1) f(1,2) f(4) [OF assms(2)] f(6) by (intro bexI [of _ t]) simp_all
qed

lemma load_all_rows_mem:
  "d \<in> set (load_all_rows s) \<Longrightarrow>
   \<exists>r \<in> set (fleet_desired s). dt_mm_node_id r = dr_mm_node_id d \<and> dt_broadcast_id r = dr_broadcast_id d"
  by (auto simp: load_all_rows_def List.map_filter_def parse_desired_def split: option.splits)

lemma ended_nodes_mem:
  assumes "n \<in> set (ended_nodes (load_all_rows d) L ns)"
  shows "n \<in> set ns \<and> is_reapable_now n
    \<and> (\<exists>r \<in> set (fleet_desired d). dt_mm_node_id r = on_mm_node_id n
         \<and> (\<exists>bc. dt_broadcast_id r = Some bc \<and> bc \<notin> L))"
proof -
  from assms obtain r bc where "n \<in> set ns" "is_reapable_now n"
    and r: "find (\<lambda>r. dr_mm_node_id r = on_mm_node_id n) (load_all_rows d) = Some r"
      "dr_broadcast_id r = Some bc" "bc \<notin> L"
    by (auto simp: ended_nodes_def split: option.splits)
  then have "r \<in> set (load_all_rows d)" "dr_mm_node_id r = on_mm_node_id n"
    by (auto simp: find_Some_iff)
  with load_all_rows_mem [of r d] r \<open>n \<in> set ns\<close> \<open>is_reapable_now n\<close> show ?thesis by fastforce
qed

text \<open>C10: What a tick may destroy. With a billing source that only reads and a provider that keeps
  its contract, and whatever fails, a tick starts no machine, and every machine it stops
  belonged to a rented node row that was not gone; unless the mode is \<^verbatim>\<open>off\<close>, the census
  succeeded and the node's desired row was for a broadcast that is not live.\<close>

theorem tick_destroys_only:
  assumes "provider_contract prov running" and "billing_source (fr_billing fr)"
  shows "let w' = snd (tick \<phi> fr prov mode now w) in
      running (re_provider (world_env w')) \<subseteq> running (re_provider (world_env w))
    \<and> (\<forall>i \<in> running (re_provider (world_env w)) - running (re_provider (world_env w')).
        \<exists>n \<in> set (fleet_nodes (world_db w)). nt_ownership n = ''rented'' \<and> nt_state n \<noteq> ''gone''
          \<and> nt_provider_id n = Some i
          \<and> (mode \<noteq> Off \<longrightarrow> (\<exists>on_air r bc. live_broadcasts (fr_census fr) = Inr on_air
               \<and> r \<in> set (fleet_desired (world_db w)) \<and> dt_mm_node_id r = nt_mm_node_id n
               \<and> dt_broadcast_id r = Some bc \<and> bc \<notin> lb_broadcast_id ` set on_air)))"
proof (cases rule: tick_cases [of \<phi> fr prov mode now w])
  case (err e v)
  then show ?thesis by (simp add: Let_def)
next
  case (body rep v)
  let ?ns = "load_nodes_rows (world_db w)" and ?ds = "load_all_rows (world_db w)"
  define torn where "torn = (if mode = Off then filter is_reapable_now ?ns
    else case live_broadcasts (fr_census fr) of Inl e \<Rightarrow> []
      | Inr l \<Rightarrow> ended_nodes ?ds (set (map lb_broadcast_id l)) ?ns)"
  have env: "re_provider (world_env (snd (tick \<phi> fr prov mode now w)))
      = re_provider (world_env (snd (tear_down_all \<phi> prov torn rep v)))"
    unfolding body(1) snd_conv
    by (auto simp: tick_body_def render_tfvars_keeps split_beta torn_def plan_all_env [OF assms(2)] body
        split: sum.splits)
  note run = provider_contract.tear_down_all_running [OF assms(1), of \<phi> torn rep v, unfolded body(3), folded env]
  show ?thesis unfolding Let_def
  proof (intro conjI ballI)
    show "running (re_provider (world_env (snd (tick \<phi> fr prov mode now w)))) \<subseteq> running (re_provider (world_env w))"
      using run by blast
    fix i assume "i \<in> running (re_provider (world_env w)) - running (re_provider (world_env (snd (tick \<phi> fr prov mode now w))))"
    then obtain n where n: "n \<in> set torn" "on_provider_id n = Some i" using run by blast
    show "\<exists>n \<in> set (fleet_nodes (world_db w)). nt_ownership n = ''rented'' \<and> nt_state n \<noteq> ''gone''
          \<and> nt_provider_id n = Some i
          \<and> (mode \<noteq> Off \<longrightarrow> (\<exists>on_air r bc. live_broadcasts (fr_census fr) = Inr on_air
               \<and> r \<in> set (fleet_desired (world_db w)) \<and> dt_mm_node_id r = nt_mm_node_id n
               \<and> dt_broadcast_id r = Some bc \<and> bc \<notin> lb_broadcast_id ` set on_air))"
    proof (cases "mode = Off")
      case True
      with n have "n \<in> set ?ns" "is_reapable_now n" by (simp_all add: torn_def)
      from reapable_row [OF this(1) n(2) this(2)] True show ?thesis by blast
    next
      case False
      then obtain l where l: "live_broadcasts (fr_census fr) = Inr l"
        "n \<in> set (ended_nodes ?ds (set (map lb_broadcast_id l)) ?ns)"
        using n by (cases "live_broadcasts (fr_census fr)") (simp_all add: torn_def)
      from ended_nodes_mem [OF l(2)] have e: "n \<in> set ?ns" "is_reapable_now n"
        "\<exists>r \<in> set (fleet_desired (world_db w)). dt_mm_node_id r = on_mm_node_id n
          \<and> (\<exists>bc. dt_broadcast_id r = Some bc \<and> bc \<notin> lb_broadcast_id ` set l)" by simp_all
      from reapable_row [OF e(1) n(2) e(2)] e(3) l(1) show ?thesis by metis
    qed
  qed
qed

theorem tick_destroys_only_witness:
  "running_ids (re_provider (world_env (snd (tick no_faults
      \<lparr>fr_census = \<lparr>live_broadcasts = Inr [], programme_is_live = (\<lambda>_. Inr True)\<rparr>,
       fr_billing = no_billing_yet, fr_policy = conservative ''r'' ''s'', fr_tfvars = None,
       fr_codec = empty_codec\<rparr> (dry_run 0) On 0
      ((empty_db, \<lparr>re_provider = seed [''i-1''] dry_run_new,
         re_file = \<lparr>tf_current = None, tf_tmp = None\<rparr>, re_timed = {}\<rparr>), 0))))) = {''i-1''}"
proof -
  let ?fr = "\<lparr>fr_census = \<lparr>live_broadcasts = Inr [], programme_is_live = (\<lambda>_. Inr True)\<rparr>,
       fr_billing = no_billing_yet, fr_policy = conservative ''r'' ''s'', fr_tfvars = None,
       fr_codec = empty_codec\<rparr> :: dry_run_state fleet_runner"
  let ?w = "((empty_db, \<lparr>re_provider = seed [''i-1''] dry_run_new,
         re_file = \<lparr>tf_current = None, tf_tmp = None\<rparr>, re_timed = {}\<rparr>), 0)"
  have b: "billing_source (fr_billing ?fr)" by (simp add: no_billing.billing_source_axioms)
  have e: "fleet_nodes (world_db ?w) = []" by (simp add: empty_db_def)
  have s: "running_ids (re_provider (world_env ?w)) = {''i-1''}"
    by (simp add: running_ids_def seed_def seed_created_at_def dry_run_new_def)
  show ?thesis
    using tick_destroys_only [OF dry.provider_contract_axioms [of 0] b, of no_faults On 0 ?w]
    unfolding Let_def e s by auto
qed

section \<open>What planning does to nodes that are not live fan-out\<close>

lemma load_nodes_rows_distinct:
  assumes "fleet_wf d"
  shows "distinct (map on_mm_node_id (load_nodes_rows d))"
proof -
  let ?L = "load_nodes_rows d" and ?S = "sort_key nt_mm_node_id (fleet_nodes d)"
  have l: "map Some ?L = map parse_node ?S" using load_nodes_lossless [OF assms] .
  then have len: "length ?L = length ?S" by (metis length_map)
  have "map on_mm_node_id ?L = map nt_mm_node_id ?S"
  proof (rule nth_equalityI)
    fix i assume i: "i < length (map on_mm_node_id ?L)"
    then have "parse_node (?S ! i) = Some (?L ! i)" using l len by (metis length_map nth_map)
    from parse_node_facts(6) [OF this] show "map on_mm_node_id ?L ! i = map nt_mm_node_id ?S ! i"
      using i len by simp
  qed (simp add: len)
  moreover have "distinct (map nt_mm_node_id (fleet_nodes d))" using assms by (simp add: fleet_wf_def)
  then have "distinct (map nt_mm_node_id ?S)" by (simp add: distinct_map)
  ultimately show ?thesis by simp
qed

definition obs_of :: "live_broadcast \<Rightarrow> bool \<Rightarrow> broadcast_billing \<Rightarrow> observed_node list \<Rightarrow> fleet_observation" where
  "obs_of bc on_air billing nodes =
     \<lparr>fo_broadcast_id = lb_broadcast_id bc, fo_programme_is_live = on_air,
      fo_transcode_enabled = bb_transcode_enabled billing, viewers_projected = lb_viewers bc,
      available_balance_minor = bb_available_balance_minor billing,
      projected_cost_minor = bb_projected_cost_minor billing,
      fo_nodes = nodes_for_broadcast nodes (lb_broadcast_id bc)\<rparr>"

lemma plan_one_Inr:
  assumes "fst (plan_one \<phi> fr bc nodes now w) = Inr ()" and "billing_source (fr_billing fr)"
    and "fleet_wf (world_db w)"
  shows "\<exists>on_air billing. desired_view (world_db (snd (plan_one \<phi> fr bc nodes now w)))
    = replace_spec (lb_broadcast_id bc) (plan (obs_of bc on_air billing nodes) (fr_policy fr)) now
        (db_now (world_db w)) (desired_view (world_db w))"
proof -
  obtain q w1 where q: "fr_billing fr (lb_broadcast_id bc) w = (q, w1)"
    by (cases "fr_billing fr (lb_broadcast_id bc) w")
  have w1: "fst w1 = fst w"
    using billing_source.quote_reads [OF assms(2), of "lb_broadcast_id bc" w] q by simp
  from assms(1) q obtain billing on_air where o: "q = Inr billing"
    "programme_is_live (fr_census fr) (lb_broadcast_id bc) = Inr on_air"
    by (cases q; cases "programme_is_live (fr_census fr) (lb_broadcast_id bc)")
      (auto simp: plan_one_def)
  let ?want = "plan (obs_of bc on_air billing nodes) (fr_policy fr)"
  have e: "plan_one \<phi> fr bc nodes now w =
      (case upsert_for_broadcast \<phi> (lb_broadcast_id bc) ?want now w1 of
         (Inl e, w2) \<Rightarrow> (Inl (''writing the desired set failed: '' @ store_error_text e), w2)
       | (Inr _, w2) \<Rightarrow> (Inr (), w2))"
    by (simp add: plan_one_def q o obs_of_def)
  with assms(1) have u: "fst (upsert_for_broadcast \<phi> (lb_broadcast_id bc) ?want now w1) = Inr ()"
    by (auto split: prod.splits sum.splits)
  have "snd (plan_one \<phi> fr bc nodes now w) = snd (upsert_for_broadcast \<phi> (lb_broadcast_id bc) ?want now w1)"
    unfolding e by simp
  with upsert_Inr [OF u] w1 assms(3) show ?thesis by metis
qed

lemma transcode_not_planned:
  assumes "has_transcode_node obs"
    and "\<forall>n \<in> set (fo_nodes obs). fn_id n = transcode_id (fo_broadcast_id obs) \<longrightarrow> fn_flavor n \<noteq> Fanout"
  shows "transcode_id (fo_broadcast_id obs) \<notin> dn_mm_node_id ` set (plan obs p)"
proof -
  have "transcode_id b \<noteq> fanout_prefix b @ s" for b s
    by (simp add: transcode_id_def fanout_prefix_def)
  then have push: "d \<in> set (push_fanout b p k n) \<Longrightarrow> dn_mm_node_id d \<noteq> transcode_id b" for d b k n
    by (induction k arbitrary: n) (auto simp: desired_fanout_def dest: sym)
  have "d \<in> set (kept obs p) \<Longrightarrow> dn_mm_node_id d \<noteq> transcode_id (fo_broadcast_id obs)" for d
    using assms(2) by (auto simp: kept_def desired_keep_def live_fanout_nodes_def)
  then show ?thesis using push assms(1)
    by (cases "gates_open obs") (force simp: plan_open plan_closed added_def)+
qed

lemma plan_one_no_faults:
  assumes "fr_billing fr = (\<lambda>b w. (Inr billing, w))" and "programme_is_live (fr_census fr) = (\<lambda>b. Inr on_air)"
  shows "fst (plan_one no_faults fr bc nodes now w) = Inr ()"
proof -
  let ?want = "plan (obs_of bc on_air billing nodes) (fr_policy fr)"
  have "fst (replace_desired (lb_broadcast_id bc) ?want now (world_db w)) = Inr ()"
    by (rule replace_desired_valid) (rule plan_rows_valid)
  then show ?thesis
    by (simp add: plan_one_def assms upsert_for_broadcast_def obs_of_def [symmetric] plan_rows_valid)
qed

text \<open>A runner that can always pay, and one node of broadcast \<^verbatim>\<open>b\<close> with a given id, flavor and state.\<close>

definition demo_runner :: "dry_run_state fleet_runner" where
  "demo_runner =
     \<lparr>fr_census = \<lparr>live_broadcasts = Inr [\<lparr>lb_broadcast_id = ''b'', lb_viewers = 9\<rparr>],
        programme_is_live = (\<lambda>_. Inr True)\<rparr>,
      fr_billing = (\<lambda>b w. (Inr \<lparr>bb_available_balance_minor = 100, bb_projected_cost_minor = 10,
        bb_transcode_enabled = True\<rparr>, w)),
      fr_policy = conservative ''r'' ''s'', fr_tfvars = None, fr_codec = empty_codec\<rparr>"

definition demo_node :: "string \<Rightarrow> node_flavor \<Rightarrow> node_state \<Rightarrow> node_tuple" where
  "demo_node i fl st = \<lparr>nt_mm_node_id = i, nt_flavor = flavor_as_str fl, nt_ownership = ''rented'',
     nt_provider = ''dry-run'', nt_provider_id = Some ''i-1'', nt_state = state_as_str st,
     nt_viewer_capacity = None, nt_viewers_current = 0, nt_billing_started_at = Some 0,
     nt_renewal_due_at = None, nt_destroy_deadline = Some 0\<rparr>"

definition demo_row :: "string \<Rightarrow> node_flavor \<Rightarrow> desired_tuple" where
  "demo_row i fl = \<lparr>dt_mm_node_id = i, dt_flavor = flavor_as_str fl, dt_ownership = ''rented'',
     dt_region = ''r'', dt_size = ''s'', dt_broadcast_id = Some ''b'', dt_requested_at = 0,
     dt_destroy_deadline = Some 0\<rparr>"

definition demo_world :: "node_tuple list \<Rightarrow> desired_tuple list \<Rightarrow> dry_run_state runner_env dbenv" where
  "demo_world ns ds = ((empty_db\<lparr>fleet_nodes := ns, fleet_desired := ds\<rparr>,
     \<lparr>re_provider = dry_run_new, re_file = \<lparr>tf_current = None, tf_tmp = None\<rparr>, re_timed = {}\<rparr>), 0)"

definition demo_observed :: "string \<Rightarrow> node_flavor \<Rightarrow> node_state \<Rightarrow> observed_node" where
  "demo_observed i fl st = \<lparr>on_mm_node_id = i, on_flavor = fl, on_ownership = Rented, on_state = st,
     on_provider_id = Some ''i-1'', on_destroy_deadline = Some 0, on_billing_started_at = Some 0,
     on_viewer_capacity = 0, on_viewers_current = 0\<rparr>"

lemma demo_rows: "load_nodes_rows (world_db (demo_world [demo_node i fl st] ds)) = [demo_observed i fl st]"
  by (simp add: load_nodes_rows_def demo_world_def demo_node_def demo_observed_def List.map_filter_def
      parse_node_def flavor_wire.parse_as_str state_wire.parse_as_str ownership_parse_def i32_clamp_u32_def)

lemma demo_wf:
  "fleet_wf (world_db (demo_world [demo_node i fl st] []))"
  "fleet_wf (world_db (demo_world [demo_node i fl st] [demo_row j f']))"
  by (simp_all add: fleet_wf_def demo_world_def node_checks_def demo_node_def desired_checks_def demo_row_def
      ownership_labels_def)

lemma demo_billing: "billing_source (fr_billing demo_runner)"
  by unfold_locales (simp add: demo_runner_def)

lemma demo_planned: "fst (plan_one no_faults demo_runner bc ns now w) = Inr ()"
  by (rule plan_one_no_faults) (simp_all add: demo_runner_def)

text \<open>C31: Planning a broadcast removes its live transcode node from the desired set. A successful
  pass over a broadcast that has a transcode node, in any state but gone, deletes that node's
  desired row, because the planner keeps only fan-out nodes and does not plan a second
  transcode node; the next apply then destroys the machine. This is against the planner's own comment, that
  everything that already exists is desired in every branch, and the runner's list of teardown paths.\<close>

theorem live_transcode_dropped:
  assumes "fleet_wf (world_db w)" and "billing_source (fr_billing fr)"
    and "n \<in> set (load_nodes_rows (world_db w))" and "on_mm_node_id n = transcode_id (lb_broadcast_id bc)"
    and "on_flavor n = Transcode" and "on_state n \<noteq> Gone"
    and "desired_view (world_db w) (transcode_id (lb_broadcast_id bc)) = Some r"
    and "dt_broadcast_id r = Some (lb_broadcast_id bc)"
    and "fst (plan_one \<phi> fr bc (load_nodes_rows (world_db w)) now w) = Inr ()"
  shows "desired_view (world_db (snd (plan_one \<phi> fr bc (load_nodes_rows (world_db w)) now w)))
    (transcode_id (lb_broadcast_id bc)) = None"
proof -
  let ?ns = "load_nodes_rows (world_db w)" and ?b = "lb_broadcast_id bc"
  obtain on_air billing where v: "desired_view (world_db (snd (plan_one \<phi> fr bc ?ns now w)))
    = replace_spec ?b (plan (obs_of bc on_air billing ?ns) (fr_policy fr)) now
        (db_now (world_db w)) (desired_view (world_db w))"
    using plan_one_Inr [OF assms(9,2,1)] by blast
  let ?o = "obs_of bc on_air billing ?ns"
  have pre: "starts_with (transcode_id ?b) (''bc-'' @ ?b @ ''-'')"
    unfolding starts_with_iff transcode_id_def by simp
  have m: "observed_to_fleet_node n \<in> set (fo_nodes ?o)"
    using assms(3,4) pre by (simp add: obs_of_def nodes_for_broadcast_def)
  have has: "has_transcode_node ?o" unfolding has_transcode_node_def list_ex_iff
    by (rule bexI [OF _ m]) (simp add: observed_to_fleet_node_def assms(5,6))
  have uniq: "m \<in> set ?ns \<Longrightarrow> on_mm_node_id m = transcode_id ?b \<Longrightarrow> m = n" for m
    using load_nodes_rows_distinct [OF assms(1)] assms(3,4) by (auto simp: distinct_map inj_on_def)
  have "transcode_id (fo_broadcast_id ?o) \<notin> dn_mm_node_id ` set (plan ?o (fr_policy fr))"
    by (rule transcode_not_planned [OF has])
      (use uniq assms(5) in \<open>auto simp: obs_of_def nodes_for_broadcast_def observed_to_fleet_node_def\<close>)
  then have "transcode_id ?b \<notin> dn_mm_node_id ` set (plan ?o (fr_policy fr))"
    by (simp add: obs_of_def)
  then show ?thesis unfolding v replace_spec_def using assms(7,8) by simp
qed

theorem live_transcode_dropped_witness:
  "let w = demo_world [demo_node (transcode_id ''b'') Transcode Healthy] [demo_row (transcode_id ''b'') Transcode];
       bc = \<lparr>lb_broadcast_id = ''b'', lb_viewers = 9\<rparr>
   in desired_view (world_db (snd (plan_one no_faults demo_runner bc (load_nodes_rows (world_db w)) 0 w)))
        (transcode_id ''b'') = None"
proof -
  let ?w = "demo_world [demo_node (transcode_id ''b'') Transcode Healthy] [demo_row (transcode_id ''b'') Transcode]"
  let ?bc = "\<lparr>lb_broadcast_id = ''b'', lb_viewers = 9\<rparr>"
  have v: "desired_view (world_db ?w) (transcode_id (lb_broadcast_id ?bc)) = Some (demo_row (transcode_id ''b'') Transcode)"
    by (simp add: desired_view_def demo_world_def lookup_row_def demo_row_def)
  have n: "demo_observed (transcode_id ''b'') Transcode Healthy \<in> set (load_nodes_rows (world_db ?w))"
    by (simp add: demo_rows)
  have b: "dt_broadcast_id (demo_row (transcode_id ''b'') Transcode) = Some (lb_broadcast_id ?bc)"
    by (simp add: demo_row_def)
  show ?thesis
    using live_transcode_dropped [OF demo_wf(2) demo_billing n _ _ _ v b demo_planned, of 0]
    by (simp add: Let_def demo_observed_def)
qed

lemma find_rev_exists: "k \<in> f ` set xs \<Longrightarrow> \<exists>x. find (\<lambda>x. f x = k) (rev xs) = Some x \<and> x \<in> set xs"
proof (cases "find (\<lambda>x. f x = k) (rev xs)")
  case None
  then show "k \<in> f ` set xs \<Longrightarrow> ?thesis" by (auto simp: find_None_iff)
next
  case (Some x)
  have "find P ys = Some x \<Longrightarrow> x \<in> set ys" for P ys by (induction ys) (auto split: if_splits)
  with Some show ?thesis by fastforce
qed

text \<open>C32: Planning resurrects a node whose teardown failed. A fan-out node left in \<^verbatim>\<open>destroying\<close> by a
  provider failure has no desired row, by the store's rule that a failed teardown must not be
  undone; a successful planning pass over its broadcast gives it one again, the very creation that the
  comment on the store's teardown rules out.\<close>

theorem failed_teardown_resurrected:
  assumes "fleet_wf (world_db w)" and "billing_source (fr_billing fr)"
    and "n \<in> set (load_nodes_rows (world_db w))"
    and "starts_with (on_mm_node_id n) (''bc-'' @ lb_broadcast_id bc @ ''-'')"
    and "on_flavor n = Fanout" and "on_state n = Destroying"
    and "fst (plan_one \<phi> fr bc (load_nodes_rows (world_db w)) now w) = Inr ()"
  shows "\<exists>r. desired_view (world_db (snd (plan_one \<phi> fr bc (load_nodes_rows (world_db w)) now w)))
    (on_mm_node_id n) = Some r \<and> dt_broadcast_id r = Some (lb_broadcast_id bc)"
proof -
  let ?ns = "load_nodes_rows (world_db w)"
  obtain on_air billing where v: "desired_view (world_db (snd (plan_one \<phi> fr bc ?ns now w)))
    = replace_spec (lb_broadcast_id bc) (plan (obs_of bc on_air billing ?ns) (fr_policy fr)) now
        (db_now (world_db w)) (desired_view (world_db w))"
    using plan_one_Inr [OF assms(7,2,1)] by blast
  let ?o = "obs_of bc on_air billing ?ns" and ?p = "fr_policy fr"
  have "observed_to_fleet_node n \<in> set (live_fanout_nodes ?o)"
    using assms(3-6) by (auto simp: live_fanout_nodes_def obs_of_def nodes_for_broadcast_def observed_to_fleet_node_def)
  then have k: "desired_keep (observed_to_fleet_node n) (fo_broadcast_id ?o) ?p \<in> set (plan ?o ?p)"
    by (cases "gates_open ?o") (auto simp: plan_open plan_closed kept_def)
  then have i: "on_mm_node_id n \<in> dn_mm_node_id ` set (plan ?o ?p)"
    by (rule rev_image_eqI) (simp add: desired_keep_def observed_to_fleet_node_def)
  have b: "\<forall>d \<in> set (plan ?o ?p). dn_broadcast_id d = lb_broadcast_id bc"
    using added_mem [of _ ?o ?p]
    by (cases "gates_open ?o") (auto simp: plan_open plan_closed kept_def desired_keep_def desired_transcode_def obs_of_def)
  obtain d where d: "find (\<lambda>d. dn_mm_node_id d = on_mm_node_id n) (rev (plan ?o ?p)) = Some d"
    "d \<in> set (plan ?o ?p)"
    using find_rev_exists [OF i] by blast
  with i b show ?thesis unfolding v replace_spec_def desired_after_def by (simp add: desired_insert_def)
qed

theorem failed_teardown_resurrected_witness:
  "let w = demo_world [demo_node ''bc-b-fanout-0'' Fanout Destroying] [];
       bc = \<lparr>lb_broadcast_id = ''b'', lb_viewers = 9\<rparr>
   in desired_view (world_db w) ''bc-b-fanout-0'' = None
    \<and> desired_view (world_db (snd (plan_one no_faults demo_runner bc (load_nodes_rows (world_db w)) 0 w)))
        ''bc-b-fanout-0'' \<noteq> None"
proof -
  let ?w = "demo_world [demo_node ''bc-b-fanout-0'' Fanout Destroying] []"
  let ?bc = "\<lparr>lb_broadcast_id = ''b'', lb_viewers = 9\<rparr>"
  have n: "demo_observed ''bc-b-fanout-0'' Fanout Destroying \<in> set (load_nodes_rows (world_db ?w))"
    by (simp add: demo_rows)
  have "desired_view (world_db ?w) ''bc-b-fanout-0'' = None"
    by (simp add: desired_view_def demo_world_def lookup_row_def)
  then show ?thesis
    using failed_teardown_resurrected [OF demo_wf(1) demo_billing n _ _ _ demo_planned, of ?bc 0]
    by (auto simp: Let_def demo_observed_def starts_with_def)
qed

end
