(* ===== verification/Wallet.thy ===== *)
theory Wallet
  imports Database "HOL-Library.Sublist"
begin

text \<open>
  The prepaid broadcaster wallet: \<^verbatim>\<open>crates/mm-db/src/wallet_db.rs\<close> over the tables, the
  constraints and the trigger of \<^verbatim>\<open>V035__broadcaster_wallet.sql\<close>. An insert into the ledger
  checks, in PostgreSQL's order, the row's \<^verbatim>\<open>CHECK\<close>s, the unique idempotency key, the foreign
  key to the wallet and its currency, and then runs the trigger that moves the balance, whose
  own \<^verbatim>\<open>CHECK\<close>s can still refuse the insert as a whole.

  Shown: over every run of wallet operations, under any faults, a wallet's balance is the sum
  of its ledger and stays within its credit limit, and the ledger only grows; a charge retried
  any number of times moves the money at most once; and what every branch of a charge answers.
\<close>

section \<open>Types\<close>

datatype wallet_error =
    InsufficientFunds string int
  | NoWallet string
  | CurrencyMismatch string string string
  | WalletDb string

fun wallet_error_text :: "wallet_error \<Rightarrow> string" where
  "wallet_error_text (InsufficientFunds u a) =
     ''insufficient funds: charging '' @ show_int a @ '' would breach the credit limit for '' @ u"
| "wallet_error_text (NoWallet u) = ''no wallet for '' @ u"
| "wallet_error_text (CurrencyMismatch u held attempted) =
     ''currency mismatch: '' @ attempted @ '' charged against a '' @ held @ '' wallet for '' @ u"
| "wallet_error_text (WalletDb e) = ''database error: '' @ e"

record wallet =
  w_user_id :: string
  w_currency :: string
  w_balance_minor :: int
  w_credit_limit_minor :: int
  w_updated_at :: instant

definition spendable_minor :: "wallet \<Rightarrow> int" where
  "spendable_minor w = wrap_i64 (w_balance_minor w + w_credit_limit_minor w)"

datatype charge_outcome = Applied | AlreadyApplied

section \<open>Statements\<close>

definition find_wallet :: "string \<Rightarrow> db \<Rightarrow> wallet_row option" where
  "find_wallet u d = lookup_row wr_user_id u (wallets d)"

definition insert_wallet :: "string \<Rightarrow> string \<Rightarrow> int \<Rightarrow> unit query" where
  "insert_wallet u c l d =
     (let r = \<lparr>wr_user_id = u, wr_currency = c, wr_balance_minor = 0, wr_credit_limit_minor = l,
               wr_updated_at = db_now d, wr_rating_blocked_at = None\<rparr> in
      case wallet_checks r of Some k \<Rightarrow> (Inl (Violates k), d)
      | None \<Rightarrow> if find_wallet u d = None then (Inr (), d\<lparr>wallets := wallets d @ [r]\<rparr>) else (Inr (), d))"

text \<open>The trigger \<^verbatim>\<open>mm_wallet_apply_transaction\<close>.\<close>

definition apply_transaction :: "wallet_tx \<Rightarrow> unit query" where
  "apply_transaction t d =
     (case find_wallet (wt_user_id t) d of
        None \<Rightarrow> (Inl (Failed (''no wallet for user '' @ wt_user_id t)), d)
      | Some r \<Rightarrow>
          let r' = r\<lparr>wr_balance_minor := wr_balance_minor r + wt_amount_minor t, wr_updated_at := db_now d\<rparr> in
          if \<not> in_i64 (wr_balance_minor r') then (Inl (Failed ''bigint out of range''), d)
          else case wallet_checks r' of Some k \<Rightarrow> (Inl (Violates k), d)
          | None \<Rightarrow> (Inr (), d\<lparr>wallets := map (\<lambda>x. if wr_user_id x = wt_user_id t then r' else x) (wallets d)\<rparr>))"

definition insert_transaction :: "wallet_tx \<Rightarrow> unit query" where
  "insert_transaction t d =
     (case tx_checks t of Some k \<Rightarrow> (Inl (Violates k), d)
      | None \<Rightarrow>
          if wt_idempotency_key t \<in> wt_idempotency_key ` set (wallet_transactions d)
          then (Inl (Violates ''wallet_tx_idempotency_unique''), d)
          else if (wt_user_id t, wt_currency t) \<notin> (\<lambda>r. (wr_user_id r, wr_currency r)) ` set (wallets d)
          then (Inl (Violates ''wallet_tx_currency_matches_wallet''), d)
          else case apply_transaction t (d\<lparr>wallet_transactions := wallet_transactions d @ [t\<lparr>wt_id := wallet_tx_next d\<rparr>],
                                           wallet_tx_next := wallet_tx_next d + 1\<rparr>) of
            (Inl e, _) \<Rightarrow> (Inl e, d) | (Inr u, d') \<Rightarrow> (Inr u, d'))"

section \<open>Operations\<close>

definition create_wallet :: "schedule \<Rightarrow> string \<Rightarrow> string \<Rightarrow> int \<Rightarrow> 'x dbenv \<Rightarrow> (wallet_error + unit) \<times> 'x dbenv" where
  "create_wallet \<phi> u c l w =
     (case sql \<phi> (insert_wallet u c l) w of
        (Inl e, w1) \<Rightarrow> (Inl (WalletDb (sql_text e)), w1)
      | (Inr _, w1) \<Rightarrow> (Inr (), w1))"

definition wallet_of :: "wallet_row \<Rightarrow> wallet" where
  "wallet_of r = \<lparr>w_user_id = wr_user_id r, w_currency = wr_currency r, w_balance_minor = wr_balance_minor r,
     w_credit_limit_minor = wr_credit_limit_minor r, w_updated_at = wr_updated_at r\<rparr>"

definition get_wallet :: "schedule \<Rightarrow> string \<Rightarrow> 'x dbenv \<Rightarrow> (wallet_error + wallet option) \<times> 'x dbenv" where
  "get_wallet \<phi> u w =
     (case sql \<phi> (reads (find_wallet u)) w of
        (Inl e, w1) \<Rightarrow> (Inl (WalletDb (sql_text e)), w1)
      | (Inr r, w1) \<Rightarrow> (Inr (map_option wallet_of r), w1))"

definition constraint_of :: "sql_error \<Rightarrow> string" where
  "constraint_of e = (case e of Violates k \<Rightarrow> k | Failed _ \<Rightarrow> [])"

definition held_currency :: "wallet_error + wallet option \<Rightarrow> string" where
  "held_currency r = (case r of Inr (Some v) \<Rightarrow> w_currency v | _ \<Rightarrow> ''<no wallet>'')"

definition classify :: "schedule \<Rightarrow> sql_error \<Rightarrow> string \<Rightarrow> string \<Rightarrow> int \<Rightarrow> 'x dbenv \<Rightarrow> wallet_error \<times> 'x dbenv" where
  "classify \<phi> e u c amount w =
     (let k = constraint_of e in
      if k = ''wallet_tx_idempotency_unique'' then (WalletDb ''__replay__'', w)
      else if k = ''wallet_within_credit_limit'' then (InsufficientFunds u amount, w)
      else if k = ''wallet_tx_currency_matches_wallet'' then
        (case get_wallet \<phi> u w of (r, w1) \<Rightarrow>
           let held = held_currency r in
           if held = ''<no wallet>'' then (NoWallet u, w1) else (CurrencyMismatch u held c, w1))
      else (WalletDb (sql_text e), w))"

definition movement_tx :: "string \<Rightarrow> string \<Rightarrow> string \<Rightarrow> int \<Rightarrow> string \<Rightarrow> string option \<Rightarrow> wallet_tx" where
  "movement_tx u c kind amount k b = \<lparr>wt_id = 0, wt_user_id = u, wt_currency = c, wt_kind = kind,
     wt_amount_minor = amount, wt_idempotency_key = k, wt_broadcast_id = b\<rparr>"

definition movement :: "schedule \<Rightarrow> string \<Rightarrow> string \<Rightarrow> string \<Rightarrow> int \<Rightarrow> string \<Rightarrow> string option \<Rightarrow>
    'x dbenv \<Rightarrow> (wallet_error + charge_outcome) \<times> 'x dbenv" where
  "movement \<phi> u c kind amount k b w =
     (case sql \<phi> (insert_transaction (movement_tx u c kind amount k b)) w of
        (Inr _, w1) \<Rightarrow> (Inr Applied, w1)
      | (Inl e, w1) \<Rightarrow> (case classify \<phi> e u c amount w1 of (x, w2) \<Rightarrow> (Inl x, w2)))"

definition deposit :: "schedule \<Rightarrow> string \<Rightarrow> string \<Rightarrow> int \<Rightarrow> string \<Rightarrow> 'x dbenv \<Rightarrow>
    (wallet_error + charge_outcome) \<times> 'x dbenv" where
  "deposit \<phi> u c amount k = movement \<phi> u c ''deposit'' amount k None"

definition charge :: "schedule \<Rightarrow> string \<Rightarrow> string \<Rightarrow> int \<Rightarrow> string \<Rightarrow> string option \<Rightarrow> 'x dbenv \<Rightarrow>
    (wallet_error + charge_outcome) \<times> 'x dbenv" where
  "charge \<phi> u c amount k b w =
     (if amount \<le> 0 then (Inl (WalletDb (''charge amount must be positive, got '' @ show_int amount)), w)
      else movement \<phi> u c ''charge'' (- amount) k b w)"

definition refund :: "schedule \<Rightarrow> string \<Rightarrow> string \<Rightarrow> int \<Rightarrow> string \<Rightarrow> string option \<Rightarrow> 'x dbenv \<Rightarrow>
    (wallet_error + charge_outcome) \<times> 'x dbenv" where
  "refund \<phi> u c amount k b = movement \<phi> u c ''refund'' (wrap_i64 \<bar>amount\<bar>) k b"

definition treat_replay_as_success :: "wallet_error + charge_outcome \<Rightarrow> wallet_error + charge_outcome" where
  "treat_replay_as_success r =
     (case r of Inl (WalletDb msg) \<Rightarrow> if msg = ''__replay__'' then Inr AlreadyApplied else r | _ \<Rightarrow> r)"

section \<open>The ledger invariant\<close>

definition ledger_sum :: "string \<Rightarrow> wallet_tx list \<Rightarrow> int" where
  "ledger_sum u ts = sum_list (map wt_amount_minor (filter (\<lambda>t. wt_user_id t = u) ts))"

definition ledger_keys :: "db \<Rightarrow> string set" where
  "ledger_keys d = wt_idempotency_key ` set (wallet_transactions d)"

definition wallet_pairs :: "db \<Rightarrow> (string \<times> string) set" where
  "wallet_pairs d = (\<lambda>r. (wr_user_id r, wr_currency r)) ` set (wallets d)"

definition ledger_wf :: "db \<Rightarrow> bool" where
  "ledger_wf d \<longleftrightarrow>
     distinct (map wr_user_id (wallets d)) \<and> distinct (map wt_idempotency_key (wallet_transactions d))
   \<and> distinct (map wt_id (wallet_transactions d))
   \<and> (\<forall>t\<in>set (wallet_transactions d). wt_id t < wallet_tx_next d \<and> tx_checks t = None
        \<and> (wt_user_id t, wt_currency t) \<in> wallet_pairs d)
   \<and> (\<forall>r\<in>set (wallets d). wallet_checks r = None \<and> in_i64 (wr_balance_minor r)
        \<and> wr_balance_minor r = ledger_sum (wr_user_id r) (wallet_transactions d))"

definition moved :: "db \<Rightarrow> wallet_tx \<Rightarrow> wallet_row \<Rightarrow> wallet_row" where
  "moved d t r = r\<lparr>wr_balance_minor := wr_balance_minor r + wt_amount_minor t, wr_updated_at := db_now d\<rparr>"

definition posted :: "wallet_tx \<Rightarrow> wallet_row \<Rightarrow> db \<Rightarrow> db" where
  "posted t r d = d\<lparr>wallet_transactions := wallet_transactions d @ [t\<lparr>wt_id := wallet_tx_next d\<rparr>],
     wallet_tx_next := wallet_tx_next d + 1,
     wallets := map (\<lambda>x. if wr_user_id x = wt_user_id t then moved d t r else x) (wallets d)\<rparr>"

lemma insert_transaction_cases:
  obtains (refused) e where "insert_transaction t d = (Inl e, d)"
  | (accepted) r where "find_wallet (wt_user_id t) d = Some r" "wt_idempotency_key t \<notin> ledger_keys d"
      "tx_checks t = None" "(wt_user_id t, wt_currency t) \<in> wallet_pairs d"
      "in_i64 (wr_balance_minor (moved d t r))" "wallet_checks (moved d t r) = None"
      "insert_transaction t d = (Inr (), posted t r d)"
proof (cases "tx_checks t = None \<and> wt_idempotency_key t \<notin> ledger_keys d
    \<and> (wt_user_id t, wt_currency t) \<in> wallet_pairs d")
  case True
  let ?d = "d\<lparr>wallet_transactions := wallet_transactions d @ [t\<lparr>wt_id := wallet_tx_next d\<rparr>],
     wallet_tx_next := wallet_tx_next d + 1\<rparr>"
  have f: "find_wallet u ?d = find_wallet u d" for u by (simp add: find_wallet_def)
  have i: "insert_transaction t d = (case apply_transaction t ?d of (Inl e, _) \<Rightarrow> (Inl e, d) | (Inr u, d') \<Rightarrow> (Inr u, d'))"
    using True by (simp add: insert_transaction_def ledger_keys_def wallet_pairs_def)
  show ?thesis
  proof (cases "find_wallet (wt_user_id t) d")
    case None
    then show ?thesis using i f refused by (simp add: apply_transaction_def)
  next
    case (Some r)
    show ?thesis
    proof (cases "in_i64 (wr_balance_minor (moved d t r)) \<and> wallet_checks (moved d t r) = None")
      case True
      then have "insert_transaction t d = (Inr (), posted t r d)"
        using i f Some by (simp add: apply_transaction_def moved_def posted_def Let_def)
      with accepted Some True \<open>tx_checks t = None \<and> _\<close> show ?thesis by blast
    next
      case False
      then have "\<exists>e. apply_transaction t ?d = (Inl e, ?d)"
        using f Some by (auto simp: apply_transaction_def moved_def Let_def)
      then show ?thesis using i refused by auto
    qed
  qed
next
  case False
  then have "\<exists>e. insert_transaction t d = (Inl e, d)"
    unfolding insert_transaction_def ledger_keys_def wallet_pairs_def
    by (cases "tx_checks t"; cases "wt_idempotency_key t \<in> wt_idempotency_key ` set (wallet_transactions d)") auto
  then show ?thesis using refused by blast
qed

lemma ledger_sum_append [simp]: "ledger_sum u (ts @ [t]) = ledger_sum u ts + (if wt_user_id t = u then wt_amount_minor t else 0)"
  by (simp add: ledger_sum_def)

lemma find_wallet_mem: "find_wallet u d = Some r \<Longrightarrow> r \<in> set (wallets d) \<and> wr_user_id r = u"
  unfolding find_wallet_def by (rule lookup_row_Some_set)

lemma find_wallet_iff:
  "ledger_wf d \<Longrightarrow> find_wallet u d = Some r \<longleftrightarrow> r \<in> set (wallets d) \<and> wr_user_id r = u"
  unfolding find_wallet_def ledger_wf_def by (simp add: lookup_row_distinct)

lemma moved_simps [simp]:
  "wr_user_id (moved d t r) = wr_user_id r" "wr_currency (moved d t r) = wr_currency r"
  "wr_balance_minor (moved d t r) = wr_balance_minor r + wt_amount_minor t"
  "wr_credit_limit_minor (moved d t r) = wr_credit_limit_minor r"
  by (simp_all add: moved_def)

lemma posted_wallets:
  "wallets (posted t r d) = map (\<lambda>x. if wr_user_id x = wt_user_id t then moved d t r else x) (wallets d)"
  by (simp add: posted_def)

lemma posted_wf:
  assumes wf: "ledger_wf d" and r: "find_wallet (wt_user_id t) d = Some r"
    and k: "wt_idempotency_key t \<notin> ledger_keys d" and c: "tx_checks t = None"
    and p: "(wt_user_id t, wt_currency t) \<in> wallet_pairs d"
    and b: "in_i64 (wr_balance_minor (moved d t r))" "wallet_checks (moved d t r) = None"
  shows "ledger_wf (posted t r d)"
proof -
  let ?f = "\<lambda>x. if wr_user_id x = wt_user_id t then moved d t r else x"
  note m = find_wallet_mem [OF r]
  have u: "x = r" if "x \<in> set (wallets d)" "wr_user_id x = wt_user_id t" for x
    using that r find_wallet_iff [OF wf, of "wt_user_id t" x] by simp
  have ids: "map wr_user_id (map ?f (wallets d)) = map wr_user_id (wallets d)"
    using m by simp
  let ?p = "\<lambda>x. (wr_user_id x, wr_currency x)"
  have "?p (?f x) = ?p x" if "x \<in> set (wallets d)" for x
    using that u m by auto
  then have "map ?p (map ?f (wallets d)) = map ?p (wallets d)" by simp
  then have "set (map ?p (map ?f (wallets d))) = set (map ?p (wallets d))" by (simp only:)
  then have pairs: "wallet_pairs (posted t r d) = wallet_pairs d"
    by (simp only: wallet_pairs_def posted_wallets set_map)
  have "tx_checks (t\<lparr>wt_id := i\<rparr>) = tx_checks t" for i
    by (simp add: tx_checks_def)
  then have c': "tx_checks (t\<lparr>wt_id := i\<rparr>) = None" for i using c by simp
  have fresh: "wallet_tx_next d \<notin> wt_id ` set (wallet_transactions d)"
    using wf by (auto simp: ledger_wf_def)
  have txs: "\<forall>x\<in>set (wallet_transactions (posted t r d)). wt_id x < wallet_tx_next (posted t r d)
      \<and> tx_checks x = None \<and> (wt_user_id x, wt_currency x) \<in> wallet_pairs (posted t r d)"
    unfolding pairs using wf c' p by (auto simp: ledger_wf_def posted_def)
  have row: "wallet_checks (?f x) = None \<and> in_i64 (wr_balance_minor (?f x))
      \<and> wr_balance_minor (?f x) = ledger_sum (wr_user_id (?f x)) (wallet_transactions (posted t r d))"
    if x: "x \<in> set (wallets d)" for x
  proof (cases "wr_user_id x = wt_user_id t")
    case True
    with u x have "x = r" by blast
    then show ?thesis using True b x wf by (simp add: posted_def ledger_wf_def)
  next
    case False
    have "wallet_checks x = None \<and> in_i64 (wr_balance_minor x)
        \<and> wr_balance_minor x = ledger_sum (wr_user_id x) (wallet_transactions d)"
      using x wf unfolding ledger_wf_def by blast
    then show ?thesis using False by (auto simp: posted_def)
  qed
  have rows: "\<forall>x\<in>set (wallets (posted t r d)). wallet_checks x = None \<and> in_i64 (wr_balance_minor x)
      \<and> wr_balance_minor x = ledger_sum (wr_user_id x) (wallet_transactions (posted t r d))"
    unfolding posted_wallets set_map by (rule ballI, elim imageE, hypsubst, rule row)
  have "distinct (map wr_user_id (wallets (posted t r d)))"
    using ids wf by (simp add: posted_def ledger_wf_def del: map_map)
  moreover have "distinct (map wt_idempotency_key (wallet_transactions (posted t r d)))"
      "distinct (map wt_id (wallet_transactions (posted t r d)))"
    using wf k fresh by (simp_all add: posted_def ledger_wf_def ledger_keys_def)
  ultimately show ?thesis
    unfolding ledger_wf_def using txs rows by blast
qed

lemma insert_transaction_wf: "ledger_wf d \<Longrightarrow> ledger_wf (snd (insert_transaction t d))"
  by (rule insert_transaction_cases [of t d]) (auto intro: posted_wf)

lemma insert_wallet_wf: "ledger_wf d \<Longrightarrow> ledger_wf (snd (insert_wallet u c l d))"
proof -
  assume wf: "ledger_wf d"
  let ?r = "\<lparr>wr_user_id = u, wr_currency = c, wr_balance_minor = 0, wr_credit_limit_minor = l,
               wr_updated_at = db_now d, wr_rating_blocked_at = None\<rparr>"
  show ?thesis
  proof (cases "wallet_checks ?r = None \<and> find_wallet u d = None")
    case True
    then have "u \<notin> wr_user_id ` set (wallets d)" by (simp add: find_wallet_def lookup_row_None)
    then have "filter (\<lambda>t. wt_user_id t = u) (wallet_transactions d) = []"
      using wf by (force simp: ledger_wf_def wallet_pairs_def filter_empty_conv)
    then have "ledger_sum u (wallet_transactions d) = 0" by (simp add: ledger_sum_def)
    then show ?thesis using True wf \<open>u \<notin> _\<close>
      by (auto simp: insert_wallet_def ledger_wf_def wallet_pairs_def i64_defs Let_def)
  next
    case False
    then show ?thesis using wf by (auto simp: insert_wallet_def Let_def split: option.splits)
  qed
qed

interpretation ledger: idempotent_post "\<lambda>t d. snd (insert_transaction t d)" wt_idempotency_key ledger_keys
proof
  fix t :: wallet_tx and d :: db
  show "wt_idempotency_key t \<in> ledger_keys d \<Longrightarrow> snd (insert_transaction t d) = d"
    by (rule insert_transaction_cases [of t d]) auto
  show "snd (insert_transaction t d) = d
      \<or> ledger_keys (snd (insert_transaction t d)) = insert (wt_idempotency_key t) (ledger_keys d)"
    by (rule insert_transaction_cases [of t d]) (auto simp: ledger_keys_def posted_def)
qed

lemma insert_transaction_append:
  "prefix (wallet_transactions d) (wallet_transactions (snd (insert_transaction t d)))"
  by (rule insert_transaction_cases [of t d]) (auto simp: posted_def)

subsection \<open>Effects of the operations\<close>

lemma get_wallet_db [simp]: "fst (snd (get_wallet \<phi> u w)) = fst w"
  by (simp add: get_wallet_def)

lemma classify_db [simp]: "fst (snd (classify \<phi> e u c a w)) = fst w"
  by (simp add: classify_def Let_def split_beta)

lemma movement_db [simp]: "fst (snd (movement \<phi> u c kind a k b w)) =
   fst (snd (sql \<phi> (insert_transaction (movement_tx u c kind a k b)) w))"
  by (simp add: movement_def split_beta split: prod.split sum.split)

lemma movement_Applied: "fst (movement \<phi> u c kind a k b w) = Inr x \<longleftrightarrow>
   x = Applied \<and> fst (sql \<phi> (insert_transaction (movement_tx u c kind a k b)) w) = Inr ()"
  by (cases "sql \<phi> (insert_transaction (movement_tx u c kind a k b)) w"; cases x)
    (auto simp: movement_def split_beta split: sum.splits)

text \<open>No failure of the connection prints as the replay marker: the display form of every
  \<^verbatim>\<open>sqlx::Error\<close> that is not a database error has a prefix of its own.\<close>

definition no_replay_text :: "schedule \<Rightarrow> bool" where
  "no_replay_text \<phi> \<longleftrightarrow> (\<forall>n. \<phi> n \<noteq> FailsBefore ''__replay__'' \<and> \<phi> n \<noteq> FailsAfter ''__replay__'')"

lemma sql_Failed_replay:
  "no_replay_text \<phi> \<Longrightarrow> fst (sql \<phi> f w) = Inl (Failed ''__replay__'') \<Longrightarrow>
   fst (f (world_db w)) = Inl (Failed ''__replay__'')"
  by (cases "\<phi> (snd w)") (auto simp: sql_def db_call_def no_replay_text_def)

definition charge_once :: "schedule \<Rightarrow> string \<Rightarrow> string \<Rightarrow> int \<Rightarrow> string \<Rightarrow> string option \<Rightarrow> 'x dbenv \<Rightarrow>
    (wallet_error + charge_outcome) \<times> 'x dbenv" where
  "charge_once \<phi> u c amount k b w =
     (case charge \<phi> u c amount k b w of (r, w1) \<Rightarrow> (treat_replay_as_success r, w1))"

fun retries :: "nat \<Rightarrow> ('w \<Rightarrow> 'a \<times> 'w) \<Rightarrow> 'w \<Rightarrow> 'a list \<times> 'w" where
  "retries 0 f w = ([], w)"
| "retries (Suc n) f w =
     (case f w of (a, w1) \<Rightarrow> case retries n f w1 of (as, w2) \<Rightarrow> (a # as, w2))"

abbreviation charge_tx :: "string \<Rightarrow> string \<Rightarrow> int \<Rightarrow> string \<Rightarrow> string option \<Rightarrow> wallet_tx" where
  "charge_tx u c amount k b \<equiv> movement_tx u c ''charge'' (- amount) k b"

lemma movement_tx_simps [simp]:
  "wt_user_id (movement_tx u c kind a k b) = u" "wt_currency (movement_tx u c kind a k b) = c"
  "wt_kind (movement_tx u c kind a k b) = kind" "wt_amount_minor (movement_tx u c kind a k b) = a"
  "wt_idempotency_key (movement_tx u c kind a k b) = k" "wt_broadcast_id (movement_tx u c kind a k b) = b"
  by (simp_all add: movement_tx_def)

lemma charge_db: "0 < a \<Longrightarrow> world_db (snd (charge_once \<phi> u c a k b w)) =
   world_db (snd (sql \<phi> (insert_transaction (charge_tx u c a k b)) w))"
  by (simp add: charge_once_def charge_def split_beta)

lemma treat_replay_Inr: "treat_replay_as_success r = Inr x \<longleftrightarrow>
   r = Inr x \<or> (r = Inl (WalletDb ''__replay__'') \<and> x = AlreadyApplied)"
  by (auto simp: treat_replay_as_success_def split: sum.splits wallet_error.splits)

lemma charge_once_Applied: "fst (charge_once \<phi> u c a k b w) = Inr Applied \<longleftrightarrow>
   0 < a \<and> fst (sql \<phi> (insert_transaction (charge_tx u c a k b)) w) = Inr ()"
  by (auto simp: charge_once_def charge_def split_beta treat_replay_Inr movement_Applied)

lemma charge_Applied_new:
  assumes "fst (charge_once \<phi> u c a k b w) = Inr Applied"
  shows "k \<notin> ledger_keys (world_db w)" "k \<in> ledger_keys (world_db (snd (charge_once \<phi> u c a k b w)))"
proof -
  from assms have a: "0 < a" and s: "fst (sql \<phi> (insert_transaction (charge_tx u c a k b)) w) = Inr ()"
    by (simp_all add: charge_once_Applied)
  from sql_Inr [OF s] have i: "fst (insert_transaction (charge_tx u c a k b) (world_db w)) = Inr ()"
    and d: "world_db (snd (charge_once \<phi> u c a k b w)) = snd (insert_transaction (charge_tx u c a k b) (world_db w))"
    by (simp_all add: charge_db [OF a])
  from i obtain r where "k \<notin> ledger_keys (world_db w)"
    and "insert_transaction (charge_tx u c a k b) (world_db w) = (Inr (), posted (charge_tx u c a k b) r (world_db w))"
    by (cases rule: insert_transaction_cases [of "charge_tx u c a k b" "world_db w"]) auto
  then show "k \<notin> ledger_keys (world_db w)" "k \<in> ledger_keys (world_db (snd (charge_once \<phi> u c a k b w)))"
    by (simp_all add: d posted_def ledger_keys_def)
qed

lemma checks_names:
  "wallet_checks r = Some k \<Longrightarrow> k \<in> {''wallet_currency_is_iso4217_lower'', ''wallet_credit_limit_not_negative'',
     ''wallet_within_credit_limit''}"
  "tx_checks t = Some k \<Longrightarrow> k \<in> {''mm_wallet_transactions_kind_check'', ''wallet_tx_sign_matches_kind''}"
  by (auto simp: wallet_checks_def tx_checks_def split: if_splits)

lemma insert_transaction_refusal:
  assumes "fst (insert_transaction t d) = Inl e"
  shows "e = Violates ''wallet_tx_idempotency_unique'' \<Longrightarrow> wt_idempotency_key t \<in> ledger_keys d"
    and "e \<noteq> Failed ''__replay__''"
  using assms checks_names(2) [of t] checks_names(1)
  by (fastforce simp: insert_transaction_def apply_transaction_def ledger_keys_def Let_def
      split: option.splits if_splits prod.splits sum.splits)+

lemma classify_replay: "fst (classify \<phi> e u c a w) = WalletDb ''__replay__'' \<Longrightarrow>
   e = Violates ''wallet_tx_idempotency_unique'' \<or> e = Failed ''__replay__''"
  by (cases e) (auto simp: classify_def constraint_of_def Let_def split_beta split: if_splits)

lemma charge_once_success_known:
  assumes "no_replay_text \<phi>" and "fst (charge_once \<phi> u c a k b w) = Inr x" and "0 < a"
  shows "k \<in> ledger_keys (world_db (snd (charge_once \<phi> u c a k b w)))"
proof (cases x)
  case Applied
  then show ?thesis using assms(2) by (auto intro: charge_Applied_new)
next
  case AlreadyApplied
  let ?f = "insert_transaction (charge_tx u c a k b)"
  from assms(2,3) AlreadyApplied have m: "fst (movement \<phi> u c ''charge'' (- a) k b w) = Inl (WalletDb ''__replay__'')"
    by (auto simp: charge_once_def charge_def split_beta treat_replay_Inr movement_Applied)
  then obtain e where e: "fst (sql \<phi> ?f w) = Inl e" "fst (classify \<phi> e u c (- a) (snd (sql \<phi> ?f w))) = WalletDb ''__replay__''"
    by (auto simp: movement_def split_beta split: prod.splits sum.splits)
  show ?thesis
  proof (cases e)
    case (Violates n)
    with classify_replay [OF e(2)] have "fst (sql \<phi> ?f w) = Inl (Violates ''wallet_tx_idempotency_unique'')"
      using e(1) by simp
    from sql_Violates [OF this] insert_transaction_refusal(1) [of "charge_tx u c a k b" "world_db w"]
    have "k \<in> ledger_keys (world_db w)" by simp
    then have "world_db (snd (charge_once \<phi> u c a k b w)) = world_db w"
      using sql_db [of \<phi> ?f w] ledger.post_known [of "charge_tx u c a k b"] by (auto simp: charge_db [OF assms(3)])
    then show ?thesis using \<open>k \<in> _\<close> by simp
  next
    case (Failed n)
    with classify_replay [OF e(2)] have "fst (sql \<phi> ?f w) = Inl (Failed ''__replay__'')" using e(1) by simp
    from sql_Failed_replay [OF assms(1) this] insert_transaction_refusal(2) show ?thesis by blast
  qed
qed

lemma retries_inv: "(\<And>w. J w \<Longrightarrow> J (snd (f w))) \<Longrightarrow> J w \<Longrightarrow> J (snd (retries n f w))"
  by (induction n arbitrary: w) (auto simp: split_beta)

lemma charge_keys_grow:
  "0 < a \<Longrightarrow> ledger_keys (world_db w) \<subseteq> ledger_keys (world_db (snd (charge_once \<phi> u c a k b w)))"
  using sql_db [of \<phi> "insert_transaction (charge_tx u c a k b)" w]
    ledger.post_keys [of "charge_tx u c a k b" "world_db w"] by (auto simp: charge_db)

lemma retries_keys_grow:
  "0 < a \<Longrightarrow> ledger_keys (world_db w) \<subseteq> ledger_keys (world_db (snd (retries n (charge_once \<phi> u c a k b) w)))"
  by (rule retries_inv [where J = "\<lambda>w'. ledger_keys (world_db w) \<subseteq> ledger_keys (world_db w')"])
    (use charge_keys_grow in blast)+

lemma retries_Applied_once:
  assumes "0 < a"
  shows "length (filter (\<lambda>x. x = Inr Applied) (fst (retries n (charge_once \<phi> u c a k b) w)))
     \<le> (if k \<in> ledger_keys (world_db w) then 0 else 1)"
proof (induction n arbitrary: w)
  case (Suc n)
  let ?w = "snd (charge_once \<phi> u c a k b w)"
  note IH = Suc.IH [of ?w]
  show ?case
  proof (cases "fst (charge_once \<phi> u c a k b w) = Inr Applied")
    case True
    with charge_Applied_new [OF True] IH show ?thesis by (simp add: split_beta)
  next
    case False
    with IH charge_keys_grow [OF assms, of w \<phi> u c k b] show ?thesis
      by (auto simp: split_beta split: if_splits)
  qed
qed simp

lemma retries_success_known:
  assumes "no_replay_text \<phi>" and "0 < a"
  shows "Inr x \<in> set (fst (retries n (charge_once \<phi> u c a k b) w)) \<Longrightarrow>
    k \<in> ledger_keys (world_db (snd (retries n (charge_once \<phi> u c a k b) w)))"
proof (induction n arbitrary: w)
  case (Suc n)
  let ?w = "snd (charge_once \<phi> u c a k b w)"
  have "k \<in> ledger_keys (world_db ?w) \<Longrightarrow> k \<in> ledger_keys (world_db (snd (retries n (charge_once \<phi> u c a k b) ?w)))"
    using retries_keys_grow [OF assms(2), of ?w n \<phi> u c k b] by blast
  moreover have "Inr x = fst (charge_once \<phi> u c a k b w) \<Longrightarrow> k \<in> ledger_keys (world_db ?w)"
    by (rule charge_once_success_known [OF assms(1) _ assms(2)]) (rule sym)
  ultimately show ?case using Suc.IH [of ?w] Suc.prems by (auto simp: split_beta)
qed simp

lemma posted_find:
  assumes "ledger_wf d" and "find_wallet (wt_user_id t) d = Some r"
  shows "find_wallet v (posted t r d) = (if v = wt_user_id t then Some (moved d t r) else find_wallet v d)"
proof -
  let ?f = "\<lambda>x. if wr_user_id x = wt_user_id t then moved d t r else x"
  have m: "wr_user_id r = wt_user_id t" "wt_user_id t \<in> wr_user_id ` set (wallets d)"
    using find_wallet_mem [OF assms(2)] by force+
  have "find (\<lambda>x. wr_user_id x = v) (map ?f rs) =
      (if v = wt_user_id t then (if v \<in> wr_user_id ` set rs then Some (moved d t r) else None)
       else find (\<lambda>x. wr_user_id x = v) rs)" for rs
    using m(1) by (induction rs) auto
  then show ?thesis using m by (auto simp: find_wallet_def lookup_row_def posted_wallets)
qed

datatype wallet_op =
    CreateWallet string string int
  | Deposit string string int string
  | Charge string string int string "string option"
  | Refund string string int string "string option"

definition run_wallet_op :: "schedule \<Rightarrow> wallet_op \<Rightarrow> 'x dbenv \<Rightarrow> 'x dbenv" where
  "run_wallet_op \<phi> op w =
     (case op of CreateWallet u c l \<Rightarrow> snd (create_wallet \<phi> u c l w)
      | Deposit u c a k \<Rightarrow> snd (deposit \<phi> u c a k w)
      | Charge u c a k b \<Rightarrow> snd (charge \<phi> u c a k b w)
      | Refund u c a k b \<Rightarrow> snd (refund \<phi> u c a k b w))"

lemma movement_inv:
  "(\<And>t d. I d \<Longrightarrow> I (snd (insert_transaction t d))) \<Longrightarrow> I (world_db w) \<Longrightarrow>
   I (world_db (snd (movement \<phi> u c kind a k b w)))"
  by (simp add: sql_inv)

lemma run_wallet_op_inv:
  assumes "\<And>t d. I d \<Longrightarrow> I (snd (insert_transaction t d))" and "\<And>u c l d. I d \<Longrightarrow> I (snd (insert_wallet u c l d))"
    and "I (world_db w)"
  shows "I (world_db (run_wallet_op \<phi> op w))"
  using assms(1,3) movement_inv [OF assms(1,3)] sql_inv [OF assms(2,3)]
  by (auto simp: run_wallet_op_def create_wallet_def deposit_def charge_def refund_def simp del: movement_db
      split: wallet_op.split)

lemma insert_wallet_ledger: "wallet_transactions (snd (insert_wallet u c l d)) = wallet_transactions d"
  by (simp add: insert_wallet_def Let_def split: option.split)

interpretation wallet_run: invariant_system "run_wallet_op \<phi>"
    "\<lambda>w. ledger_wf (world_db w) \<and> prefix ts (wallet_transactions (world_db w))" for \<phi> ts
proof
  fix op :: wallet_op and w :: "'b dbenv"
  assume "ledger_wf (world_db w) \<and> prefix ts (wallet_transactions (world_db w))"
  then show "ledger_wf (world_db (run_wallet_op \<phi> op w)) \<and> prefix ts (wallet_transactions (world_db (run_wallet_op \<phi> op w)))"
    by (rule_tac run_wallet_op_inv [where I = "\<lambda>d. ledger_wf d \<and> prefix ts (wallet_transactions d)"])
      (auto simp: insert_transaction_wf insert_wallet_wf insert_wallet_ledger
        intro: prefix_order.trans [OF _ insert_transaction_append])
qed

section \<open>Properties\<close>

text \<open>C4: Whatever sequence of wallet operations runs, under any faults, every wallet's balance
  is the sum of its ledger rows and never below minus its credit limit, idempotency keys and row ids
  are unique, every row is in its wallet's currency with the sign of its kind, and no ledger
  row is ever changed or removed.\<close>

theorem wallet_ledger_invariant:
  assumes "ledger_wf (world_db w)"
  shows "let d = world_db (fold (run_wallet_op \<phi>) ops w) in ledger_wf d
     \<and> prefix (wallet_transactions (world_db w)) (wallet_transactions d)
     \<and> (\<forall>r\<in>set (wallets d). - wr_credit_limit_minor r \<le> wr_balance_minor r
           \<and> wr_balance_minor r = ledger_sum (wr_user_id r) (wallet_transactions d))"
proof -
  have "ledger_wf (world_db w) \<and> prefix (wallet_transactions (world_db w)) (wallet_transactions (world_db w))"
    using assms by simp
  from wallet_run.run_keeps [OF this, of \<phi> ops]
  have r: "ledger_wf (world_db (fold (run_wallet_op \<phi>) ops w))"
    "prefix (wallet_transactions (world_db w)) (wallet_transactions (world_db (fold (run_wallet_op \<phi>) ops w)))" by simp_all
  then have "\<forall>r\<in>set (wallets (world_db (fold (run_wallet_op \<phi>) ops w))). wallet_checks r = None
      \<and> wr_balance_minor r = ledger_sum (wr_user_id r) (wallet_transactions (world_db (fold (run_wallet_op \<phi>) ops w)))"
    unfolding ledger_wf_def by blast
  moreover have "wallet_checks x = None \<Longrightarrow> - wr_credit_limit_minor x \<le> wr_balance_minor x" for x
    by (auto simp: wallet_checks_def split: if_splits)
  ultimately show ?thesis using r unfolding Let_def by blast
qed

theorem wallet_ledger_invariant_witness:
  "let d = world_db (fold (run_wallet_op (\<lambda>n. if n = 2 then FailsAfter ''lost'' else Works))
         [CreateWallet ''u'' ''eur'' 5, Deposit ''u'' ''eur'' 10 ''k1'', Charge ''u'' ''eur'' 12 ''k2'' None,
          Charge ''u'' ''eur'' 12 ''k2'' None, Charge ''u'' ''eur'' 4 ''k3'' None] ((empty_db, ()), 0)) in
     ledger_wf d \<and> map wr_balance_minor (wallets d) = [-2] \<and> length (wallet_transactions d) = 2"
proof -
  let ?w = "fold (run_wallet_op (\<lambda>n. if n = 2 then FailsAfter ''lost'' else Works))
         [CreateWallet ''u'' ''eur'' 5, Deposit ''u'' ''eur'' 10 ''k1'', Charge ''u'' ''eur'' 12 ''k2'' None,
          Charge ''u'' ''eur'' 12 ''k2'' None, Charge ''u'' ''eur'' 4 ''k3'' None] ((empty_db, ()), 0)"
  have "ledger_wf (world_db ((empty_db, ()), 0))" by (simp add: ledger_wf_def empty_db_def)
  from wallet_ledger_invariant [OF this, where ops = "[CreateWallet ''u'' ''eur'' 5, Deposit ''u'' ''eur'' 10 ''k1'',
      Charge ''u'' ''eur'' 12 ''k2'' None, Charge ''u'' ''eur'' 12 ''k2'' None, Charge ''u'' ''eur'' 4 ''k3'' None]"
      and \<phi> = "\<lambda>n. if n = 2 then FailsAfter ''lost'' else Works"]
  have "ledger_wf (world_db ?w)" unfolding Let_def by blast
  moreover have "map wr_balance_minor (wallets (world_db ?w)) = [-2]" by code_simp
  moreover have "length (wallet_transactions (world_db ?w)) = 2" by code_simp
  ultimately show ?thesis unfolding Let_def by blast
qed

text \<open>C3: A charge that is retried any number of times moves the money at most once: whatever
  faults occur, the wallet either is as it was or has lost exactly the amount, with exactly one
  new ledger row for the key; no other wallet changes; at most one attempt answers that it
  applied the charge; and an attempt that answers success, applied now or before, means that the
  row is in the ledger.\<close>

theorem charge_retried_moves_money_once:
  assumes wf: "ledger_wf (world_db w)" and r: "find_wallet u (world_db w) = Some r" and a: "0 < a"
    and \<phi>: "no_replay_text \<phi>"
  shows "case retries n (charge_once \<phi> u c a k b) w of (as, w') \<Rightarrow>
      (\<exists>paid r'. find_wallet u (world_db w') = Some r'
         \<and> wr_balance_minor r' = wr_balance_minor r - (if paid then a else 0)
         \<and> (paid \<longrightarrow> k \<notin> ledger_keys (world_db w))
         \<and> wallet_transactions (world_db w') = wallet_transactions (world_db w) @
             (if paid then [(charge_tx u c a k b)\<lparr>wt_id := wallet_tx_next (world_db w)\<rparr>] else []))
    \<and> (\<forall>v. v \<noteq> u \<longrightarrow> find_wallet v (world_db w') = find_wallet v (world_db w))
    \<and> length (filter (\<lambda>x. x = Inr Applied) as) \<le> 1
    \<and> (\<forall>x. Inr x \<in> set as \<longrightarrow> k \<in> ledger_keys (world_db w'))"
proof -
  let ?R = "retries n (charge_once \<phi> u c a k b) w" and ?t = "charge_tx u c a k b" and ?d = "world_db w"
  have "world_db (snd ?R) \<in> {?d, snd (insert_transaction ?t ?d)}"
  proof (rule retries_inv [where J = "\<lambda>w'. world_db w' \<in> {?d, snd (insert_transaction ?t ?d)}"])
    fix w' :: "'a dbenv" assume "world_db w' \<in> {?d, snd (insert_transaction ?t ?d)}"
    from ledger.sql_once [OF refl this, of \<phi>]
    show "world_db (snd (charge_once \<phi> u c a k b w')) \<in> {?d, snd (insert_transaction ?t ?d)}"
      by (simp only: charge_db [OF a])
  qed simp
  moreover have "snd (insert_transaction ?t ?d) \<in> (if k \<in> ledger_keys ?d then {?d} else {?d, posted ?t r ?d})"
    using r by (cases rule: insert_transaction_cases [of ?t ?d]) auto
  ultimately have "world_db (snd ?R) = ?d \<or> (k \<notin> ledger_keys ?d \<and> world_db (snd ?R) = posted ?t r ?d)"
    by (auto split: if_splits)
  then have state: "(\<exists>paid r'. find_wallet u (world_db (snd ?R)) = Some r'
         \<and> wr_balance_minor r' = wr_balance_minor r - (if paid then a else 0)
         \<and> (paid \<longrightarrow> k \<notin> ledger_keys ?d)
         \<and> wallet_transactions (world_db (snd ?R)) = wallet_transactions ?d @
             (if paid then [?t\<lparr>wt_id := wallet_tx_next ?d\<rparr>] else []))
    \<and> (\<forall>v. v \<noteq> u \<longrightarrow> find_wallet v (world_db (snd ?R)) = find_wallet v ?d)"
  proof
    assume "world_db (snd ?R) = ?d"
    then show ?thesis using r by auto
  next
    assume p: "k \<notin> ledger_keys ?d \<and> world_db (snd ?R) = posted ?t r ?d"
    have f: "find_wallet v (posted ?t r ?d) = (if v = u then Some (moved ?d ?t r) else find_wallet v ?d)" for v
      using posted_find [OF wf, of ?t r v] r by simp
    have "wallet_transactions (posted ?t r ?d) = wallet_transactions ?d @ [?t\<lparr>wt_id := wallet_tx_next ?d\<rparr>]"
      by (simp add: posted_def)
    with p f show ?thesis by (intro conjI exI [of _ True] exI [of _ "moved ?d ?t r"]) simp_all
  qed
  have "length (filter (\<lambda>x. x = Inr Applied) (fst ?R)) \<le> 1"
    using retries_Applied_once [OF a, of n \<phi> u c k b w] by (auto split: if_splits)
  moreover have "\<forall>x. Inr x \<in> set (fst ?R) \<longrightarrow> k \<in> ledger_keys (world_db (snd ?R))"
    using retries_success_known [OF \<phi> a] by blast
  ultimately show ?thesis using state unfolding split_beta by blast
qed

theorem charge_retried_moves_money_once_witness:
  "case retries 3 (charge_once (\<lambda>n. if n = 2 then FailsAfter ''lost'' else Works) ''u'' ''eur'' 7 ''k2'' None)
     (fold (run_wallet_op no_faults) [CreateWallet ''u'' ''eur'' 0, Deposit ''u'' ''eur'' 10 ''k1''] ((empty_db, ()), 0)) of
     (as, w') \<Rightarrow> as = [Inl (WalletDb ''lost''), Inr AlreadyApplied, Inr AlreadyApplied]
       \<and> (\<exists>r'. find_wallet ''u'' (world_db w') = Some r' \<and> wr_balance_minor r' \<in> {10, 3})
       \<and> ''k2'' \<in> ledger_keys (world_db w')"
proof -
  let ?p = "\<lambda>n::nat. if n = 2 then FailsAfter ''lost'' else Works"
  let ?w = "fold (run_wallet_op no_faults) [CreateWallet ''u'' ''eur'' 0, Deposit ''u'' ''eur'' 10 ''k1''] ((empty_db, ()), 0)"
  have wf: "ledger_wf (world_db ?w)" by code_simp
  have r: "find_wallet ''u'' (world_db ?w) = Some \<lparr>wr_user_id = ''u'', wr_currency = ''eur'', wr_balance_minor = 10,
      wr_credit_limit_minor = 0, wr_updated_at = 0, wr_rating_blocked_at = None\<rparr>" by code_simp
  have "no_replay_text ?p" by (simp add: no_replay_text_def)
  from charge_retried_moves_money_once [OF wf r _ this, where a = 7 and n = 3 and c = "''eur''" and k = "''k2''" and b = None]
  have t: "case retries 3 (charge_once ?p ''u'' ''eur'' 7 ''k2'' None) ?w of (as, w') \<Rightarrow>
      (\<exists>r'. find_wallet ''u'' (world_db w') = Some r' \<and> wr_balance_minor r' \<in> {10, 3})
    \<and> (\<forall>x. Inr x \<in> set as \<longrightarrow> ''k2'' \<in> ledger_keys (world_db w'))"
    by (auto split: prod.splits if_splits)
  have "fst (retries 3 (charge_once ?p ''u'' ''eur'' 7 ''k2'' None) ?w) =
      [Inl (WalletDb ''lost''), Inr AlreadyApplied, Inr AlreadyApplied]" by code_simp
  with t show ?thesis unfolding split_beta by auto
qed

lemma charge_balance_range:
  assumes "ledger_wf d" and "find_wallet u d = Some r" and "0 < a"
  shows "in_i64 (wr_balance_minor r - a) \<longleftrightarrow> i64_min \<le> wr_balance_minor r - a"
    and "wallet_checks (moved d (charge_tx u c a k b) r) =
      (if wr_balance_minor r - a < - wr_credit_limit_minor r then Some ''wallet_within_credit_limit'' else None)"
proof -
  have "wallet_checks r = None" "in_i64 (wr_balance_minor r)"
    using find_wallet_mem [OF assms(2)] assms(1) unfolding ledger_wf_def by blast+
  then show "in_i64 (wr_balance_minor r - a) \<longleftrightarrow> i64_min \<le> wr_balance_minor r - a"
    "wallet_checks (moved d (charge_tx u c a k b) r) =
      (if wr_balance_minor r - a < - wr_credit_limit_minor r then Some ''wallet_within_credit_limit'' else None)"
    using assms(3) by (auto simp: in_i64_def wallet_checks_def split: if_splits)
qed

lemma wallet_pair_iff:
  "ledger_wf d \<Longrightarrow> (u, c) \<in> wallet_pairs d \<longleftrightarrow> (\<exists>r. find_wallet u d = Some r \<and> wr_currency r = c)"
  by (auto simp: wallet_pairs_def find_wallet_iff)

text \<open>What the ledger insert of a charge answers, branch by branch.\<close>

lemma insert_charge:
  assumes wf: "ledger_wf d" and a: "0 < a"
  shows "insert_transaction (charge_tx u c a k b) d =
    (if k \<in> ledger_keys d then (Inl (Violates ''wallet_tx_idempotency_unique''), d)
     else case find_wallet u d of
       None \<Rightarrow> (Inl (Violates ''wallet_tx_currency_matches_wallet''), d)
     | Some r \<Rightarrow>
         if wr_currency r \<noteq> c then (Inl (Violates ''wallet_tx_currency_matches_wallet''), d)
         else if wr_balance_minor r - a < i64_min then (Inl (Failed ''bigint out of range''), d)
         else if wr_balance_minor r - a < - wr_credit_limit_minor r
         then (Inl (Violates ''wallet_within_credit_limit''), d)
         else (Inr (), posted (charge_tx u c a k b) r d))"
proof -
  let ?t = "charge_tx u c a k b"
  let ?d = "d\<lparr>wallet_transactions := wallet_transactions d @ [?t\<lparr>wt_id := wallet_tx_next d\<rparr>],
     wallet_tx_next := wallet_tx_next d + 1\<rparr>"
  have c: "tx_checks ?t = None" using a by (simp add: tx_checks_def)
  have f: "find_wallet v ?d = find_wallet v d" for v by (simp add: find_wallet_def)
  have s: "insert_transaction ?t d =
    (if k \<in> ledger_keys d then (Inl (Violates ''wallet_tx_idempotency_unique''), d)
     else if (u, c) \<notin> wallet_pairs d then (Inl (Violates ''wallet_tx_currency_matches_wallet''), d)
     else case apply_transaction ?t ?d of (Inl e, _) \<Rightarrow> (Inl e, d) | (Inr v, d') \<Rightarrow> (Inr v, d'))"
    by (simp only: insert_transaction_def c option.case ledger_keys_def wallet_pairs_def movement_tx_simps)
  show ?thesis
  proof (cases "find_wallet u d")
    case None
    then show ?thesis unfolding s wallet_pair_iff [OF wf] by simp
  next
    case (Some r)
    have "apply_transaction ?t ?d =
        (if wr_balance_minor r - a < i64_min then (Inl (Failed ''bigint out of range''), ?d)
         else if wr_balance_minor r - a < - wr_credit_limit_minor r
         then (Inl (Violates ''wallet_within_credit_limit''), ?d)
         else (Inr (), posted ?t r d))"
      using Some f charge_balance_range(1) [OF wf Some a] charge_balance_range(2) [OF wf Some a, of c k b]
      by (auto simp: apply_transaction_def posted_def moved_def Let_def)
    then show ?thesis unfolding s wallet_pair_iff [OF wf] using Some by simp
  qed
qed

lemma classify_no_faults:
  "ledger_wf (world_db w) \<Longrightarrow> fst (classify no_faults (Violates ''wallet_tx_currency_matches_wallet'') u c a w) =
     (case find_wallet u (world_db w) of None \<Rightarrow> NoWallet u | Some r \<Rightarrow> CurrencyMismatch u (wr_currency r) c)"
  "fst (classify no_faults (Violates ''wallet_tx_idempotency_unique'') u c a w) = WalletDb ''__replay__''"
  "fst (classify no_faults (Violates ''wallet_within_credit_limit'') u c a w) = InsufficientFunds u a"
  "fst (classify no_faults (Failed e) u c a w) = WalletDb e"
proof -
  assume wf: "ledger_wf (world_db w)"
  have "wr_currency r \<noteq> ''<no wallet>''" if "find_wallet u (world_db w) = Some r" for r
  proof -
    have "wallet_checks r = None" using find_wallet_mem [OF that] wf unfolding ledger_wf_def by blast
    then have "length (wr_currency r) = 3" by (auto simp: wallet_checks_def is_iso4217_lower_def split: if_splits)
    then show ?thesis by auto
  qed
  then show "fst (classify no_faults (Violates ''wallet_tx_currency_matches_wallet'') u c a w) =
     (case find_wallet u (world_db w) of None \<Rightarrow> NoWallet u | Some r \<Rightarrow> CurrencyMismatch u (wr_currency r) c)"
    by (auto simp: classify_def constraint_of_def get_wallet_def reads_def held_currency_def wallet_of_def
        split: option.splits)
qed (simp_all add: classify_def constraint_of_def)

lemma find_wallet_unique:
  "ledger_wf d \<Longrightarrow> find_wallet u d = Some r \<Longrightarrow> x \<in> set (wallets d) \<Longrightarrow> wr_user_id x = u \<Longrightarrow> x = r"
  using find_wallet_mem [of u d r] by (auto simp: ledger_wf_def distinct_map inj_on_def)

text \<open>What a charge of a positive amount answers and leaves.\<close>

lemma charge_once_run:
  assumes wf: "ledger_wf (world_db w)" and a: "0 < a"
  shows "fst (charge_once no_faults u c a k b w) =
      (if k \<in> ledger_keys (world_db w) then Inr AlreadyApplied
        else case find_wallet u (world_db w) of
          None \<Rightarrow> Inl (NoWallet u)
        | Some r \<Rightarrow>
            if wr_currency r \<noteq> c then Inl (CurrencyMismatch u (wr_currency r) c)
            else if wr_balance_minor r - a < i64_min then Inl (WalletDb ''bigint out of range'')
            else if wr_balance_minor r - a < - wr_credit_limit_minor r then Inl (InsufficientFunds u (- a))
            else Inr Applied)" (is ?res)
    and "world_db (snd (charge_once no_faults u c a k b w)) =
      (if fst (charge_once no_faults u c a k b w) = Inr Applied
       then posted (charge_tx u c a k b) (the (find_wallet u (world_db w))) (world_db w) else world_db w)" (is ?db)
proof -
  note i = insert_charge [OF wf a, of u c k b]
  have wf': "ledger_wf (world_db (fst w, Suc (snd w)))" using wf by simp
  note cl = classify_no_faults(1) [OF wf'] classify_no_faults(2-4)
  have n: "treat_replay_as_success (Inl (WalletDb ''__replay__'')) = Inr AlreadyApplied"
    "treat_replay_as_success (Inr x) = Inr x" "treat_replay_as_success (Inl (NoWallet u)) = Inl (NoWallet u)"
    "treat_replay_as_success (Inl (CurrencyMismatch u h c)) = Inl (CurrencyMismatch u h c)"
    "treat_replay_as_success (Inl (InsufficientFunds u y)) = Inl (InsufficientFunds u y)"
    "treat_replay_as_success (Inl (WalletDb ''bigint out of range'')) = Inl (WalletDb ''bigint out of range'')" for x h y
    by (simp_all add: treat_replay_as_success_def)
  show ?res ?db
    using a i by (auto simp: charge_once_def charge_def movement_def split_beta cl n split: option.split)
qed

text \<open>What an applied charge posts, in full.\<close>

lemma charge_applied:
  assumes wf: "ledger_wf (world_db w)" and a: "0 < a" and c: "charge_once no_faults u c a k b w = (Inr Applied, w')"
  shows "ledger_wf (world_db w') \<and> (\<exists>t. wt_user_id t = u \<and> wt_currency t = c \<and> wt_kind t = ''charge'' \<and> wt_amount_minor t = - a
            \<and> wt_idempotency_key t = k \<and> wt_broadcast_id t = b
            \<and> world_db w' = (world_db w)\<lparr>wallet_transactions := wallet_transactions (world_db w) @ [t],
                wallet_tx_next := wallet_tx_next (world_db w) + 1,
                wallets := map (\<lambda>x. if wr_user_id x = u
                  then x\<lparr>wr_balance_minor := wr_balance_minor x - a, wr_updated_at := db_now (world_db w)\<rparr> else x)
                  (wallets (world_db w))\<rparr>)"
proof (intro conjI exI [of _ "(charge_tx u c a k b)\<lparr>wt_id := wallet_tx_next (world_db w)\<rparr>"])
  let ?d = "world_db w" and ?t = "charge_tx u c a k b"
  note run = charge_once_run [OF wf a, of u c k b, unfolded c fst_conv snd_conv]
  show "ledger_wf (world_db w')"
    using charge_db [OF a, of no_faults u c k b w] insert_transaction_wf [OF wf, of ?t] by (simp add: c)
  from run(1) obtain r where r: "find_wallet u ?d = Some r" by (auto split: if_splits option.splits)
  then have "map (\<lambda>x. if wr_user_id x = u then moved ?d ?t r else x) (wallets ?d) = map (\<lambda>x. if wr_user_id x = u
      then x\<lparr>wr_balance_minor := wr_balance_minor x - a, wr_updated_at := db_now ?d\<rparr> else x) (wallets ?d)"
    using find_wallet_unique [OF wf r] by (auto simp: moved_def)
  then show "world_db w' = ?d\<lparr>wallet_transactions := wallet_transactions ?d @ [?t\<lparr>wt_id := wallet_tx_next ?d\<rparr>],
      wallet_tx_next := wallet_tx_next ?d + 1,
      wallets := map (\<lambda>x. if wr_user_id x = u
        then x\<lparr>wr_balance_minor := wr_balance_minor x - a, wr_updated_at := db_now ?d\<rparr> else x) (wallets ?d)\<rparr>"
    using run(2) r by (simp add: posted_def)
qed (simp_all add: movement_tx_def)

text \<open>C25: What a charge answers and does when the database answers, on every branch and in this order:
  an amount that is not positive is refused before any statement; a key already in the ledger is a
  success that changes nothing; then come a missing wallet, a wallet in another currency, a
  balance that would overflow, and a balance that would pass the credit limit, none of which
  changes the database; otherwise the charge is applied: the ledger gains exactly one row, a charge of
  minus the amount on that wallet under that key, the payer's balance falls by the amount, and
  no other wallet and no other table changes.\<close>

theorem charge_outcomes:
  assumes "ledger_wf (world_db w)"
  shows "case charge_once no_faults u c a k b w of (res, w') \<Rightarrow>
      res = (if a \<le> 0 then Inl (WalletDb (''charge amount must be positive, got '' @ show_int a))
        else if k \<in> ledger_keys (world_db w) then Inr AlreadyApplied
        else case find_wallet u (world_db w) of
          None \<Rightarrow> Inl (NoWallet u)
        | Some r \<Rightarrow>
            if wr_currency r \<noteq> c then Inl (CurrencyMismatch u (wr_currency r) c)
            else if wr_balance_minor r - a < i64_min then Inl (WalletDb ''bigint out of range'')
            else if wr_balance_minor r - a < - wr_credit_limit_minor r then Inl (InsufficientFunds u (- a))
            else Inr Applied)
    \<and> (if res = Inr Applied
       then ledger_wf (world_db w') \<and> (\<exists>t. wt_user_id t = u \<and> wt_currency t = c \<and> wt_kind t = ''charge'' \<and> wt_amount_minor t = - a
            \<and> wt_idempotency_key t = k \<and> wt_broadcast_id t = b
            \<and> world_db w' = (world_db w)\<lparr>wallet_transactions := wallet_transactions (world_db w) @ [t],
                wallet_tx_next := wallet_tx_next (world_db w) + 1,
                wallets := map (\<lambda>x. if wr_user_id x = u
                  then x\<lparr>wr_balance_minor := wr_balance_minor x - a, wr_updated_at := db_now (world_db w)\<rparr> else x)
                  (wallets (world_db w))\<rparr>)
       else world_db w' = world_db w)"
proof (cases "0 < a")
  case False
  then show ?thesis using assms by (simp add: charge_once_def charge_def treat_replay_as_success_def)
next
  case True
  obtain res w' where c: "charge_once no_faults u c a k b w = (res, w')" by (cases "charge_once no_faults u c a k b w")
  note run = charge_once_run [OF assms True, of u c k b, unfolded c fst_conv snd_conv]
  show ?thesis
  proof (cases "res = Inr Applied")
    case ap: True
    from charge_applied [OF assms True c [unfolded ap]] show ?thesis
      unfolding c prod.case using True run(1) ap by (simp only: if_True not_le [symmetric] if_False simp_thms)
  next
    case False
    then show ?thesis unfolding c prod.case using True run by simp
  qed
qed

theorem charge_outcomes_witness:
  "let w = fold (run_wallet_op no_faults) [CreateWallet ''u'' ''eur'' 2, Deposit ''u'' ''eur'' 10 ''k1''] ((empty_db, ()), 0) in
     fst (charge_once no_faults ''u'' ''eur'' 12 ''k2'' None w) = Inr Applied
   \<and> fst (charge_once no_faults ''u'' ''eur'' 13 ''k2'' None w) = Inl (InsufficientFunds ''u'' (-13))
   \<and> fst (charge_once no_faults ''u'' ''usd'' 1 ''k2'' None w) = Inl (CurrencyMismatch ''u'' ''eur'' ''usd'')
   \<and> fst (charge_once no_faults ''v'' ''eur'' 1 ''k2'' None w) = Inl (NoWallet ''v'')"
proof -
  define w where "w = fold (run_wallet_op no_faults) [CreateWallet ''u'' ''eur'' 2, Deposit ''u'' ''eur'' 10 ''k1''] ((empty_db, ()), 0)"
  have wf: "ledger_wf (world_db w)" unfolding w_def by code_simp
  have k: "''k2'' \<notin> ledger_keys (world_db w)" "find_wallet ''v'' (world_db w) = None"
    "find_wallet ''u'' (world_db w) = Some \<lparr>wr_user_id = ''u'', wr_currency = ''eur'', wr_balance_minor = 10,
      wr_credit_limit_minor = 2, wr_updated_at = 0, wr_rating_blocked_at = None\<rparr>" unfolding w_def by code_simp+
  show ?thesis
    using charge_outcomes [OF wf, where u = "''u''" and c = "''eur''" and a = 12 and k = "''k2''" and b = None]
      charge_outcomes [OF wf, where u = "''u''" and c = "''eur''" and a = 13 and k = "''k2''" and b = None]
      charge_outcomes [OF wf, where u = "''u''" and c = "''usd''" and a = 1 and k = "''k2''" and b = None]
      charge_outcomes [OF wf, where u = "''v''" and c = "''eur''" and a = 1 and k = "''k2''" and b = None]
    unfolding Let_def split_beta w_def [symmetric] by (simp add: k i64_min_def)
qed

end
