(* ===== verification/Metering.thy ===== *)
theory Metering
  imports Wallet "HOL-Library.AList"
begin

text \<open>
  The egress meter: \<^verbatim>\<open>crates/mm-fleet/src/metering.rs\<close> and the half of
  \<^verbatim>\<open>crates/mm-db/src/metering_db.rs\<close> it writes through. A node answers a poll with cumulative
  byte counters per source, tagged with the epoch of its process; the meter subtracts the stored
  baseline, writes one usage event per billable source and advances the baseline, in one
  transaction. A node's client is a parameter: a function of whatever the sweep drives besides
  the database. A \<^verbatim>\<open>BTreeMap\<close> is an association list with distinct keys in key order.

  Shown: when a node's counters only grow within an epoch and an epoch never comes back, no
  sequence of sweeps, under any faults, ever bills a source for more bytes than its counter
  shows; what one sweep of one node writes; that a reading below the baseline lowers the
  baseline, so that bytes already billed are billed again; and that a node which restarts while
  a source of its previous life is gone is never billed again.
\<close>

section \<open>Readings\<close>

record switch_egress =
  se_epoch :: string
  se_since :: instant
  se_overhead_bytes_per_packet :: int
  se_sources :: "(string \<times> int) list"

type_synonym counters = "(string \<times> int) list"

record egress_snapshot =
  es_epoch :: string
  es_since :: instant
  es_bytes :: counters

definition count_of :: "counters \<Rightarrow> string \<Rightarrow> int" where
  "count_of m s = (case map_of m s of None \<Rightarrow> 0 | Some n \<Rightarrow> n)"

definition add_reading :: "string \<times> int \<Rightarrow> counters \<Rightarrow> counters" where
  "add_reading r m = AList.update (fst r) (wrap_i64 (count_of m (fst r) + snd r)) m"

definition snapshot_of :: "switch_egress \<Rightarrow> egress_snapshot" where
  "snapshot_of e = \<lparr>es_epoch = se_epoch e, es_since = se_since e,
     es_bytes = sort_key fst (fold add_reading (se_sources e) [])\<rparr>"

record baseline =
  b_source :: string
  b_epoch :: string
  b_cumulative_bytes :: int
  b_observed_at :: instant

definition baseline_snapshot :: "baseline list \<Rightarrow> egress_snapshot option" where
  "baseline_snapshot rows =
     (case rows of [] \<Rightarrow> None
      | first # _ \<Rightarrow>
          if \<exists>r\<in>set rows. b_epoch r \<noteq> b_epoch first then None
          else Some \<lparr>es_epoch = b_epoch first, es_since = b_observed_at first,
                 es_bytes = sort_key fst (fold (\<lambda>r. AList.update (b_source r) (b_cumulative_bytes r)) rows [])\<rparr>)"

definition broadcast_id_for_source :: "string \<Rightarrow> string option" where
  "broadcast_id_for_source s =
     (case strip_prefix s ''stream-'' of None \<Rightarrow> None | Some b \<Rightarrow> if b = [] then None else Some b)"

section \<open>Usage between two readings\<close>

record usage =
  u_source :: string
  u_bytes :: int

datatype metering_anomaly =
    CountersReset string string instant
  | CounterWentBackwards string int int
  | SourceVanished string int

record metering_result =
  mr_usage :: "usage list"
  mr_anomalies :: "metering_anomaly list"
  mr_advance_baseline :: bool

text \<open>The loop over the current reading's sources: usage and anomalies, in source order.\<close>

fun delta_sources :: "counters \<Rightarrow> counters \<Rightarrow> usage list \<times> metering_anomaly list" where
  "delta_sources prev [] = ([], [])"
| "delta_sources prev ((s, cur) # rest) =
     (case delta_sources prev rest of (us, an) \<Rightarrow>
        let before = count_of prev s in
        if cur < before then (us, CounterWentBackwards s before cur # an)
        else let delta = wrap_i64 (cur - before) in
          if 0 < delta then (\<lparr>u_source = s, u_bytes = delta\<rparr> # us, an) else (us, an))"

definition vanished :: "counters \<Rightarrow> counters \<Rightarrow> metering_anomaly list" where
  "vanished prev cur =
     map (\<lambda>(s, before). SourceVanished s before) (filter (\<lambda>(s, _). s \<notin> fst ` set cur) prev)"

definition egress_delta :: "egress_snapshot option \<Rightarrow> egress_snapshot \<Rightarrow> metering_result" where
  "egress_delta previous cur =
     (case previous of
        None \<Rightarrow> \<lparr>mr_usage = [], mr_anomalies = [], mr_advance_baseline = True\<rparr>
      | Some prev \<Rightarrow>
          if es_epoch prev \<noteq> es_epoch cur then
            \<lparr>mr_usage = map (\<lambda>(s, b). \<lparr>u_source = s, u_bytes = b\<rparr>) (filter (\<lambda>(_, b). 0 < b) (es_bytes cur)),
             mr_anomalies = [CountersReset (es_epoch prev) (es_epoch cur) (es_since cur)],
             mr_advance_baseline = True\<rparr>
          else case delta_sources (es_bytes prev) (es_bytes cur) of (us, an) \<Rightarrow>
            \<lparr>mr_usage = us, mr_anomalies = an @ vanished (es_bytes prev) (es_bytes cur),
             mr_advance_baseline = True\<rparr>)"

definition bytes_to_milli_gb :: "int \<Rightarrow> int" where
  "bytes_to_milli_gb b = (if b \<le> 0 then 0 else b sdiv 1000000)"

definition usage_idempotency_key :: "string \<Rightarrow> string \<Rightarrow> string \<Rightarrow> int \<Rightarrow> string" where
  "usage_idempotency_key node epoch source cumulative =
     ''egress:'' @ node @ '':'' @ epoch @ '':'' @ source @ '':'' @ show_int cumulative"

definition cumulative_for :: "egress_snapshot \<Rightarrow> string \<Rightarrow> int option" where
  "cumulative_for s = map_of (es_bytes s)"

definition origin_node_id :: string where
  "origin_node_id = ''origin''"

section \<open>Persistence\<close>

record recorded =
  rc_events :: nat
  rc_bytes :: int

record egress_interval =
  iv_source :: string
  iv_user_id :: string
  iv_broadcast_id :: string
  iv_bytes :: int
  iv_quantity_milli :: int
  iv_cumulative_bytes :: int
  iv_epoch :: string
  iv_idempotency_key :: string
  iv_occurred_at :: instant

definition baselines_rows :: "string \<Rightarrow> db \<Rightarrow> baseline list" where
  "baselines_rows n d =
     map (\<lambda>r. \<lparr>b_source = bl_source r, b_epoch = bl_epoch r, b_cumulative_bytes = bl_cumulative_bytes r,
              b_observed_at = bl_observed_at r\<rparr>)
       (sort_key bl_source (filter (\<lambda>r. bl_mm_node_id r = n) (egress_baseline d)))"

text \<open>The \<^verbatim>\<open>MeteringDbError\<close> of a failed statement, as its display form.\<close>

definition metering_db_text :: "sql_error \<Rightarrow> string" where
  "metering_db_text e = ''database error: '' @ sql_text e"

definition baselines_for_node :: "schedule \<Rightarrow> string \<Rightarrow> 'x dbenv \<Rightarrow> (string + baseline list) \<times> 'x dbenv" where
  "baselines_for_node \<phi> n w =
     (case sql \<phi> (reads (baselines_rows n)) w of
        (Inl e, w1) \<Rightarrow> (Inl (metering_db_text e), w1) | (Inr rows, w1) \<Rightarrow> (Inr rows, w1))"

definition interval_event :: "string \<Rightarrow> egress_interval \<Rightarrow> db \<Rightarrow> usage_event" where
  "interval_event n iv d =
     \<lparr>ue_id = usage_next d, ue_user_id = iv_user_id iv, ue_broadcast_id = iv_broadcast_id iv,
      ue_unit = ''egress_gb'', ue_quantity_milli = iv_quantity_milli iv, ue_mm_node_id = Some n,
      ue_idempotency_key = iv_idempotency_key iv, ue_occurred_at = iv_occurred_at iv, ue_rated_at = None,
      ue_rate_card_version = None, ue_transaction_id = None, ue_egress_epoch = Some (iv_epoch iv),
      ue_cumulative_bytes = Some (iv_cumulative_bytes iv)\<rparr>"

definition usage_keys :: "db \<Rightarrow> string set" where
  "usage_keys d = ue_idempotency_key ` set (usage_events d)"

text \<open>\<^verbatim>\<open>INSERT ... ON CONFLICT (idempotency_key) DO NOTHING\<close>, answering whether a row was added.\<close>

definition insert_usage :: "string \<Rightarrow> egress_interval \<Rightarrow> bool query" where
  "insert_usage n iv d =
     (let e = interval_event n iv d in
      case usage_checks e of Some k \<Rightarrow> (Inl (Violates k), d)
      | None \<Rightarrow> if ue_idempotency_key e \<in> usage_keys d then (Inr False, d)
          else (Inr True, d\<lparr>usage_events := usage_events d @ [e], usage_next := usage_next d + 1\<rparr>))"

fun insert_intervals :: "string \<Rightarrow> egress_interval list \<Rightarrow> recorded \<Rightarrow> recorded query" where
  "insert_intervals n [] written d = (Inr written, d)"
| "insert_intervals n (iv # ivs) written d =
     (case insert_usage n iv d of
        (Inl e, d1) \<Rightarrow> (Inl e, d1)
      | (Inr new, d1) \<Rightarrow> insert_intervals n ivs
          (if new then \<lparr>rc_events = rc_events written + 1, rc_bytes = wrap_i64 (rc_bytes written + iv_bytes iv)\<rparr>
           else written) d1)"

abbreviation baseline_key :: "baseline_row \<Rightarrow> string \<times> string" where
  "baseline_key r \<equiv> (bl_mm_node_id r, bl_source r)"

definition baseline_merge :: "baseline_row \<Rightarrow> baseline_row \<Rightarrow> baseline_row" where
  "baseline_merge old new = old\<lparr>bl_epoch := bl_epoch new, bl_cumulative_bytes := bl_cumulative_bytes new,
     bl_observed_at := bl_observed_at new\<rparr>"

fun upsert_positions :: "string \<Rightarrow> string \<Rightarrow> instant \<Rightarrow> (string \<times> int) list \<Rightarrow> unit query" where
  "upsert_positions n epoch t [] d = (Inr (), d)"
| "upsert_positions n epoch t ((s, c) # ps) d =
     (let r = \<lparr>bl_mm_node_id = n, bl_source = s, bl_epoch = epoch, bl_cumulative_bytes = c, bl_observed_at = t\<rparr> in
      case baseline_checks r of Some k \<Rightarrow> (Inl (Violates k), d)
      | None \<Rightarrow> upsert_positions n epoch t ps
          (d\<lparr>egress_baseline := upsert baseline_key baseline_merge r (egress_baseline d)\<rparr>))"

text \<open>One transaction: on an error nothing of it remains.\<close>

definition record_tx :: "string \<Rightarrow> string \<Rightarrow> instant \<Rightarrow> egress_interval list \<Rightarrow> (string \<times> int) list \<Rightarrow> recorded query" where
  "record_tx n epoch t ivs ps d =
     (case insert_intervals n ivs \<lparr>rc_events = 0, rc_bytes = 0\<rparr> d of
        (Inl e, _) \<Rightarrow> (Inl e, d)
      | (Inr written, d1) \<Rightarrow>
          (case upsert_positions n epoch t ps d1 of
             (Inl e, _) \<Rightarrow> (Inl e, d) | (Inr _, d2) \<Rightarrow> (Inr written, d2)))"

definition record_interval :: "schedule \<Rightarrow> string \<Rightarrow> string \<Rightarrow> instant \<Rightarrow> egress_interval list \<Rightarrow>
    (string \<times> int) list \<Rightarrow> 'x dbenv \<Rightarrow> (string + recorded) \<times> 'x dbenv" where
  "record_interval \<phi> n epoch t ivs ps w =
     (case sql \<phi> (record_tx n epoch t ivs ps) w of
        (Inl e, w1) \<Rightarrow> (Inl (metering_db_text e), w1) | (Inr r, w1) \<Rightarrow> (Inr r, w1))"

definition payer_row :: "string \<Rightarrow> db \<Rightarrow> (string \<times> string) option" where
  "payer_row b d =
     (case find (\<lambda>s. st_id s = b) (streams d) of None \<Rightarrow> None
      | Some s \<Rightarrow> map_option (\<lambda>r. (st_host_user_id s, wr_currency r)) (find_wallet (st_host_user_id s) d))"

definition payer_for_broadcast :: "schedule \<Rightarrow> string \<Rightarrow> 'x dbenv \<Rightarrow> (string + (string \<times> string) option) \<times> 'x dbenv" where
  "payer_for_broadcast \<phi> b w =
     (case sql \<phi> (reads (payer_row b)) w of
        (Inl e, w1) \<Rightarrow> (Inl (metering_db_text e), w1) | (Inr p, w1) \<Rightarrow> (Inr p, w1))"

definition last_seen :: "db \<Rightarrow> string \<Rightarrow> instant" where
  "last_seen d n = Max (bl_observed_at ` {r \<in> set (egress_baseline d). bl_mm_node_id r = n})"

definition stale_meter_rows :: "instant \<Rightarrow> db \<Rightarrow> (string \<times> instant) list" where
  "stale_meter_rows cutoff d =
     sort_key snd (filter (\<lambda>(_, t). t < cutoff)
       (map (\<lambda>n. (n, last_seen d n)) (remdups (map bl_mm_node_id (egress_baseline d)))))"

definition stale_meters :: "schedule \<Rightarrow> instant \<Rightarrow> 'x dbenv \<Rightarrow> (string + (string \<times> instant) list) \<times> 'x dbenv" where
  "stale_meters \<phi> cutoff w =
     (case sql \<phi> (reads (stale_meter_rows cutoff)) w of
        (Inl e, w1) \<Rightarrow> (Inl (metering_db_text e), w1) | (Inr r, w1) \<Rightarrow> (Inr r, w1))"

section \<open>The sweep\<close>

record 'x metered_node =
  mn_mm_node_id :: string
  mn_egress :: "'x \<Rightarrow> (string + switch_egress) \<times> 'x"

record metering_sweep =
  ms_polled :: "string list"
  ms_unreachable :: "(string \<times> string) list"
  ms_events_written :: nat
  ms_unbillable :: "string list"
  ms_anomalies :: "metering_anomaly list"
  ms_metered_bytes :: "(string \<times> int) list"

definition empty_sweep :: metering_sweep where
  "empty_sweep = \<lparr>ms_polled = [], ms_unreachable = [], ms_events_written = 0, ms_unbillable = [],
     ms_anomalies = [], ms_metered_bytes = []\<rparr>"

definition unreachable :: "string \<Rightarrow> string \<Rightarrow> metering_sweep \<Rightarrow> metering_sweep" where
  "unreachable n why s = s\<lparr>ms_unreachable := ms_unreachable s @ [(n, why)]\<rparr>"

definition unbillable :: "string \<Rightarrow> metering_sweep \<Rightarrow> metering_sweep" where
  "unbillable src s = s\<lparr>ms_unbillable := ms_unbillable s @ [src]\<rparr>"

definition interval_for :: "string \<Rightarrow> egress_snapshot \<Rightarrow> instant \<Rightarrow> usage \<Rightarrow> string \<Rightarrow> string \<Rightarrow> egress_interval" where
  "interval_for n cur now u b payer =
     (let cumulative = count_of (es_bytes cur) (u_source u) in
      \<lparr>iv_source = u_source u, iv_user_id = payer, iv_broadcast_id = b, iv_bytes = u_bytes u,
       iv_quantity_milli = bytes_to_milli_gb (u_bytes u), iv_cumulative_bytes = cumulative,
       iv_epoch = es_epoch cur,
       iv_idempotency_key = usage_idempotency_key n (es_epoch cur) (u_source u) cumulative,
       iv_occurred_at = now\<rparr>)"

text \<open>The loop over the derived usage: look up each payer, build the intervals to write.\<close>

fun derive_intervals :: "schedule \<Rightarrow> string \<Rightarrow> egress_snapshot \<Rightarrow> instant \<Rightarrow> usage list \<Rightarrow>
    metering_sweep \<Rightarrow> 'x dbenv \<Rightarrow> egress_interval list \<times> metering_sweep \<times> 'x dbenv" where
  "derive_intervals \<phi> n cur now [] s w = ([], s, w)"
| "derive_intervals \<phi> n cur now (u # us) s w =
     (case broadcast_id_for_source (u_source u) of
        None \<Rightarrow> derive_intervals \<phi> n cur now us (unbillable (u_source u) s) w
      | Some b \<Rightarrow>
          (case payer_for_broadcast \<phi> b w of
             (Inl e, w1) \<Rightarrow> derive_intervals \<phi> n cur now us (unreachable n (''payer lookup failed: '' @ e) s) w1
           | (Inr None, w1) \<Rightarrow> derive_intervals \<phi> n cur now us (unbillable (u_source u) s) w1
           | (Inr (Some (payer, _)), w1) \<Rightarrow>
               if bytes_to_milli_gb (u_bytes u) = 0 then derive_intervals \<phi> n cur now us s w1
               else (case derive_intervals \<phi> n cur now us s w1 of (ivs, s2, w2) \<Rightarrow>
                  (interval_for n cur now u b payer # ivs, s2, w2))))"

definition advanced_positions :: "egress_snapshot \<Rightarrow> usage list \<Rightarrow> egress_interval list \<Rightarrow> (string \<times> int) list" where
  "advanced_positions cur us ivs =
     filter (\<lambda>(s, _). s \<in> iv_source ` set ivs \<or> s \<notin> u_source ` set us) (es_bytes cur)"

definition sweep_node :: "schedule \<Rightarrow> instant \<Rightarrow> 'x metered_node \<Rightarrow> metering_sweep \<Rightarrow> 'x dbenv \<Rightarrow> metering_sweep \<times> 'x dbenv" where
  "sweep_node \<phi> now node s w =
     (let n = mn_mm_node_id node in
      case baselines_for_node \<phi> n w of
        (Inl e, w1) \<Rightarrow> (unreachable n (''baseline read failed: '' @ e) s, w1)
      | (Inr stored, w1) \<Rightarrow>
          (case drives (mn_egress node) w1 of
             (Inl e, w2) \<Rightarrow> (unreachable n e s, w2)
           | (Inr reading, w2) \<Rightarrow>
               let cur = snapshot_of reading;
                   result = egress_delta (baseline_snapshot stored) cur;
                   s1 = s\<lparr>ms_anomalies := ms_anomalies s @ mr_anomalies result\<rparr> in
               (case derive_intervals \<phi> n cur now (mr_usage result) s1 w2 of (ivs, s2, w3) \<Rightarrow>
                  (case record_interval \<phi> n (es_epoch cur) now ivs
                          (advanced_positions cur (mr_usage result) ivs) w3 of
                     (Inl e, w4) \<Rightarrow> (unreachable n (''write failed: '' @ e) s2, w4)
                   | (Inr written, w4) \<Rightarrow>
                       (s2\<lparr>ms_events_written := ms_events_written s2 + rc_events written,
                           ms_metered_bytes := ms_metered_bytes s2 @
                             (if 0 < rc_bytes written then [(n, rc_bytes written)] else []),
                           ms_polled := ms_polled s2 @ [n]\<rparr>, w4)))))"

fun sweep_nodes :: "schedule \<Rightarrow> instant \<Rightarrow> 'x metered_node list \<Rightarrow> metering_sweep \<Rightarrow> 'x dbenv \<Rightarrow> metering_sweep \<times> 'x dbenv" where
  "sweep_nodes \<phi> now [] s w = (s, w)"
| "sweep_nodes \<phi> now (n # ns) s w =
     (case sweep_node \<phi> now n s w of (s1, w1) \<Rightarrow> sweep_nodes \<phi> now ns s1 w1)"

definition sweep_egress :: "schedule \<Rightarrow> 'x metered_node list \<Rightarrow> instant \<Rightarrow> 'x dbenv \<Rightarrow> metering_sweep \<times> 'x dbenv" where
  "sweep_egress \<phi> nodes now w = sweep_nodes \<phi> now nodes empty_sweep w"

section \<open>Readings and baselines as maps\<close>

lemma fold_update_keys:
  "distinct (map fst m) \<Longrightarrow> distinct (map fst (fold (\<lambda>r. AList.update (f r) (g r)) rs m))"
  by (induction rs arbitrary: m) (simp_all add: distinct_update)

lemma map_of_fold_update:
  "distinct (map f rs) \<Longrightarrow> map_of (fold (\<lambda>r. AList.update (f r) (g r)) rs m) k =
     (case find (\<lambda>r. f r = k) rs of None \<Rightarrow> map_of m k | Some r \<Rightarrow> Some (g r))"
proof (induction rs arbitrary: m)
  case (Cons r rs)
  then have "f r \<notin> f ` set rs" by simp
  then have "find (\<lambda>x. f x = f r) rs = None" unfolding find_None_iff by (metis imageI)
  with Cons show ?case by (auto simp: update_conv' split: option.split)
qed simp

lemma map_of_sort_key: "distinct (map fst m) \<Longrightarrow> map_of (sort_key fst m) = map_of m"
  by (rule map_of_eqI) (auto simp: distinct_map distinct_sort inj_on_def intro: map_of_eq_Some_iff)

lemma count_of_mem: "distinct (map fst m) \<Longrightarrow> (s, c) \<in> set m \<Longrightarrow> count_of m s = c"
  by (simp add: count_of_def)

definition snapshot_wf :: "egress_snapshot \<Rightarrow> bool" where
  "snapshot_wf s \<longleftrightarrow> distinct (map fst (es_bytes s)) \<and> (\<forall>(_, c)\<in>set (es_bytes s). in_i64 c)"

lemma snapshot_of_wf: "snapshot_wf (snapshot_of e)"
proof -
  have "distinct (map fst (fold add_reading rs m)) \<and> (\<forall>(_, c)\<in>set (fold add_reading rs m). in_i64 c)"
    if "distinct (map fst m) \<and> (\<forall>(_, c)\<in>set m. in_i64 c)" for rs m
    using that
  proof (induction rs arbitrary: m)
    case (Cons r rs)
    have "set (AList.update k v m) \<subseteq> insert (k, v) (set m)" for k v
      by (induction m) (auto split: if_splits)
    then have "distinct (map fst (add_reading r m)) \<and> (\<forall>(_, c)\<in>set (add_reading r m). in_i64 c)"
      using Cons.prems by (fastforce simp: add_reading_def distinct_update)
    then show ?case using Cons.IH by simp
  qed simp
  from this [of "[]" "se_sources e"] show ?thesis
    by (simp add: snapshot_wf_def snapshot_of_def distinct_map inj_on_def)
qed

interpretation baselines: keyed_table baseline_key baseline_merge
  by unfold_locales (simp add: baseline_merge_def)

abbreviation stored_at :: "string \<Rightarrow> string \<Rightarrow> db \<Rightarrow> baseline_row option" where
  "stored_at n s d \<equiv> lookup_row baseline_key (n, s) (egress_baseline d)"

definition baseline_wf :: "db \<Rightarrow> bool" where
  "baseline_wf d \<longleftrightarrow> distinct (map baseline_key (egress_baseline d)) \<and>
     (\<forall>r\<in>set (egress_baseline d). 0 \<le> bl_cumulative_bytes r)"

lemma baselines_rows_set: "set (baselines_rows n d) =
   (\<lambda>r. \<lparr>b_source = bl_source r, b_epoch = bl_epoch r, b_cumulative_bytes = bl_cumulative_bytes r,
      b_observed_at = bl_observed_at r\<rparr>) ` {r \<in> set (egress_baseline d). bl_mm_node_id r = n}"
  by (simp add: baselines_rows_def)

lemma baselines_rows_distinct: "baseline_wf d \<Longrightarrow> distinct (map b_source (baselines_rows n d))"
proof -
  assume "baseline_wf d"
  then have "distinct (map bl_source (filter (\<lambda>r. bl_mm_node_id r = n) (egress_baseline d)))"
    by (auto simp: baseline_wf_def distinct_map inj_on_def)
  then show ?thesis by (simp add: baselines_rows_def comp_def distinct_map)
qed

lemma baselines_rows_find:
  assumes "baseline_wf d"
  shows "map_option b_cumulative_bytes (find (\<lambda>r. b_source r = s) (baselines_rows n d)) =
     map_option bl_cumulative_bytes (stored_at n s d)"
proof (cases "stored_at n s d")
  case None
  then have "find (\<lambda>r. b_source r = s) (baselines_rows n d) = None"
    by (auto simp: find_None_iff baselines_rows_set lookup_row_None)
  with None show ?thesis by simp
next
  case (Some r)
  then have r: "r \<in> set (egress_baseline d)" "bl_mm_node_id r = n" "bl_source r = s"
    by (auto dest: lookup_row_Some_set)
  let ?b = "\<lparr>b_source = bl_source r, b_epoch = bl_epoch r, b_cumulative_bytes = bl_cumulative_bytes r,
      b_observed_at = bl_observed_at r\<rparr>"
  have "?b \<in> set (baselines_rows n d)" using r by (auto simp: baselines_rows_set)
  then have "lookup_row b_source s (baselines_rows n d) = Some ?b"
    using baselines_rows_distinct [OF assms] r by (simp add: lookup_row_distinct)
  then show ?thesis using Some by (simp add: lookup_row_def)
qed

lemma baseline_snapshot_Some:
  assumes "baseline_wf d" and "baseline_snapshot (baselines_rows n d) = Some p"
  shows "count_of (es_bytes p) s = (case stored_at n s d of None \<Rightarrow> 0 | Some r \<Rightarrow> bl_cumulative_bytes r)"
    and "stored_at n s d = Some r \<Longrightarrow> bl_epoch r = es_epoch p"
    and "distinct (map fst (es_bytes p))" and "fst ` set (es_bytes p) = b_source ` set (baselines_rows n d)"
proof -
  obtain b bs where rows: "baselines_rows n d = b # bs" and same: "\<forall>r\<in>set (baselines_rows n d). b_epoch r = b_epoch b"
    and p: "es_epoch p = b_epoch b"
      "es_bytes p = sort_key fst (fold (\<lambda>r. AList.update (b_source r) (b_cumulative_bytes r)) (baselines_rows n d) [])"
    using assms(2) by (auto simp: baseline_snapshot_def split: list.splits if_splits)
  have dist: "distinct (map fst (fold (\<lambda>r. AList.update (b_source r) (b_cumulative_bytes r)) (baselines_rows n d) []))"
    by (rule fold_update_keys) simp
  then show d2: "distinct (map fst (es_bytes p))" by (simp add: p distinct_map inj_on_def)
  have m: "map_of (es_bytes p) s = map_option b_cumulative_bytes (find (\<lambda>r. b_source r = s) (baselines_rows n d))" for s
    unfolding p map_of_sort_key [OF dist] map_of_fold_update [OF baselines_rows_distinct [OF assms(1)]]
    by (simp split: option.split)
  then show "count_of (es_bytes p) s = (case stored_at n s d of None \<Rightarrow> 0 | Some r \<Rightarrow> bl_cumulative_bytes r)"
    unfolding count_of_def m baselines_rows_find [OF assms(1)] by (simp split: option.split)
  show "stored_at n s d = Some r \<Longrightarrow> bl_epoch r = es_epoch p"
    using same p by (fastforce dest: lookup_row_Some_set simp: baselines_rows_set)
  have "map_of (es_bytes p) x = None \<longleftrightarrow> x \<notin> b_source ` set (baselines_rows n d)" for x
    unfolding m by (auto simp: find_None_iff)
  then have "x \<in> fst ` set (es_bytes p) \<longleftrightarrow> x \<in> b_source ` set (baselines_rows n d)" for x
    unfolding map_of_eq_None_iff by blast
  then show "fst ` set (es_bytes p) = b_source ` set (baselines_rows n d)" by blast
qed

section \<open>What a reading adds\<close>

text \<open>The position a source is measured from: its baseline in the same epoch, or zero.\<close>

definition base_of :: "egress_snapshot option \<Rightarrow> egress_snapshot \<Rightarrow> string \<Rightarrow> int" where
  "base_of p cur s =
     (case p of Some prev \<Rightarrow> if es_epoch prev = es_epoch cur then count_of (es_bytes prev) s else 0 | None \<Rightarrow> 0)"

lemma delta_sources_usage:
  assumes "\<forall>s. 0 \<le> count_of prev s" and "\<forall>(_, c)\<in>set cur. in_i64 c"
  shows "fst (delta_sources prev cur) =
     map (\<lambda>(s, c). \<lparr>u_source = s, u_bytes = c - count_of prev s\<rparr>) (filter (\<lambda>(s, c). count_of prev s < c) cur)"
  using assms(2)
proof (induction cur)
  case (Cons x cur)
  obtain s c where x: "x = (s, c)" by (cases x)
  have "\<not> c < count_of prev s \<Longrightarrow> in_i64 (c - count_of prev s)"
    using Cons.prems assms(1) [rule_format, of s] by (auto simp: x in_i64_def i64_min_def)
  then show ?case using Cons by (auto simp: x split_beta Let_def)
qed simp

lemma egress_delta_usage:
  assumes "snapshot_wf cur" and "\<And>prev s. p = Some prev \<Longrightarrow> 0 \<le> count_of (es_bytes prev) s"
  shows "mr_usage (egress_delta p cur) = (if p = None then [] else
     map (\<lambda>(s, c). \<lparr>u_source = s, u_bytes = c - base_of p cur s\<rparr>) (filter (\<lambda>(s, c). base_of p cur s < c) (es_bytes cur)))"
proof (cases p)
  case (Some prev)
  have i: "\<forall>(_, c)\<in>set (es_bytes cur). in_i64 c" using assms(1) by (simp add: snapshot_wf_def)
  from delta_sources_usage [OF _ i, of "es_bytes prev"] Some assms(2) show ?thesis
    by (auto simp: egress_delta_def base_of_def split_beta)
qed (simp add: egress_delta_def)

lemma usage_distinct:
  "distinct (map fst m) \<Longrightarrow> distinct (map u_source (map (\<lambda>(s, c). \<lparr>u_source = s, u_bytes = f s c\<rparr>) (filter P m)))"
proof -
  assume "distinct (map fst m)"
  then have "distinct (map fst (filter P m))" by (rule distinct_map_filter)
  moreover have "map u_source (map (\<lambda>(s, c). \<lparr>u_source = s, u_bytes = f s c\<rparr>) xs) = map fst xs" for xs
    by (induction xs) auto
  ultimately show ?thesis by (simp only:)
qed

lemma derive_intervals_state [simp]: "fst (snd (snd (derive_intervals \<phi> n cur now us s w))) = fst w"
proof (induction us arbitrary: s w)
  case (Cons u us)
  have p: "fst (snd (payer_for_broadcast \<phi> b w)) = fst w" for b by (simp add: payer_for_broadcast_def)
  show ?case
  proof (cases "broadcast_id_for_source (u_source u)")
    case (Some b)
    obtain r w1 where "payer_for_broadcast \<phi> b w = (r, w1)" "fst w1 = fst w"
      using p [of b] by (cases "payer_for_broadcast \<phi> b w") simp
    then show ?thesis using Some Cons.IH [of _ w1] by (auto simp: split_beta split: sum.split option.split)
  qed (simp add: Cons.IH)
qed simp

lemma derive_intervals_mem:
  fixes w :: "'x dbenv"
  shows "iv \<in> set (fst (derive_intervals \<phi> n cur now us s w)) \<Longrightarrow>
   \<exists>u\<in>set us. \<exists>b payer. broadcast_id_for_source (u_source u) = Some b \<and> bytes_to_milli_gb (u_bytes u) \<noteq> 0
     \<and> iv = interval_for n cur now u b payer"
proof (induction us arbitrary: s w)
  case (Cons u us)
  have "(\<exists>s' (w' :: 'x dbenv). iv \<in> set (fst (derive_intervals \<phi> n cur now us s' w')))
    \<or> (\<exists>b payer. broadcast_id_for_source (u_source u) = Some b \<and> bytes_to_milli_gb (u_bytes u) \<noteq> 0
         \<and> iv = interval_for n cur now u b payer)"
  proof (cases "broadcast_id_for_source (u_source u)")
    case None
    then show ?thesis using Cons.prems by (auto simp del: split_paired_Ex)
  next
    case (Some b)
    obtain r w1 where "payer_for_broadcast \<phi> b w = (r, w1)" by (cases "payer_for_broadcast \<phi> b w")
    then show ?thesis using Some Cons.prems
      by (cases r) (auto simp: split_beta simp del: split_paired_Ex split: option.splits if_splits)
  qed
  then show ?case
  proof (elim disjE exE)
    fix s' and w' :: "'x dbenv" assume "iv \<in> set (fst (derive_intervals \<phi> n cur now us s' w'))"
    from Cons.IH [OF this] show ?thesis by auto
  qed auto
qed simp

section \<open>What a sweep of one node writes\<close>

definition billed :: "string \<Rightarrow> string \<Rightarrow> string \<Rightarrow> db \<Rightarrow> int" where
  "billed n e s d = sum_list (map ue_quantity_milli
     (filter (\<lambda>v. ue_mm_node_id v = Some n \<and> ue_egress_epoch v = Some e \<and> ''stream-'' @ ue_broadcast_id v = s)
       (usage_events d)))"

definition interval_share :: "string \<Rightarrow> string \<Rightarrow> egress_interval list \<Rightarrow> int" where
  "interval_share e s ivs = sum_list (map iv_quantity_milli
     (filter (\<lambda>iv. iv_epoch iv = e \<and> ''stream-'' @ iv_broadcast_id iv = s) ivs))"

lemma interval_event_simps [simp]:
  "ue_idempotency_key (interval_event n iv d) = iv_idempotency_key iv"
  "ue_quantity_milli (interval_event n iv d) = iv_quantity_milli iv"
  "ue_mm_node_id (interval_event n iv d) = Some n" "ue_egress_epoch (interval_event n iv d) = Some (iv_epoch iv)"
  "ue_broadcast_id (interval_event n iv d) = iv_broadcast_id iv" "ue_unit (interval_event n iv d) = ''egress_gb''"
  "ue_rated_at (interval_event n iv d) = None" "ue_rate_card_version (interval_event n iv d) = None"
  "ue_transaction_id (interval_event n iv d) = None" "ue_user_id (interval_event n iv d) = iv_user_id iv"
  "ue_id (interval_event n iv d) = usage_next d" "ue_cumulative_bytes (interval_event n iv d) = Some (iv_cumulative_bytes iv)"
  "ue_occurred_at (interval_event n iv d) = iv_occurred_at iv"
  by (simp_all add: interval_event_def)

lemma interval_event_checks: "usage_checks (interval_event n iv d) =
   (if iv_quantity_milli iv < 0 then Some ''mm_usage_events_quantity_milli_check'' else None)"
  by (simp add: usage_checks_def unit_labels_def)

lemma insert_usage_eq: "insert_usage n iv d =
   (if iv_quantity_milli iv < 0 then (Inl (Violates ''mm_usage_events_quantity_milli_check''), d)
    else if iv_idempotency_key iv \<in> usage_keys d then (Inr False, d)
    else (Inr True, d\<lparr>usage_events := usage_events d @ [interval_event n iv d], usage_next := usage_next d + 1\<rparr>))"
  by (simp add: insert_usage_def interval_event_checks Let_def)

lemma insert_usage_cases:
  obtains (refused) e where "insert_usage n iv d = (Inl e, d)"
  | (known) "insert_usage n iv d = (Inr False, d)" "0 \<le> iv_quantity_milli iv" "iv_idempotency_key iv \<in> usage_keys d"
  | (new) "insert_usage n iv d = (Inr True, d\<lparr>usage_events := usage_events d @ [interval_event n iv d],
      usage_next := usage_next d + 1\<rparr>)" "0 \<le> iv_quantity_milli iv" "iv_idempotency_key iv \<notin> usage_keys d"
proof (cases "iv_quantity_milli iv < 0")
  case True
  show ?thesis by (rule refused) (simp only: insert_usage_eq True if_True)
next
  case q: False
  show ?thesis
  proof (cases "iv_idempotency_key iv \<in> usage_keys d")
    case True
    show ?thesis by (rule known) (use q True in \<open>simp_all add: insert_usage_eq\<close>)
  next
    case False
    show ?thesis by (rule new) (use q False in \<open>simp_all add: insert_usage_eq\<close>)
  qed
qed

interpretation usage_table: idempotent_post "\<lambda>(n, iv) d. snd (insert_usage n iv d)" "\<lambda>(n, iv). iv_idempotency_key iv" usage_keys
proof
  fix m :: "string \<times> egress_interval" and d :: db
  obtain n iv where m: "m = (n, iv)" by (cases m)
  show "(case m of (n, iv) \<Rightarrow> iv_idempotency_key iv) \<in> usage_keys d \<Longrightarrow> (case m of (n, iv) \<Rightarrow> \<lambda>d. snd (insert_usage n iv d)) d = d"
    by (rule insert_usage_cases [of n iv d]) (auto simp: m)
  show "(case m of (n, iv) \<Rightarrow> \<lambda>d. snd (insert_usage n iv d)) d = d \<or>
      usage_keys ((case m of (n, iv) \<Rightarrow> \<lambda>d. snd (insert_usage n iv d)) d) =
      insert (case m of (n, iv) \<Rightarrow> iv_idempotency_key iv) (usage_keys d)"
    by (rule insert_usage_cases [of n iv d]) (auto simp: m usage_keys_def interval_event_def)
qed

lemma insert_intervals_frame:
  "egress_baseline (snd (insert_intervals n ivs r d)) = egress_baseline d"
proof (induction ivs arbitrary: r d)
  case (Cons iv ivs)
  then show ?case by (cases rule: insert_usage_cases [of n iv d]) simp_all
qed simp

lemma insert_intervals_billed:
  "fst (insert_intervals n ivs r d) = Inr r' \<Longrightarrow>
   billed n e s (snd (insert_intervals n ivs r d)) \<le> billed n e s d + interval_share e s ivs"
proof (induction ivs arbitrary: r d)
  case (Cons iv ivs)
  have m: "interval_share e s (iv # ivs) = (if iv_epoch iv = e \<and> ''stream-'' @ iv_broadcast_id iv = s
      then iv_quantity_milli iv else 0) + interval_share e s ivs"
    by (simp add: interval_share_def)
  show ?case
  proof (cases rule: insert_usage_cases [of n iv d])
    case (refused e)
    then show ?thesis using Cons.prems by simp
  next
    case known
    with Cons.prems have "billed n e s (snd (insert_intervals n ivs r d)) \<le> billed n e s d + interval_share e s ivs"
      by (intro Cons.IH) simp
    then show ?thesis using known m by simp
  next
    case new
    let ?d = "d\<lparr>usage_events := usage_events d @ [interval_event n iv d], usage_next := usage_next d + 1\<rparr>"
    let ?r = "\<lparr>rc_events = rc_events r + 1, rc_bytes = wrap_i64 (rc_bytes r + iv_bytes iv)\<rparr>"
    have "billed n e s (snd (insert_intervals n ivs ?r ?d)) \<le> billed n e s ?d + interval_share e s ivs"
      using new Cons.prems by (intro Cons.IH) simp
    moreover have "billed n e s ?d = billed n e s d + (if iv_epoch iv = e \<and> ''stream-'' @ iv_broadcast_id iv = s
        then iv_quantity_milli iv else 0)"
      by (simp add: billed_def interval_event_def)
    ultimately show ?thesis using new m by simp
  qed
qed (simp add: interval_share_def)

lemma baseline_merge_new: "baseline_key old = baseline_key new \<Longrightarrow> baseline_merge old new = new"
  by (cases old; cases new) (simp add: baseline_merge_def)

definition position :: "string \<Rightarrow> string \<Rightarrow> string \<Rightarrow> int \<Rightarrow> instant \<Rightarrow> baseline_row" where
  "position n s e c t = \<lparr>bl_mm_node_id = n, bl_source = s, bl_epoch = e, bl_cumulative_bytes = c, bl_observed_at = t\<rparr>"

lemma stored_after_upsert:
  "lookup_row baseline_key k (upsert baseline_key baseline_merge (position n s e c t) b) =
     (if k = (n, s) then Some (position n s e c t) else lookup_row baseline_key k b)"
proof (cases "k = (n, s)")
  case True
  then have k: "k = baseline_key (position n s e c t)" by (simp add: position_def)
  have "baseline_merge x (position n s e c t) = position n s e c t" if "lookup_row baseline_key k b = Some x" for x
    using lookup_row_Some_set [OF that] k by (intro baseline_merge_new) simp
  then show ?thesis
    unfolding True [symmetric] using baselines.upsert_lookup_same [of "position n s e c t" b]
    by (simp add: k [symmetric] split: option.splits)
next
  case False
  then show ?thesis by (simp add: baselines.upsert_lookup_other position_def)
qed

lemma upsert_position_wf:
  "baseline_wf d \<Longrightarrow> 0 \<le> c \<Longrightarrow>
   baseline_wf (d\<lparr>egress_baseline := upsert baseline_key baseline_merge (position n s e c t) (egress_baseline d)\<rparr>)"
  using baselines.upsert_distinct [of "egress_baseline d" "position n s e c t"]
    baselines.upsert_all [of "egress_baseline d" "\<lambda>r. 0 \<le> bl_cumulative_bytes r" "position n s e c t"]
  by (simp add: baseline_wf_def position_def baseline_merge_def)

lemma upsert_positions_Cons:
  "upsert_positions n e t ((s, c) # ps) d =
     (if c < 0 then (Inl (Violates ''mm_egress_baseline_cumulative_bytes_check''), d)
      else upsert_positions n e t ps
        (d\<lparr>egress_baseline := upsert baseline_key baseline_merge (position n s e c t) (egress_baseline d)\<rparr>))"
  by (simp add: baseline_checks_def position_def Let_def)

declare upsert_positions.simps(2) [simp del] upsert_positions_Cons [simp]

lemma upsert_positions_effect:
  assumes "distinct (map fst ps)" and "baseline_wf d" and "upsert_positions n e t ps d = (Inr (), d')"
  shows "baseline_wf d' \<and> usage_events d' = usage_events d
    \<and> (\<forall>m s. stored_at m s d' =
          (case map_of ps s of Some c \<Rightarrow> if m = n then Some (position n s e c t) else stored_at m s d | None \<Rightarrow> stored_at m s d))"
  using assms
proof (induction ps arbitrary: d)
  case (Cons x ps)
  obtain s' c where x: "x = (s', c)" by (cases x)
  let ?d = "d\<lparr>egress_baseline := upsert baseline_key baseline_merge (position n s' e c t) (egress_baseline d)\<rparr>"
  have step: "0 \<le> c" "upsert_positions n e t ps ?d = (Inr (), d')"
    using Cons.prems by (auto simp: x split: if_splits)
  have IH: "baseline_wf d' \<and> usage_events d' = usage_events ?d
    \<and> (\<forall>m s. stored_at m s d' =
          (case map_of ps s of Some c \<Rightarrow> if m = n then Some (position n s e c t) else stored_at m s ?d | None \<Rightarrow> stored_at m s ?d))"
    using Cons.prems step by (intro Cons.IH) (simp_all add: upsert_position_wf x)
  have "map_of ps s' = None" using Cons.prems by (simp add: x map_of_eq_None_iff)
  with IH show ?case by (auto simp: x stored_after_upsert split: option.split)
qed auto

lemma record_tx_cases:
  assumes "distinct (map fst ps)" and "baseline_wf d"
  obtains (refused) "snd (record_tx n e t ivs ps d) = d"
  | (written) r d' where "record_tx n e t ivs ps d = (Inr r, d')" "baseline_wf d'"
      "\<And>m s. stored_at m s d' = (case map_of ps s of Some c \<Rightarrow> if m = n then Some (position n s e c t) else stored_at m s d
          | None \<Rightarrow> stored_at m s d)"
      "fst (insert_intervals n ivs \<lparr>rc_events = 0, rc_bytes = 0\<rparr> d) = Inr r"
      "usage_events d' = usage_events (snd (insert_intervals n ivs \<lparr>rc_events = 0, rc_bytes = 0\<rparr> d))"
proof -
  obtain r1 d1 where i: "insert_intervals n ivs \<lparr>rc_events = 0, rc_bytes = 0\<rparr> d = (r1, d1)"
    by (cases "insert_intervals n ivs \<lparr>rc_events = 0, rc_bytes = 0\<rparr> d")
  have b: "egress_baseline d1 = egress_baseline d" using insert_intervals_frame [of n ivs "\<lparr>rc_events = 0, rc_bytes = 0\<rparr>" d] i by simp
  then have wf: "baseline_wf d1" using assms(2) by (simp add: baseline_wf_def)
  obtain r2 d2 where u: "upsert_positions n e t ps d1 = (r2, d2)" by (cases "upsert_positions n e t ps d1")
  show ?thesis
  proof (cases r1)
    case (Inl a)
    then show ?thesis using i refused by (simp add: record_tx_def)
  next
    case r: (Inr r)
    show ?thesis
    proof (cases r2)
      case (Inl a)
      then show ?thesis using i u r refused by (simp add: record_tx_def)
    next
      case (Inr x)
      then have u': "upsert_positions n e t ps d1 = (Inr (), d2)" using u by simp
      have "record_tx n e t ivs ps d = (Inr r, d2)" using i u Inr r by (simp add: record_tx_def)
      moreover note upsert_positions_effect [OF assms(1) wf u']
      ultimately show ?thesis using i r b by (intro written [of r d2]) (simp_all split: option.splits)
    qed
  qed
qed

subsection \<open>One sweep of one node\<close>

abbreviation node_usage :: "string \<Rightarrow> db \<Rightarrow> egress_snapshot \<Rightarrow> usage list" where
  "node_usage n d cur \<equiv> mr_usage (egress_delta (baseline_snapshot (baselines_rows n d)) cur)"

lemma sweep_node_answers:
  fixes w :: "'x dbenv"
  obtains (failed) "world_db (snd (sweep_node \<phi> now node s w)) = world_db w"
      "world_env (snd (sweep_node \<phi> now node s w)) = world_env w"
  | (silent) e where "fst (mn_egress node (world_env w)) = Inl e"
      "world_db (snd (sweep_node \<phi> now node s w)) = world_db w"
      "world_env (snd (sweep_node \<phi> now node s w)) = snd (mn_egress node (world_env w))"
  | (answered) reading cur ivs s2 w2 where "fst (mn_egress node (world_env w)) = Inr reading"
      "cur = snapshot_of reading" "fst w2 = (world_db w, snd (mn_egress node (world_env w)))"
      "ivs = fst (derive_intervals \<phi> (mn_mm_node_id node) cur now (node_usage (mn_mm_node_id node) (world_db w) cur) s2 w2)"
      "world_db (snd (sweep_node \<phi> now node s w)) \<in> {world_db w, snd (record_tx (mn_mm_node_id node) (es_epoch cur) now ivs
          (advanced_positions cur (node_usage (mn_mm_node_id node) (world_db w) cur) ivs) (world_db w))}"
      "world_env (snd (sweep_node \<phi> now node s w)) = snd (mn_egress node (world_env w))"
proof -
  let ?n = "mn_mm_node_id node"
  obtain r1 w1 where b: "sql \<phi> (reads (baselines_rows ?n)) w = (r1, w1)" by (cases "sql \<phi> (reads (baselines_rows ?n)) w")
  then have w1: "fst w1 = fst w" using sql_reads_state [of \<phi> "baselines_rows ?n" w] by simp
  show ?thesis
  proof (cases r1)
    case (Inl e)
    then show ?thesis using b w1 by (intro failed) (simp_all add: sweep_node_def baselines_for_node_def Let_def)
  next
    case (Inr stored)
    then have st: "stored = baselines_rows ?n (world_db w)" using sql_reads_Inr [of \<phi> "baselines_rows ?n" w stored] b by simp
    show ?thesis
    proof (cases "fst (mn_egress node (world_env w))")
      case (Inl e)
      then show ?thesis using b w1 Inr
        by (intro silent) (simp_all add: sweep_node_def baselines_for_node_def drives_def Let_def)
    next
      case a: (Inr reading)
      define cur where "cur = snapshot_of reading"
      define us where "us = node_usage ?n (world_db w) cur"
      define s1 where "s1 = s\<lparr>ms_anomalies := ms_anomalies s @ mr_anomalies (egress_delta (baseline_snapshot stored) cur)\<rparr>"
      define w2 where "w2 = snd (drives (mn_egress node) w1)"
      obtain ivs s3 w3 where d: "derive_intervals \<phi> ?n cur now us s1 w2 = (ivs, s3, w3)"
        by (cases "derive_intervals \<phi> ?n cur now us s1 w2") auto
      have w2: "fst w2 = (world_db w, snd (mn_egress node (world_env w)))" using w1 by (simp add: w2_def drives_def)
      have w3: "fst w3 = fst w2" using derive_intervals_state [of \<phi> ?n cur now us s1 w2] d by simp
      let ?tx = "record_tx ?n (es_epoch cur) now ivs (advanced_positions cur us ivs)"
      have "snd (sweep_node \<phi> now node s w) = snd (sql \<phi> ?tx w3)"
        using b Inr a d w1 st
        by (simp add: sweep_node_def baselines_for_node_def drives_def Let_def record_interval_def
            cur_def us_def s1_def w2_def split_beta split: sum.split)
      moreover have "world_db (snd (sql \<phi> ?tx w3)) \<in> {world_db w, snd (?tx (world_db w))}"
        using sql_db [of \<phi> ?tx w3] w3 w2 by auto
      moreover have "world_env (snd (sql \<phi> ?tx w3)) = snd (mn_egress node (world_env w))" using w3 w2 by simp
      ultimately show ?thesis using a cur_def w2 d us_def by (intro answered [of reading cur w2 ivs s1]) simp_all
    qed
  qed
qed

lemma derive_intervals_sources:
  fixes w :: "'x dbenv"
  shows "subseq (map iv_source (fst (derive_intervals \<phi> n cur now us s w))) (map u_source us)"
proof (induction us arbitrary: s w)
  case (Cons u us)
  show ?case
  proof (cases "broadcast_id_for_source (u_source u)")
    case (Some b)
    obtain r w1 where p: "payer_for_broadcast \<phi> b w = (r, w1)" by (cases "payer_for_broadcast \<phi> b w")
    show ?thesis using Some p Cons.IH [of _ w1]
      by (cases r) (auto simp: split_beta interval_for_def Let_def intro: list_emb_Cons split: option.splits)
  qed (simp add: Cons.IH list_emb_Cons)
qed simp

lemma source_of_broadcast: "broadcast_id_for_source s = Some b \<Longrightarrow> s = ''stream-'' @ b"
  by (auto simp: broadcast_id_for_source_def strip_prefix_Some split: option.splits if_splits)

lemma subseq_distinct: "subseq xs ys \<Longrightarrow> distinct ys \<Longrightarrow> distinct xs"
  by (induction rule: list_emb.induct) (auto dest: list_emb_set)

text \<open>At most one interval is written per source, for the bytes since the source's base.\<close>

lemma share_le:
  assumes "distinct (map iv_source ivs)" and "\<And>iv. iv \<in> set ivs \<Longrightarrow> iv_source iv = ''stream-'' @ iv_broadcast_id iv"
    and "\<And>iv. iv \<in> set ivs \<Longrightarrow> iv_source iv = s \<Longrightarrow> iv_quantity_milli iv \<le> q" and "0 \<le> q"
  shows "interval_share e s ivs \<le> (if s \<in> iv_source ` set ivs then q else 0)"
  using assms
proof (induction ivs)
  case (Cons iv ivs)
  have m: "interval_share e s (iv # ivs) = (if iv_epoch iv = e \<and> iv_source iv = s
      then iv_quantity_milli iv else 0) + interval_share e s ivs"
    using Cons.prems(2) [of iv] by (simp add: interval_share_def)
  have IH: "interval_share e s ivs \<le> (if s \<in> iv_source ` set ivs then q else 0)"
    using Cons.prems by (intro Cons.IH) auto
  have "iv_source iv = s \<Longrightarrow> s \<notin> iv_source ` set ivs" using Cons.prems(1) by auto
  with m IH Cons.prems(3) [of iv] Cons.prems(4) show ?case by auto
qed (simp add: interval_share_def)

lemma milli_gb_le: "0 \<le> b \<Longrightarrow> bytes_to_milli_gb b \<le> b div 1000000" "0 \<le> bytes_to_milli_gb b"
  by (simp_all add: bytes_to_milli_gb_def signed_divide_int_def pos_imp_zdiv_nonneg_iff)

lemma node_usage_eq:
  assumes "baseline_wf d" and "snapshot_wf cur"
  shows "node_usage n d cur = (if baseline_snapshot (baselines_rows n d) = None then [] else
     map (\<lambda>(s, c). \<lparr>u_source = s, u_bytes = c - base_of (baseline_snapshot (baselines_rows n d)) cur s\<rparr>)
       (filter (\<lambda>(s, c). base_of (baseline_snapshot (baselines_rows n d)) cur s < c) (es_bytes cur)))"
proof (rule egress_delta_usage [OF assms(2)])
  fix prev s assume "baseline_snapshot (baselines_rows n d) = Some prev"
  from baseline_snapshot_Some(1) [OF assms(1) this, of s] assms(1) show "0 \<le> count_of (es_bytes prev) s"
    by (auto simp: baseline_wf_def dest: lookup_row_Some_set split: option.splits)
qed

text \<open>One committed sweep: the positions it leaves, and how far the billed totals can move.\<close>

lemma record_effect:
  fixes w :: "'x dbenv"
  assumes wf: "baseline_wf d" and cur: "snapshot_wf cur" and us: "us = node_usage n d cur"
    and ivs: "ivs = fst (derive_intervals \<phi> n cur now us s0 w)"
    and d': "d' = snd (record_tx n (es_epoch cur) now ivs (advanced_positions cur us ivs) d)"
  shows "baseline_wf d'"
    and "stored_at n s d' = stored_at n s d \<or>
      (\<exists>c. map_of (es_bytes cur) s = Some c \<and> stored_at n s d' = Some (position n s (es_epoch cur) c now))"
    and "e \<noteq> es_epoch cur \<Longrightarrow> billed n e s d' \<le> billed n e s d"
    and "billed n (es_epoch cur) s d' \<le> billed n (es_epoch cur) s d \<or>
      (\<exists>c. map_of (es_bytes cur) s = Some c \<and> stored_at n s d' = Some (position n s (es_epoch cur) c now)
         \<and> baseline_snapshot (baselines_rows n d) \<noteq> None
         \<and> base_of (baseline_snapshot (baselines_rows n d)) cur s < c
         \<and> billed n (es_epoch cur) s d' \<le> billed n (es_epoch cur) s d
             + (c - base_of (baseline_snapshot (baselines_rows n d)) cur s) div 1000000)"
proof -
  let ?p = "baseline_snapshot (baselines_rows n d)" and ?ps = "advanced_positions cur us ivs"
  have dc: "distinct (map fst (es_bytes cur))" using cur by (simp add: snapshot_wf_def)
  then have dps: "distinct (map fst ?ps)" unfolding advanced_positions_def by (rule distinct_map_filter)
  have mps: "map_of ?ps s = Some c \<Longrightarrow> map_of (es_bytes cur) s = Some c" for s c
    using dc dps by (auto simp: advanced_positions_def)
  have "distinct (map u_source us)" unfolding us node_usage_eq [OF wf cur] using usage_distinct [OF dc] by simp
  then have div: "distinct (map iv_source ivs)" unfolding ivs by (rule subseq_distinct [OF derive_intervals_sources])
  have iv: "\<exists>u\<in>set us. iv_source iv = u_source u \<and> iv_source iv = ''stream-'' @ iv_broadcast_id iv \<and> iv_epoch iv = es_epoch cur
      \<and> iv_quantity_milli iv = bytes_to_milli_gb (u_bytes u)" if "iv \<in> set ivs" for iv
    using derive_intervals_mem that [unfolded ivs] by (fastforce simp: interval_for_def Let_def dest: source_of_broadcast)
  have u: "map_of (es_bytes cur) (u_source u) = Some (u_bytes u + base_of ?p cur (u_source u)) \<and> 0 < u_bytes u \<and> ?p \<noteq> None"
    if "u \<in> set us" for u
    using that dc unfolding us node_usage_eq [OF wf cur] by (auto split: if_splits)
  show *: "baseline_wf d'"
    by (rule record_tx_cases [OF dps wf, of n "es_epoch cur" now ivs]) (use d' wf in auto)
  show "stored_at n s d' = stored_at n s d \<or>
      (\<exists>c. map_of (es_bytes cur) s = Some c \<and> stored_at n s d' = Some (position n s (es_epoch cur) c now))"
    by (rule record_tx_cases [OF dps wf, of n "es_epoch cur" now ivs])
      (use d' mps in \<open>auto split: option.splits\<close>)
  have bl: "billed n e s d' \<le> billed n e s d + interval_share e s ivs \<and>
      (\<forall>c. map_of ?ps s = Some c \<longrightarrow> stored_at n s d' = Some (position n s (es_epoch cur) c now)) \<or> d' = d" for e s
  proof (rule record_tx_cases [OF dps wf, of n "es_epoch cur" now ivs])
    fix r d2
    assume written: "record_tx n (es_epoch cur) now ivs ?ps d = (Inr r, d2)" "baseline_wf d2"
      "\<And>m s. stored_at m s d2 = (case map_of ?ps s of Some c \<Rightarrow> if m = n then Some (position n s (es_epoch cur) c now)
          else stored_at m s d | None \<Rightarrow> stored_at m s d)"
      "fst (insert_intervals n ivs \<lparr>rc_events = 0, rc_bytes = 0\<rparr> d) = Inr r"
      "usage_events d2 = usage_events (snd (insert_intervals n ivs \<lparr>rc_events = 0, rc_bytes = 0\<rparr> d))"
    then have "d' = d2" using d' by simp
    moreover have "billed n e s d2 = billed n e s (snd (insert_intervals n ivs \<lparr>rc_events = 0, rc_bytes = 0\<rparr> d))"
      by (simp add: billed_def written(5))
    ultimately show ?thesis using insert_intervals_billed [OF written(4), of e s] written(3) [of n s] by simp
  qed (simp add: d')
  show "e \<noteq> es_epoch cur \<Longrightarrow> billed n e s d' \<le> billed n e s d"
  proof -
    assume "e \<noteq> es_epoch cur"
    then have "filter (\<lambda>iv. iv_epoch iv = e \<and> ''stream-'' @ iv_broadcast_id iv = s) ivs = []"
      using iv by (auto simp: filter_empty_conv)
    then have "interval_share e s ivs = 0" by (simp add: interval_share_def)
    with bl [of e s] show ?thesis by auto
  qed
  show "billed n (es_epoch cur) s d' \<le> billed n (es_epoch cur) s d \<or>
      (\<exists>c. map_of (es_bytes cur) s = Some c \<and> stored_at n s d' = Some (position n s (es_epoch cur) c now)
         \<and> ?p \<noteq> None \<and> base_of ?p cur s < c
         \<and> billed n (es_epoch cur) s d' \<le> billed n (es_epoch cur) s d + (c - base_of ?p cur s) div 1000000)"
  proof (cases "s \<in> iv_source ` set ivs")
    case False
    have "interval_share (es_epoch cur) s ivs \<le> 0"
      using share_le [OF div, of s 0 "es_epoch cur"] iv False by fastforce
    with bl [of "es_epoch cur" s] show ?thesis by auto
  next
    case True
    then obtain v where v: "v \<in> set ivs" "iv_source v = s" by auto
    then obtain x where x: "x \<in> set us" "u_source x = s" using iv by metis
    let ?c = "u_bytes x + base_of ?p cur s"
    have c: "map_of (es_bytes cur) s = Some ?c" "0 < u_bytes x" "?p \<noteq> None" using u [OF x(1)] x(2) by simp_all
    have "(s, ?c) \<in> set ?ps" using c(1) dc True by (auto simp: advanced_positions_def)
    then have ps: "map_of ?ps s = Some ?c" using dps by simp
    have q: "iv_quantity_milli iv \<le> u_bytes x div 1000000" if i: "iv \<in> set ivs" "iv_source iv = s" for iv
    proof -
      from iv [OF i(1)] i(2) obtain y where y: "y \<in> set us" "u_source y = s" "iv_quantity_milli iv = bytes_to_milli_gb (u_bytes y)"
        by metis
      have "u_bytes y = u_bytes x" using u [OF y(1)] y(2) c(1) by simp
      then show ?thesis using y(3) c(2) milli_gb_le(1) by simp
    qed
    have "interval_share (es_epoch cur) s ivs \<le> (if s \<in> iv_source ` set ivs then u_bytes x div 1000000 else 0)"
    proof (rule share_le [OF div _ q])
      show "iv_source v = ''stream-'' @ iv_broadcast_id v" if "v \<in> set ivs" for v using iv [OF that] by blast
    qed (use c(2) in \<open>simp_all add: pos_imp_zdiv_nonneg_iff\<close>)
    then have "interval_share (es_epoch cur) s ivs \<le> u_bytes x div 1000000" using True by simp
    with bl [of "es_epoch cur" s] c ps show ?thesis by auto
  qed
qed

subsection \<open>Sequences of sweeps\<close>

text \<open>The contract of a node's counters: within an epoch no counter decreases, and an epoch, once
  over, does not come back.\<close>

definition counters_grow :: "egress_snapshot list \<Rightarrow> bool" where
  "counters_grow ps \<longleftrightarrow> distinct (remdups_adj (map es_epoch ps))
     \<and> sorted_wrt (\<lambda>a b. es_epoch a = es_epoch b \<longrightarrow>
         (\<forall>(s, c)\<in>set (es_bytes b). count_of (es_bytes a) s \<le> c)) ps"

definition within_delivery :: "egress_snapshot list \<Rightarrow> string \<Rightarrow> string \<Rightarrow> int \<Rightarrow> bool" where
  "within_delivery ps e s q \<longleftrightarrow> (\<exists>p\<in>set ps. es_epoch p = e \<and> 1000000 * q \<le> count_of (es_bytes p) s)"

definition meter_inv :: "string \<Rightarrow> egress_snapshot list \<Rightarrow> db \<Rightarrow> bool" where
  "meter_inv n past d \<longleftrightarrow> baseline_wf d
   \<and> (\<forall>s r. stored_at n s d = Some r \<longrightarrow>
        (\<exists>p\<in>set past. es_epoch p = bl_epoch r \<and> map_of (es_bytes p) s = Some (bl_cumulative_bytes r)))
   \<and> (\<forall>e s. 0 < billed n e s d \<longrightarrow> within_delivery past e s (billed n e s d))
   \<and> (past \<noteq> [] \<longrightarrow> (\<forall>s. 0 < billed n (es_epoch (last past)) s d \<longrightarrow>
        (\<exists>r. stored_at n s d = Some r \<and> bl_epoch r = es_epoch (last past)
           \<and> 1000000 * billed n (es_epoch (last past)) s d \<le> bl_cumulative_bytes r)))"

lemma new_epoch_fresh:
  "distinct (remdups_adj (xs @ [x])) \<Longrightarrow> xs \<noteq> [] \<Longrightarrow> x \<noteq> last xs \<Longrightarrow> x \<notin> set xs"
proof -
  assume d: "distinct (remdups_adj (xs @ [x]))" and n: "xs \<noteq> []" and x: "x \<noteq> last xs"
  have "xs @ [x] = butlast xs @ [last xs, x]" using append_butlast_last_id [OF n] by simp
  then have "remdups_adj (xs @ [x]) = remdups_adj (butlast xs @ [last xs, x])" by (simp only:)
  also have "... = remdups_adj xs @ [x]"
    using remdups_adj_append_two [of "butlast xs" "last xs" x] n x by simp
  finally have "remdups_adj (xs @ [x]) = remdups_adj xs @ [x]" .
  with d show "x \<notin> set xs" by simp
qed

text \<open>After the node answered with a new reading, before anything of it is written.\<close>

lemma meter_inv_read:
  assumes inv: "meter_inv n past d" and g: "counters_grow (past @ [cur])"
  shows "meter_inv n (past @ [cur]) d"
proof -
  have "0 < billed n (es_epoch cur) s d \<Longrightarrow>
      \<exists>r. stored_at n s d = Some r \<and> bl_epoch r = es_epoch cur \<and> 1000000 * billed n (es_epoch cur) s d \<le> bl_cumulative_bytes r" for s
  proof -
    assume b: "0 < billed n (es_epoch cur) s d"
    with inv have w: "within_delivery past (es_epoch cur) s (billed n (es_epoch cur) s d)" by (simp add: meter_inv_def)
    then obtain q where q: "q \<in> set past" "es_epoch q = es_epoch cur" by (auto simp: within_delivery_def)
    then have p: "past \<noteq> []" "es_epoch cur \<in> set (map es_epoch past)" by (auto intro: image_eqI [OF sym])
    have "es_epoch cur = es_epoch (last past)"
      using new_epoch_fresh [of "map es_epoch past" "es_epoch cur"] g p by (auto simp: counters_grow_def last_map)
    with inv b p(1) show ?thesis by (simp add: meter_inv_def)
  qed
  moreover have "within_delivery past e s q \<Longrightarrow> within_delivery (past @ [cur]) e s q" for e s q
    by (auto simp: within_delivery_def)
  ultimately show ?thesis using inv unfolding meter_inv_def by auto
qed

text \<open>The base a source is measured from covers everything billed to it in the epoch so far.\<close>

lemma meter_inv_row:
  "meter_inv n (past @ [cur]) d \<Longrightarrow> 0 < billed n (es_epoch cur) s d \<Longrightarrow>
   \<exists>r. stored_at n s d = Some r \<and> bl_epoch r = es_epoch cur \<and> 1000000 * billed n (es_epoch cur) s d \<le> bl_cumulative_bytes r"
  by (simp add: meter_inv_def)

lemma base_covers_billed:
  assumes inv: "meter_inv n (past @ [cur]) d" and p: "baseline_snapshot (baselines_rows n d) = Some prev"
    and b: "0 < billed n (es_epoch cur) s d"
  shows "1000000 * billed n (es_epoch cur) s d \<le> base_of (Some prev) cur s"
proof -
  from meter_inv_row [OF inv b] obtain r where r: "stored_at n s d = Some r" "bl_epoch r = es_epoch cur"
      "1000000 * billed n (es_epoch cur) s d \<le> bl_cumulative_bytes r" by blast
  have wf: "baseline_wf d" using inv by (simp add: meter_inv_def)
  have "es_epoch prev = es_epoch cur" using baseline_snapshot_Some(2) [OF wf p r(1)] r(2) by simp
  then show ?thesis using baseline_snapshot_Some(1) [OF wf p, of s] r by (simp add: base_of_def)
qed

lemma stored_below_reading:
  assumes inv: "meter_inv n (past @ [cur]) d" and g: "counters_grow (past @ [cur])" and wf: "snapshot_wf cur"
    and r: "stored_at n s d = Some r" "bl_epoch r = es_epoch cur" and c: "map_of (es_bytes cur) s = Some c"
  shows "bl_cumulative_bytes r \<le> c"
proof -
  from inv r obtain p where p: "p \<in> set (past @ [cur])" "es_epoch p = es_epoch cur" "map_of (es_bytes p) s = Some (bl_cumulative_bytes r)"
    unfolding meter_inv_def by metis
  show ?thesis
  proof (cases "p = cur")
    case True
    then show ?thesis using p c by simp
  next
    case False
    then have "p \<in> set past" using p(1) by simp
    moreover have "(s, c) \<in> set (es_bytes cur)" using c by (rule map_of_SomeD)
    ultimately have "count_of (es_bytes p) s \<le> c" using g p(2) by (auto simp: counters_grow_def sorted_wrt_append)
    then show ?thesis using p(3) by (simp add: count_of_def)
  qed
qed

lemma meter_inv_write:
  fixes w :: "'x dbenv"
  assumes inv: "meter_inv n (past @ [cur]) d" and g: "counters_grow (past @ [cur])" and cur: "snapshot_wf cur"
    and us: "us = node_usage n d cur" and ivs: "ivs = fst (derive_intervals \<phi> n cur now us s0 w)"
    and d': "d' = snd (record_tx n (es_epoch cur) now ivs (advanced_positions cur us ivs) d)"
  shows "meter_inv n (past @ [cur]) d'"
proof -
  let ?e = "es_epoch cur" and ?P = "baseline_snapshot (baselines_rows n d)"
  have wf: "baseline_wf d" using inv by (simp add: meter_inv_def)
  note eff = record_effect [OF wf cur us ivs d']
  have rows: "\<exists>p\<in>set (past @ [cur]). es_epoch p = bl_epoch r \<and> map_of (es_bytes p) s = Some (bl_cumulative_bytes r)"
    if r: "stored_at n s d' = Some r" for s r
    using eff(2) [of s]
  proof (elim disjE exE conjE)
    assume "stored_at n s d' = stored_at n s d"
    then have "stored_at n s d = Some r" using r by simp
    then show ?thesis using inv unfolding meter_inv_def by blast
  next
    fix c assume c: "map_of (es_bytes cur) s = Some c" "stored_at n s d' = Some (position n s ?e c now)"
    then show ?thesis using r by (intro bexI [of _ cur]) (auto simp: position_def)
  qed
  have row: "\<exists>r. stored_at n s d' = Some r \<and> bl_epoch r = ?e \<and> 1000000 * billed n ?e s d' \<le> bl_cumulative_bytes r"
    if b: "0 < billed n ?e s d'" for s
    using eff(4) [of s]
  proof (elim disjE exE conjE)
    assume le: "billed n ?e s d' \<le> billed n ?e s d"
    with b have "0 < billed n ?e s d" by linarith
    then obtain r where r: "stored_at n s d = Some r" "bl_epoch r = ?e" "1000000 * billed n ?e s d \<le> bl_cumulative_bytes r"
      using meter_inv_row [OF inv] by blast
    from eff(2) [of s] show ?thesis
    proof (elim disjE exE conjE)
      assume "stored_at n s d' = stored_at n s d"
      then show ?thesis using r le by auto
    next
      fix c assume c: "map_of (es_bytes cur) s = Some c" "stored_at n s d' = Some (position n s ?e c now)"
      then show ?thesis using stored_below_reading [OF inv g cur r(1,2) c(1)] r(3) le by (auto simp: position_def)
    qed
  next
    fix c assume c: "stored_at n s d' = Some (position n s ?e c now)" "?P \<noteq> None" "base_of ?P cur s < c"
      "billed n ?e s d' \<le> billed n ?e s d + (c - base_of ?P cur s) div 1000000"
    from c(2) obtain prev where prev: "?P = Some prev" by blast
    have "1000000 * billed n ?e s d \<le> base_of ?P cur s"
    proof (cases "0 < billed n ?e s d")
      case True
      then show ?thesis using base_covers_billed [OF inv prev] prev by simp
    next
      case False
      have "0 \<le> base_of ?P cur s"
        using baseline_snapshot_Some(1) [OF wf prev, of s] wf prev
        by (auto simp: base_of_def baseline_wf_def dest: lookup_row_Some_set split: option.splits)
      then show ?thesis using False by simp
    qed
    moreover have "1000000 * ((c - base_of ?P cur s) div 1000000) \<le> c - base_of ?P cur s" by simp
    ultimately have "1000000 * billed n ?e s d' \<le> c" using c(4) by linarith
    then show ?thesis using c(1) by (simp add: position_def)
  qed
  have "within_delivery (past @ [cur]) e s (billed n e s d')" if b: "0 < billed n e s d'" for e s
  proof (cases "e = ?e")
    case True
    from row [of s] b True obtain r where r: "stored_at n s d' = Some r" "bl_epoch r = e" "1000000 * billed n e s d' \<le> bl_cumulative_bytes r" by auto
    from rows [OF r(1)] r(2,3) show ?thesis by (auto simp: within_delivery_def count_of_def)
  next
    case False
    then have le: "billed n e s d' \<le> billed n e s d" by (rule eff(3))
    with b have "0 < billed n e s d" by linarith
    with inv have "within_delivery (past @ [cur]) e s (billed n e s d)" unfolding meter_inv_def by blast
    then show ?thesis using le by (force simp: within_delivery_def)
  qed
  then show ?thesis using eff(1) rows row by (simp add: meter_inv_def)
qed

text \<open>A node whose answers are a given script, one per poll.\<close>

definition scripted :: "string \<Rightarrow> (string + switch_egress) list metered_node" where
  "scripted n = \<lparr>mn_mm_node_id = n,
     mn_egress = (\<lambda>rs. case rs of [] \<Rightarrow> (Inl ''no answer'', []) | r # rest \<Rightarrow> (r, rest))\<rparr>"

definition snapshots :: "(string + switch_egress) list \<Rightarrow> egress_snapshot list" where
  "snapshots rs = concat (map (\<lambda>r. case r of Inl _ \<Rightarrow> [] | Inr e \<Rightarrow> [snapshot_of e]) rs)"

definition sweep_script :: "schedule \<Rightarrow> string \<Rightarrow> instant \<Rightarrow> (string + switch_egress) list dbenv \<Rightarrow> (string + switch_egress) list dbenv" where
  "sweep_script \<phi> n now w = snd (sweep_egress \<phi> [scripted n] now w)"

definition script_inv :: "string \<Rightarrow> (string + switch_egress) list \<Rightarrow> (string + switch_egress) list dbenv \<Rightarrow> bool" where
  "script_inv n rs w \<longleftrightarrow> (\<exists>used. rs = used @ world_env w \<and> meter_inv n (snapshots used) (world_db w))"

lemma counters_grow_prefix: "counters_grow (xs @ ys) \<Longrightarrow> counters_grow xs"
proof -
  assume g: "counters_grow (xs @ ys)"
  then have "distinct (remdups_adj (map es_epoch (xs @ ys)))" by (simp add: counters_grow_def)
  moreover have "\<exists>zs. remdups_adj (as @ bs) = remdups_adj as @ zs" for as bs :: "string list"
  proof (induction bs rule: rev_induct)
    case (snoc b bs)
    then obtain zs where z: "remdups_adj (as @ bs) = remdups_adj as @ zs" by blast
    show ?case
    proof (cases "as @ bs = []")
      case False
      then have e: "(as @ bs) @ [b] = butlast (as @ bs) @ [last (as @ bs), b]" using append_butlast_last_id [OF False] by simp
      have "remdups_adj ((as @ bs) @ [b]) = remdups_adj (as @ bs) @ (if last (as @ bs) = b then [] else [b])"
        unfolding e remdups_adj_append_two using append_butlast_last_id [OF False] by simp
      then show ?thesis using z by simp
    qed simp
  qed simp
  ultimately have "distinct (remdups_adj (map es_epoch xs))" by (metis distinct_append map_append)
  then show ?thesis using g by (simp add: counters_grow_def sorted_wrt_append)
qed

interpretation script_run: invariant_system "sweep_script \<phi> n" "\<lambda>w. counters_grow (snapshots rs) \<and> script_inv n rs w" for \<phi> n rs
proof
  fix now :: instant and w :: "(string + switch_egress) list dbenv"
  assume "counters_grow (snapshots rs) \<and> script_inv n rs w"
  then obtain used where g: "counters_grow (snapshots rs)" and u: "rs = used @ world_env w" "meter_inv n (snapshots used) (world_db w)"
    by (auto simp: script_inv_def)
  have e: "sweep_script \<phi> n now w = snd (sweep_node \<phi> now (scripted n) empty_sweep w)"
    by (simp add: sweep_script_def sweep_egress_def split_beta)
  have id: "mn_mm_node_id (scripted n) = n" by (simp add: scripted_def)
  have "script_inv n rs (sweep_script \<phi> n now w)"
    unfolding e
  proof (cases rule: sweep_node_answers [of \<phi> now "scripted n" empty_sweep w])
    case failed
    then show "script_inv n rs (snd (sweep_node \<phi> now (scripted n) empty_sweep w))" using u by (auto simp: script_inv_def)
  next
    case (silent x)
    then have "world_env w = [] \<and> world_env (snd (sweep_node \<phi> now (scripted n) empty_sweep w)) = []
        \<or> world_env w = Inl x # world_env (snd (sweep_node \<phi> now (scripted n) empty_sweep w))"
      by (auto simp: scripted_def split: list.splits)
    then show "script_inv n rs (snd (sweep_node \<phi> now (scripted n) empty_sweep w))"
    proof
      assume "world_env w = Inl x # world_env (snd (sweep_node \<phi> now (scripted n) empty_sweep w))"
      then show ?thesis using u silent
        unfolding script_inv_def by (intro exI [of _ "used @ [Inl x]"]) (simp add: snapshots_def)
    qed (use u silent in \<open>auto simp: script_inv_def\<close>)
  next
    case (answered reading cur ivs s2 w2)
    let ?w = "snd (sweep_node \<phi> now (scripted n) empty_sweep w)"
    have env: "world_env w = Inr reading # world_env ?w"
      using answered(1,6) by (auto simp: scripted_def split: list.splits)
    have sn: "snapshots (used @ [Inr reading]) = snapshots used @ [cur]" using answered(2) by (simp add: snapshots_def)
    have gr: "counters_grow (snapshots used @ [cur])"
      using g u(1) env counters_grow_prefix [of "snapshots used @ [cur]" "snapshots (world_env ?w)"]
      by (simp add: snapshots_def answered(2))
    have wf: "snapshot_wf cur" unfolding answered(2) by (rule snapshot_of_wf)
    note rd = meter_inv_read [OF u(2) gr]
    have "meter_inv n (snapshots used @ [cur]) (world_db ?w)"
      using answered(5) rd meter_inv_write [OF rd gr wf refl answered(4) [unfolded id] refl] unfolding id by auto
    then show "script_inv n rs ?w" unfolding script_inv_def using u(1) env sn
      by (intro exI [of _ "used @ [Inr reading]"]) simp
  qed
  then show "counters_grow (snapshots rs) \<and> script_inv n rs (sweep_script \<phi> n now w)" using g by simp
qed

subsection \<open>A node with baselines from two epochs\<close>

definition stranded :: "string \<Rightarrow> string \<Rightarrow> string \<Rightarrow> db \<Rightarrow> bool" where
  "stranded n e s d \<longleftrightarrow> baseline_wf d \<and> (\<exists>r. stored_at n s d = Some r \<and> bl_epoch r = e)
     \<and> (\<exists>t r. stored_at n t d = Some r \<and> bl_epoch r \<noteq> e)"

lemma stranded_no_baseline: "stranded n e s d \<Longrightarrow> baseline_snapshot (baselines_rows n d) = None"
proof (rule ccontr)
  assume st: "stranded n e s d" and "baseline_snapshot (baselines_rows n d) \<noteq> None"
  then obtain p where p: "baseline_snapshot (baselines_rows n d) = Some p" by blast
  have wf: "baseline_wf d" using st by (simp add: stranded_def)
  from st obtain r t r' where "stored_at n s d = Some r" "bl_epoch r = e" "stored_at n t d = Some r'" "bl_epoch r' \<noteq> e"
    by (auto simp: stranded_def)
  then show False using baseline_snapshot_Some(2) [OF wf p, of s r] baseline_snapshot_Some(2) [OF wf p, of t r'] by simp
qed

lemma stranded_stays:
  fixes w :: "'x dbenv"
  assumes st: "stranded n e s d" and cur: "snapshot_wf cur" "es_epoch cur \<noteq> e" "s \<notin> fst ` set (es_bytes cur)"
    and us: "us = node_usage n d cur" and ivs: "ivs = fst (derive_intervals \<phi> n cur now us s0 w)"
    and d': "d' = snd (record_tx n (es_epoch cur) now ivs (advanced_positions cur us ivs) d)"
  shows "stranded n e s d' \<and> usage_events d' = usage_events d"
proof -
  have wf: "baseline_wf d" using st by (simp add: stranded_def)
  have none: "us = []" "ivs = []" using stranded_no_baseline [OF st] by (simp_all add: us ivs egress_delta_def)
  note eff = record_effect [OF wf cur(1) us ivs d']
  have "map_of (es_bytes cur) s = None" using cur(3) by (simp add: map_of_eq_None_iff)
  then have s: "stored_at n s d' = stored_at n s d" using eff(2) [of s] by auto
  have "\<exists>r. stored_at n t d' = Some r \<and> bl_epoch r \<noteq> e" if "stored_at n t d = Some r" "bl_epoch r \<noteq> e" for t r
    using eff(2) [of t] that cur(2) by (auto simp: position_def)
  moreover from st obtain t r where "stored_at n t d = Some r" "bl_epoch r \<noteq> e" by (auto simp: stranded_def)
  ultimately have "\<exists>t r. stored_at n t d' = Some r \<and> bl_epoch r \<noteq> e" by blast
  then have "stranded n e s d'" using st s eff(1) by (simp add: stranded_def)
  moreover have "usage_events d' = usage_events d"
  proof -
    have "distinct (map fst (advanced_positions cur us ivs))"
      using cur(1) unfolding advanced_positions_def snapshot_wf_def by (auto intro: distinct_map_filter)
    from this wf show ?thesis unfolding d' none
      by (rule record_tx_cases [where n = n and e = "es_epoch cur" and t = now and ivs = "[]"]) simp_all
  qed
  ultimately show ?thesis by simp
qed

definition stranding :: "string \<Rightarrow> string \<Rightarrow> (string + switch_egress) list \<Rightarrow> bool" where
  "stranding e s rs \<longleftrightarrow> list_all (\<lambda>r. case r of Inl _ \<Rightarrow> True | Inr rd \<Rightarrow> se_epoch rd \<noteq> e \<and> s \<notin> fst ` set (se_sources rd)) rs"

lemma snapshot_sources: "fst ` set (es_bytes (snapshot_of rd)) = fst ` set (se_sources rd)"
proof -
  have "fst ` set (AList.update k v m) = insert k (fst ` set m)" for k and v :: int and m :: counters
    by (induction m) auto
  then have "fst ` set (fold add_reading rs m) = fst ` set rs \<union> fst ` set m" for rs m
    by (induction rs arbitrary: m) (auto simp: add_reading_def)
  then show ?thesis by (simp add: snapshot_of_def)
qed

interpretation stranded_run: invariant_system "sweep_script \<phi> n"
    "\<lambda>w. stranding e s (world_env w) \<and> stranded n e s (world_db w) \<and> usage_events (world_db w) = evs" for \<phi> n e s evs
proof
  fix now :: instant and w :: "(string + switch_egress) list dbenv"
  assume I: "stranding e s (world_env w) \<and> stranded n e s (world_db w) \<and> usage_events (world_db w) = evs"
  let ?w = "snd (sweep_node \<phi> now (scripted n) empty_sweep w)"
  have eq: "sweep_script \<phi> n now w = ?w"
    by (simp add: sweep_script_def sweep_egress_def split_beta)
  have id: "mn_mm_node_id (scripted n) = n" by (simp add: scripted_def)
  have env: "stranding e s (snd (mn_egress (scripted n) (world_env w)))"
    using I by (auto simp: stranding_def scripted_def split: list.splits)
  show "stranding e s (world_env (sweep_script \<phi> n now w)) \<and> stranded n e s (world_db (sweep_script \<phi> n now w))
      \<and> usage_events (world_db (sweep_script \<phi> n now w)) = evs"
    unfolding eq
  proof (cases rule: sweep_node_answers [of \<phi> now "scripted n" empty_sweep w])
    case failed
    then show "stranding e s (world_env ?w) \<and> stranded n e s (world_db ?w) \<and> usage_events (world_db ?w) = evs" using I by simp
  next
    case (silent x)
    then show "stranding e s (world_env ?w) \<and> stranded n e s (world_db ?w) \<and> usage_events (world_db ?w) = evs" using I env by simp
  next
    case (answered reading cur ivs s2 w2)
    have "se_epoch reading \<noteq> e \<and> s \<notin> fst ` set (se_sources reading)"
      using I answered(1) by (auto simp: stranding_def scripted_def split: list.splits)
    then have c: "es_epoch cur \<noteq> e" "s \<notin> fst ` set (es_bytes cur)"
      unfolding answered(2) snapshot_sources by (simp_all add: snapshot_of_def)
    have wf: "snapshot_wf cur" unfolding answered(2) by (rule snapshot_of_wf)
    from I have "stranded n e s (world_db w)" by simp
    from stranded_stays [OF this wf c refl answered(4) [unfolded id] refl] I
    show "stranding e s (world_env ?w) \<and> stranded n e s (world_db ?w) \<and> usage_events (world_db ?w) = evs"
      using answered(5) answered(6) env unfolding id by auto
  qed
qed

section \<open>Properties\<close>

definition mb :: "int \<Rightarrow> int" where
  "mb n = n * 1000000"

definition reading :: "string \<Rightarrow> (string \<times> int) list \<Rightarrow> string + switch_egress" where
  "reading e ss = Inr \<lparr>se_epoch = e, se_since = 0, se_overhead_bytes_per_packet = 38, se_sources = ss\<rparr>"

text \<open>A database with one funded broadcaster hosting the broadcasts a and b.\<close>

definition metered_db :: db where
  "metered_db = (world_db (fold (run_wallet_op no_faults) [CreateWallet ''u'' ''eur'' 0, Deposit ''u'' ''eur'' 1000 ''k''] ((empty_db, ()), 0)))
     \<lparr>streams := [\<lparr>st_id = ''a'', st_host_user_id = ''u'', st_status = ''live'', st_started_at = 0\<rparr>,
                 \<lparr>st_id = ''b'', st_host_user_id = ''u'', st_status = ''live'', st_started_at = 0\<rparr>]\<rparr>"

lemma script_bills_within_delivery:
  assumes "counters_grow (snapshots rs)" and "baseline_wf d" and "\<forall>r\<in>set (egress_baseline d). bl_mm_node_id r \<noteq> n"
    and "\<forall>v\<in>set (usage_events d). ue_mm_node_id v \<noteq> Some n"
  shows "let w = fold (sweep_script \<phi> n) ts ((d, rs), k) in
     \<exists>used. rs = used @ world_env w \<and>
       (\<forall>e s. 0 < billed n e s (world_db w) \<longrightarrow>
          (\<exists>p\<in>set (snapshots used). es_epoch p = e \<and> 1000000 * billed n e s (world_db w) \<le> count_of (es_bytes p) s))"
proof -
  have "billed n e s d = 0" for e s
  proof -
    have f: "filter (\<lambda>v. ue_mm_node_id v = Some n \<and> ue_egress_epoch v = Some e \<and> ''stream-'' @ ue_broadcast_id v = s) (usage_events d) = []"
      using assms(4) by (auto simp: filter_empty_conv)
    show ?thesis unfolding billed_def f by simp
  qed
  moreover have "stored_at n s d = None" for s using assms(3) by (auto simp: lookup_row_None)
  ultimately have "meter_inv n (snapshots []) d" using assms(2) by (simp add: meter_inv_def snapshots_def)
  then have "counters_grow (snapshots rs) \<and> script_inv n rs ((d, rs), k)" using assms(1) by (auto simp: script_inv_def)
  from script_run.run_keeps [OF this, of \<phi> ts] show ?thesis
    unfolding script_inv_def meter_inv_def within_delivery_def Let_def by blast
qed

text \<open>C2: No broadcast is billed for more than was delivered, by a node that counts as the meter expects:
  when the node starts with no baselines and no events, its counters only grow within an epoch and an
  epoch does not come back, then after any number of sweeps, under any faults, the quantity billed to a source in an epoch (thousandths of a gigabyte, so a
  million bytes each) is at most what one of the node's own readings in that epoch shows.\<close>

theorem never_bills_more_than_delivered:
  assumes "counters_grow (snapshots rs)" and "baseline_wf d" and "\<forall>r\<in>set (egress_baseline d). bl_mm_node_id r \<noteq> n"
    and "\<forall>v\<in>set (usage_events d). ue_mm_node_id v \<noteq> Some n"
  shows "let w = fold (sweep_script \<phi> n) ts ((d, rs), k) in
     \<exists>used. rs = used @ world_env w \<and>
       (\<forall>e s. 0 < billed n e s (world_db w) \<longrightarrow>
          (\<exists>p\<in>set (snapshots used). es_epoch p = e \<and> 1000000 * billed n e s (world_db w) \<le> count_of (es_bytes p) s))"
  using assms by (rule script_bills_within_delivery)

theorem never_bills_more_than_delivered_witness:
  "let rs = [reading ''e1'' [(''stream-a'', mb 1)], reading ''e1'' [(''stream-a'', mb 5)], Inl ''timeout'',
             reading ''e2'' [(''stream-a'', mb 3)]] in
   counters_grow (snapshots rs) \<and>
   (\<exists>used. rs = used @ world_env (fold (sweep_script no_faults ''n'') [1, 2, 3, 4] ((metered_db, rs), 0)) \<and>
     (\<forall>e s. 0 < billed ''n'' e s (world_db (fold (sweep_script no_faults ''n'') [1, 2, 3, 4] ((metered_db, rs), 0))) \<longrightarrow>
        (\<exists>p\<in>set (snapshots used). es_epoch p = e \<and>
           1000000 * billed ''n'' e s (world_db (fold (sweep_script no_faults ''n'') [1, 2, 3, 4] ((metered_db, rs), 0)))
             \<le> count_of (es_bytes p) s)))
   \<and> map ue_quantity_milli (usage_events (world_db (fold (sweep_script no_faults ''n'') [1, 2, 3, 4] ((metered_db, rs), 0)))) = [4, 3]"
proof -
  define rs where "rs = [reading ''e1'' [(''stream-a'', mb 1)], reading ''e1'' [(''stream-a'', mb 5)], Inl ''timeout'',
             reading ''e2'' [(''stream-a'', mb 3)]]"
  have g: "counters_grow (snapshots rs)" unfolding rs_def by code_simp
  have d: "baseline_wf metered_db" "\<forall>r\<in>set (egress_baseline metered_db). bl_mm_node_id r \<noteq> ''n''"
    "\<forall>v\<in>set (usage_events metered_db). ue_mm_node_id v \<noteq> Some ''n''" by code_simp+
  have q: "map ue_quantity_milli (usage_events (world_db (fold (sweep_script no_faults ''n'') [1, 2, 3, 4] ((metered_db, rs), 0)))) = [4, 3]"
    unfolding rs_def by code_simp
  show ?thesis
    using never_bills_more_than_delivered [OF g d, of no_faults "[1, 2, 3, 4]" 0] g q unfolding rs_def [symmetric] Let_def by simp
qed

text \<open>C33: A restarted node is never billed again while a source of its previous life stays away and the epoch of
  that life does not come back.
  Baselines are never deleted, a reading only moves the baselines of the sources in it, and a
  node whose baselines have two epochs has no usable baseline: every later reading is then taken
  for a first one, and no sweep ever writes a usage event, whatever the node delivers. The comment on
  \<^verbatim>\<open>baseline_snapshot\<close> expects one lost interval only.\<close>

theorem restart_stops_billing:
  assumes "stranded n e s d" and "stranding e s rs"
  shows "usage_events (world_db (fold (sweep_script \<phi> n) ts ((d, rs), k))) = usage_events d"
proof -
  have "stranding e s (world_env ((d, rs), k)) \<and> stranded n e s (world_db ((d, rs), k)) \<and> usage_events (world_db ((d, rs), k)) = usage_events d"
    using assms by simp
  from stranded_run.run_keeps [OF this, of \<phi> ts] show ?thesis by blast
qed

theorem restart_stops_billing_witness:
  "let d = world_db (fold (sweep_script no_faults ''n'') [1, 2] ((metered_db,
         [reading ''e1'' [(''stream-a'', mb 1)], reading ''e2'' [(''stream-b'', mb 5)]]), 0)) in
   stranded ''n'' ''e1'' ''stream-a'' d
   \<and> usage_events (world_db (fold (sweep_script no_faults ''n'') [3, 4] ((d,
        [reading ''e2'' [(''stream-b'', mb 500)], reading ''e2'' [(''stream-b'', mb 900)]]), 0))) = usage_events d
   \<and> map ue_quantity_milli (usage_events d) = [5]"
proof -
  define d where "d = world_db (fold (sweep_script no_faults ''n'') [1, 2] ((metered_db,
         [reading ''e1'' [(''stream-a'', mb 1)], reading ''e2'' [(''stream-b'', mb 5)]]), 0))"
  have "baseline_wf d" unfolding d_def by code_simp
  moreover have "stored_at ''n'' ''stream-a'' d = Some (position ''n'' ''stream-a'' ''e1'' (mb 1) 1)"
    "stored_at ''n'' ''stream-b'' d = Some (position ''n'' ''stream-b'' ''e2'' (mb 5) 2)" unfolding d_def by code_simp+
  ultimately have st: "stranded ''n'' ''e1'' ''stream-a'' d" by (force simp: stranded_def position_def)
  have sg: "stranding ''e1'' ''stream-a'' [reading ''e2'' [(''stream-b'', mb 500)], reading ''e2'' [(''stream-b'', mb 900)]]"
    by (simp add: stranding_def reading_def)
  have "map ue_quantity_milli (usage_events d) = [5]" unfolding d_def by code_simp
  with st restart_stops_billing [OF st sg, of no_faults "[3, 4]" 0] show ?thesis unfolding Let_def d_def [symmetric] by simp
qed

end
