(* ===== verification/Media_Switch.thy ===== *)
theory Media_Switch
  imports Metering
begin

text \<open>
  The routing matrix of a node and its egress counters: \<^verbatim>\<open>services/mm-switch/switch.go\<close>,
  \<^verbatim>\<open>egress.go\<close> and the state of \<^verbatim>\<open>viewer.go\<close> they touch. Viewers and sources are objects that
  several maps and goroutines share, so a viewer is a reference into a store, and the maps hold
  references; a viewer that is no longer in any map still has its counters. Each definition is
  one critical section: \<^verbatim>\<open>removeViewer\<close> is two, because it closes the viewer and folds its
  counter into the closed total outside the lock. What a source does with its subscribers,
  and the WebRTC transport, are not modelled.

  Shown: on runs that keep to one programme per viewer, reuse no viewer id and are not polled
  in the middle of a removal, the reports meet the contract the meter relies on, and the meter
  bills at most the bytes the node wrote; a viewer that moves to another programme takes all the
  bytes it ever received along, and they are billed a second time; and the bytes of a viewer
  whose id is registered again leave every later report.
\<close>

section \<open>State\<close>

record viewer =
  vw_current_source :: string
  vw_billing_source :: string
  vw_pending :: "(string \<times> nat) option"
  vw_subscribed :: "nat option"
  vw_connected :: bool
  vw_closed :: bool
  vw_egress_bytes :: int

definition new_viewer :: viewer where
  "new_viewer = \<lparr>vw_current_source = [], vw_billing_source = [], vw_pending = None, vw_subscribed = None,
     vw_connected = False, vw_closed = False, vw_egress_bytes = 0\<rparr>"

record media_switch =
  sw_sources :: "(string \<times> nat) list"
  sw_viewers :: "(string \<times> nat) list"
  sw_recorders :: "(string \<times> nat) list"
  sw_store :: "nat \<Rightarrow> viewer"
  sw_closed_egress :: counters

definition new_media_switch :: media_switch where
  "new_media_switch = \<lparr>sw_sources = [], sw_viewers = [], sw_recorders = [], sw_store = (\<lambda>_. new_viewer),
     sw_closed_egress = []\<rparr>"

definition update_viewer :: "nat \<Rightarrow> (viewer \<Rightarrow> viewer) \<Rightarrow> media_switch \<Rightarrow> media_switch" where
  "update_viewer v f s = s\<lparr>sw_store := (sw_store s)(v := f (sw_store s v))\<rparr>"

section \<open>Egress counters\<close>

definition default_egress_overhead_bytes :: int where
  "default_egress_overhead_bytes = 38"

text \<open>\<^verbatim>\<open>strconv.ParseInt\<close> is a parameter: what it makes of the raw setting.\<close>

definition load_egress_overhead_bytes :: "(string \<Rightarrow> int option) \<Rightarrow> string \<Rightarrow> int" where
  "load_egress_overhead_bytes parse_int raw =
     (if raw = [] then default_egress_overhead_bytes
      else case parse_int raw of
        None \<Rightarrow> default_egress_overhead_bytes
      | Some n \<Rightarrow> if n < 0 then default_egress_overhead_bytes else n)"

definition is_programme_source_id :: "string \<Rightarrow> bool" where
  "is_programme_source_id i \<longleftrightarrow> starts_with i ''stream-''"

definition record_closed_viewer_egress :: "string \<Rightarrow> int \<Rightarrow> media_switch \<Rightarrow> media_switch" where
  "record_closed_viewer_egress src n s =
     (if src = [] \<or> n \<le> 0 then s
      else s\<lparr>sw_closed_egress := add_reading (src, n) (sw_closed_egress s)\<rparr>)"

definition viewer_egress :: "viewer \<Rightarrow> string \<times> int" where
  "viewer_egress v = (vw_billing_source v, vw_egress_bytes v)"

definition add_live :: "string \<times> int \<Rightarrow> counters \<Rightarrow> counters" where
  "add_live r totals = (if fst r = [] \<or> snd r \<le> 0 then totals else add_reading r totals)"

text \<open>
  The report, from the three things it reads one after the other: the copied viewer list, the
  closed totals, and the viewers' counters.
\<close>

definition egress_totals :: "nat list \<Rightarrow> counters \<Rightarrow> (nat \<Rightarrow> viewer) \<Rightarrow> counters" where
  "egress_totals vs closed store = fold (\<lambda>v. add_live (viewer_egress (store v))) vs closed"

definition egress_snapshot_report :: "string \<Rightarrow> instant \<Rightarrow> int \<Rightarrow> nat list \<Rightarrow> counters \<Rightarrow> (nat \<Rightarrow> viewer) \<Rightarrow> switch_egress" where
  "egress_snapshot_report epoch since overhead vs closed store =
     \<lparr>se_epoch = epoch, se_since = since, se_overhead_bytes_per_packet = overhead,
      se_sources = egress_totals vs closed store\<rparr>"

definition viewer_objects :: "media_switch \<Rightarrow> nat list" where
  "viewer_objects s = map snd (sw_viewers s)"

definition handle_egress :: "string \<Rightarrow> instant \<Rightarrow> int \<Rightarrow> media_switch \<Rightarrow> switch_egress" where
  "handle_egress epoch since overhead s =
     egress_snapshot_report epoch since overhead (viewer_objects s) (sw_closed_egress s) (sw_store s)"

section \<open>Viewers\<close>

definition write_track :: "int \<Rightarrow> int \<Rightarrow> nat \<Rightarrow> media_switch \<Rightarrow> media_switch" where
  "write_track overhead marshal_size v =
     update_viewer v (\<lambda>x. x\<lparr>vw_egress_bytes := wrap_i64 (vw_egress_bytes x + wrap_i64 (marshal_size + overhead))\<rparr>)"

definition switch_to :: "string \<Rightarrow> nat \<Rightarrow> nat \<Rightarrow> media_switch \<Rightarrow> media_switch" where
  "switch_to sid src v =
     update_viewer v (\<lambda>x. if vw_closed x then x
       else x\<lparr>vw_subscribed := None, vw_current_source := sid,
              vw_billing_source := (if is_programme_source_id sid then sid else vw_billing_source x),
              vw_pending := Some (sid, src)\<rparr>)"

definition activate_source :: "nat \<Rightarrow> nat \<Rightarrow> media_switch \<Rightarrow> media_switch" where
  "activate_source src v =
     update_viewer v (\<lambda>x. if map_option snd (vw_pending x) \<noteq> Some src then x
       else x\<lparr>vw_pending := None, vw_subscribed := Some src\<rparr>)"

definition detach_source :: "nat \<Rightarrow> media_switch \<Rightarrow> media_switch" where
  "detach_source v = update_viewer v (\<lambda>x. x\<lparr>vw_subscribed := None, vw_current_source := []\<rparr>)"

definition close_viewer :: "nat \<Rightarrow> media_switch \<Rightarrow> media_switch" where
  "close_viewer v = update_viewer v (\<lambda>x. if vw_closed x then x else x\<lparr>vw_closed := True, vw_subscribed := None\<rparr>)"

section \<open>The switch\<close>

definition get_source :: "string \<Rightarrow> media_switch \<Rightarrow> nat option" where
  "get_source i s = map_of (sw_sources s) i"

definition get_recorder :: "string \<Rightarrow> media_switch \<Rightarrow> nat option" where
  "get_recorder i s = map_of (sw_recorders s) i"

definition register_recorder :: "string \<Rightarrow> nat \<Rightarrow> media_switch \<Rightarrow> media_switch" where
  "register_recorder i r s = s\<lparr>sw_recorders := AList.update i r (sw_recorders s)\<rparr>"

definition unregister_recorder :: "string \<Rightarrow> media_switch \<Rightarrow> media_switch" where
  "unregister_recorder i s = s\<lparr>sw_recorders := AList.delete i (sw_recorders s)\<rparr>"

definition add_source :: "string \<Rightarrow> nat \<Rightarrow> media_switch \<Rightarrow> media_switch" where
  "add_source i src s = s\<lparr>sw_sources := AList.update i src (sw_sources s)\<rparr>"

text \<open>\<^verbatim>\<open>want\<close> is \<^const>\<open>None\<close> for \<^verbatim>\<open>nil\<close>: remove whatever is there.\<close>

definition remove_source :: "string \<Rightarrow> nat option \<Rightarrow> media_switch \<Rightarrow> media_switch" where
  "remove_source i want s =
     (case map_of (sw_sources s) i of
        None \<Rightarrow> s
      | Some src \<Rightarrow>
          if want \<noteq> None \<and> want \<noteq> Some src then s
          else fold (\<lambda>v t. if vw_current_source (sw_store t v) = i then detach_source v t else t)
                 (viewer_objects s) (s\<lparr>sw_sources := AList.delete i (sw_sources s)\<rparr>))"

definition add_viewer :: "string \<Rightarrow> nat \<Rightarrow> media_switch \<Rightarrow> media_switch" where
  "add_viewer i v s =
     (let s1 = s\<lparr>sw_viewers := AList.update i v (sw_viewers s)\<rparr> in
      case map_of (sw_viewers s) i of
        Some displaced \<Rightarrow> if displaced \<noteq> v then close_viewer displaced s1 else s1
      | None \<Rightarrow> s1)"

text \<open>The two halves of \<^verbatim>\<open>removeViewer\<close>, and both with nothing in between.\<close>

definition remove_viewer_unlink :: "string \<Rightarrow> nat option \<Rightarrow> media_switch \<Rightarrow> nat option \<times> media_switch" where
  "remove_viewer_unlink i want s =
     (case map_of (sw_viewers s) i of
        None \<Rightarrow> (None, s)
      | Some v \<Rightarrow> if want \<noteq> None \<and> want \<noteq> Some v then (None, s)
          else (Some v, s\<lparr>sw_viewers := AList.delete i (sw_viewers s)\<rparr>))"

definition remove_viewer_fold :: "nat \<Rightarrow> media_switch \<Rightarrow> media_switch" where
  "remove_viewer_fold v s =
     (let s1 = close_viewer v s; (src, n) = viewer_egress (sw_store s1 v) in
      record_closed_viewer_egress src n s1)"

definition remove_viewer :: "string \<Rightarrow> nat option \<Rightarrow> media_switch \<Rightarrow> media_switch" where
  "remove_viewer i want s =
     (case remove_viewer_unlink i want s of
        (None, s1) \<Rightarrow> s1 | (Some v, s1) \<Rightarrow> remove_viewer_fold v s1)"

definition switch_viewer :: "string \<Rightarrow> string \<Rightarrow> media_switch \<Rightarrow> (string + unit) \<times> media_switch" where
  "switch_viewer vid sid s =
     (case map_of (sw_viewers s) vid of
        None \<Rightarrow> (Inl (''viewer '' @ vid @ '' not found''), s)
      | Some v \<Rightarrow>
          (case map_of (sw_sources s) sid of
             None \<Rightarrow> (Inl (''source '' @ sid @ '' not found''), s)
           | Some src \<Rightarrow> (Inr (), switch_to sid src v s)))"

definition list_viewers :: "media_switch \<Rightarrow> (string \<times> string \<times> bool) list" where
  "list_viewers s = map (\<lambda>(i, v). (i, vw_current_source (sw_store s v), vw_connected (sw_store s v))) (sw_viewers s)"

section \<open>Runs that keep the meter's contract\<close>

text \<open>
  One step of a node, with the bytes written so far for each programme as history. The premises
  are the discipline: a registered id is not registered again, a viewer does not change its
  programme once bytes were written to it, a viewer is written to only while registered, the
  removal of a viewer is not interrupted, and no total leaves the range of \<^verbatim>\<open>int64\<close>.
\<close>

type_synonym sent = "string \<Rightarrow> int"

inductive quiet_step :: "media_switch \<times> sent \<Rightarrow> media_switch \<times> sent \<Rightarrow> bool" where
  add_viewer: "map_of (sw_viewers s) i = None \<Longrightarrow> v \<notin> set (viewer_objects s) \<Longrightarrow> sw_store s v = new_viewer \<Longrightarrow>
     quiet_step (s, g) (add_viewer i v s, g)"
| remove_viewer: "quiet_step (s, g) (remove_viewer i want s, g)"
| switch_viewer: "(\<And>v. map_of (sw_viewers s) vid = Some v \<Longrightarrow> is_programme_source_id sid \<Longrightarrow>
       vw_egress_bytes (sw_store s v) = 0 \<or> vw_billing_source (sw_store s v) = sid) \<Longrightarrow>
     quiet_step (s, g) (snd (switch_viewer vid sid s), g)"
| activate: "quiet_step (s, g) (activate_source src v s, g)"
| add_source: "quiet_step (s, g) (add_source i src s, g)"
| remove_source: "quiet_step (s, g) (remove_source i want s, g)"
| packet: "v \<in> set (viewer_objects s) \<Longrightarrow> n = marshal_size + overhead \<Longrightarrow> 0 \<le> n \<Longrightarrow>
     vw_egress_bytes (sw_store s v) + n \<le> i64_max \<Longrightarrow> g (vw_billing_source (sw_store s v)) + n \<le> i64_max \<Longrightarrow>
     quiet_step (s, g) (write_track overhead marshal_size v s,
        g(vw_billing_source (sw_store s v) := g (vw_billing_source (sw_store s v)) + n))"

definition live_bytes :: "nat list \<Rightarrow> (nat \<Rightarrow> viewer) \<Rightarrow> string \<Rightarrow> int" where
  "live_bytes vs store p = sum_list (map (\<lambda>v. if vw_billing_source (store v) = p then vw_egress_bytes (store v) else 0) vs)"

definition closed_wf :: "counters \<Rightarrow> bool" where
  "closed_wf m \<longleftrightarrow> distinct (map fst m) \<and> (\<forall>(p, c)\<in>set m. p \<noteq> [] \<and> 0 < c \<and> c \<le> i64_max)"

definition switch_inv :: "media_switch \<times> sent \<Rightarrow> bool" where
  "switch_inv x \<longleftrightarrow> (case x of (s, g) \<Rightarrow>
      distinct (map fst (sw_viewers s)) \<and> distinct (viewer_objects s)
    \<and> (\<forall>v\<in>set (viewer_objects s). 0 \<le> vw_egress_bytes (sw_store s v))
    \<and> closed_wf (sw_closed_egress s)
    \<and> (\<forall>p. p \<noteq> [] \<longrightarrow> count_of (sw_closed_egress s) p + live_bytes (viewer_objects s) (sw_store s) p = g p \<and> g p \<le> i64_max))"

lemma count_of_update: "count_of (AList.update k v m) s = (if s = k then v else count_of m s)"
  by (simp add: count_of_def update_conv')

lemma count_add_reading: "count_of (add_reading (p, n) m) s = (if s = p then wrap_i64 (count_of m p + n) else count_of m s)"
  by (simp add: add_reading_def count_of_update)

lemma closed_wf_count: "closed_wf m \<Longrightarrow> 0 \<le> count_of m s \<and> count_of m s \<le> i64_max"
  by (auto simp: closed_wf_def count_of_def i64_max_def split: option.splits dest!: map_of_SomeD)

lemma closed_wf_add:
  assumes "closed_wf m" and "p \<noteq> []" and "0 < n" and "count_of m p + n \<le> i64_max"
  shows "closed_wf (add_reading (p, n) m)" and "wrap_i64 (count_of m p + n) = count_of m p + n"
proof -
  have b: "0 \<le> count_of m p" using closed_wf_count [OF assms(1)] by simp
  then show w: "wrap_i64 (count_of m p + n) = count_of m p + n"
    using assms by (intro wrap_i64_id) (simp add: in_i64_def i64_min_def)
  have "set (AList.update k v m) \<subseteq> insert (k, v) (set m)" for k v
    by (induction m) (auto split: if_splits)
  then show "closed_wf (add_reading (p, n) m)"
    using assms b w unfolding closed_wf_def add_reading_def fst_conv snd_conv
    by (fastforce simp: distinct_update)
qed

lemma live_bytes_nonneg: "(\<forall>v\<in>set vs. 0 \<le> vw_egress_bytes (st v)) \<Longrightarrow> 0 \<le> live_bytes vs st p"
  unfolding live_bytes_def by (intro sum_list_nonneg) auto

lemma egress_totals_wf:
  assumes "closed_wf m" and "\<forall>v\<in>set vs. 0 \<le> vw_egress_bytes (st v)"
    and "\<forall>p. p \<noteq> [] \<longrightarrow> count_of m p + live_bytes vs st p \<le> i64_max"
  shows "closed_wf (egress_totals vs m st) \<and>
    (\<forall>p. p \<noteq> [] \<longrightarrow> count_of (egress_totals vs m st) p = count_of m p + live_bytes vs st p)"
  using assms
proof (induction vs arbitrary: m)
  case (Cons v vs)
  let ?p = "vw_billing_source (st v)" and ?n = "vw_egress_bytes (st v)"
  let ?m = "add_live (viewer_egress (st v)) m"
  have nn: "0 \<le> live_bytes vs st q" for q using Cons.prems(2) by (intro live_bytes_nonneg) simp
  have l: "live_bytes (v # vs) st q = (if ?p = q then ?n else 0) + live_bytes vs st q" for q by (simp add: live_bytes_def)
  have m: "closed_wf ?m \<and> (\<forall>q. q \<noteq> [] \<longrightarrow> count_of ?m q = count_of m q + (if ?p = q then ?n else 0))"
  proof (cases "?p = [] \<or> ?n \<le> 0")
    case True
    then show ?thesis using Cons.prems by (auto simp: add_live_def viewer_egress_def)
  next
    case False
    then have "count_of m ?p + ?n \<le> i64_max" using Cons.prems(3) [rule_format, of ?p] l [of ?p] nn [of ?p] by simp
    from closed_wf_add [OF Cons.prems(1) _ _ this] False show ?thesis
      by (auto simp: add_live_def viewer_egress_def count_add_reading)
  qed
  have "closed_wf (egress_totals vs ?m st) \<and>
      (\<forall>q. q \<noteq> [] \<longrightarrow> count_of (egress_totals vs ?m st) q = count_of ?m q + live_bytes vs st q)"
  proof (rule Cons.IH)
    show "\<forall>p. p \<noteq> [] \<longrightarrow> count_of ?m p + live_bytes vs st p \<le> i64_max"
      using m Cons.prems(3) by (auto simp: l)
  qed (use m Cons.prems(2) in simp_all)
  then show ?case using m by (auto simp: egress_totals_def l)
qed (simp add: egress_totals_def live_bytes_def)

subsection \<open>Every step keeps the accounts\<close>

definition share :: "viewer \<Rightarrow> string \<Rightarrow> int" where
  "share x p = (if vw_billing_source x = p then vw_egress_bytes x else 0)"

lemma live_bytes_share: "live_bytes vs st p = sum_list (map (\<lambda>v. share (st v) p) vs)"
  by (simp add: live_bytes_def share_def)

definition same_accounts :: "media_switch \<Rightarrow> media_switch \<Rightarrow> bool" where
  "same_accounts s s' \<longleftrightarrow> sw_viewers s' = sw_viewers s \<and> sw_closed_egress s' = sw_closed_egress s
     \<and> (\<forall>v. vw_egress_bytes (sw_store s' v) = vw_egress_bytes (sw_store s v)
          \<and> (vw_billing_source (sw_store s' v) = vw_billing_source (sw_store s v)
             \<or> (v \<in> set (viewer_objects s) \<longrightarrow> vw_egress_bytes (sw_store s v) = 0)))"

lemma same_accounts_inv:
  assumes "same_accounts s s'" and "switch_inv (s, g)"
  shows "switch_inv (s', g)"
proof -
  have "viewer_objects s' = viewer_objects s" using assms(1) by (simp add: same_accounts_def viewer_objects_def)
  moreover have "share (sw_store s' v) p = share (sw_store s v) p" if "v \<in> set (viewer_objects s)" for v p
    using assms(1) that by (auto simp: same_accounts_def share_def)
  then have "live_bytes (viewer_objects s) (sw_store s') p = live_bytes (viewer_objects s) (sw_store s) p" for p
    unfolding live_bytes_share by (metis (no_types, lifting) map_cong)
  ultimately show ?thesis using assms by (simp add: switch_inv_def same_accounts_def)
qed

lemma same_accounts_refl: "same_accounts s s"
  by (simp add: same_accounts_def)

lemma same_accounts_trans: "same_accounts s s' \<Longrightarrow> same_accounts s' s'' \<Longrightarrow> same_accounts s s''"
  by (simp add: same_accounts_def viewer_objects_def) metis

lemma same_accounts_update:
  "(\<And>x. vw_egress_bytes (f x) = vw_egress_bytes x \<and> vw_billing_source (f x) = vw_billing_source x) \<Longrightarrow>
   same_accounts s (update_viewer v f s)"
  by (simp add: same_accounts_def update_viewer_def)

lemma same_accounts_close: "same_accounts s (close_viewer v s)"
  unfolding close_viewer_def by (rule same_accounts_update) simp

lemma same_accounts_activate: "same_accounts s (activate_source src v s)"
  unfolding activate_source_def by (rule same_accounts_update) simp

lemma same_accounts_detach: "same_accounts s (detach_source v s)"
  unfolding detach_source_def by (rule same_accounts_update) simp

lemma same_accounts_remove_source: "same_accounts s (remove_source i want s)"
proof -
  have "same_accounts s t \<Longrightarrow> same_accounts s (fold (\<lambda>v t. if vw_current_source (sw_store t v) = i then detach_source v t else t) vs t)" for vs t
    by (induction vs arbitrary: t) (auto intro: same_accounts_trans [OF _ same_accounts_detach])
  moreover have "same_accounts s (s\<lparr>sw_sources := x\<rparr>)" for x by (simp add: same_accounts_def)
  ultimately show ?thesis by (auto simp: remove_source_def same_accounts_refl split: option.split)
qed

lemma same_accounts_switch:
  assumes "\<And>v. map_of (sw_viewers s) vid = Some v \<Longrightarrow> is_programme_source_id sid \<Longrightarrow>
       vw_egress_bytes (sw_store s v) = 0 \<or> vw_billing_source (sw_store s v) = sid"
  shows "same_accounts s (snd (switch_viewer vid sid s))"
  using assms
  by (auto simp: switch_viewer_def switch_to_def update_viewer_def same_accounts_def split: option.split)

lemma sum_delete:
  fixes f :: "nat \<Rightarrow> int"
  shows "distinct (map fst xs) \<Longrightarrow> map_of xs i = Some v \<Longrightarrow>
   sum_list (map f (map snd xs)) = f v + sum_list (map f (map snd (AList.delete i xs)))"
proof (induction xs)
  case (Cons x xs)
  show ?case
  proof (cases "fst x = i")
    case True
    then have "i \<notin> fst ` set xs" using Cons.prems(1) by auto
    then have "AList.delete i (x # xs) = xs" using True by (force simp: AList.delete_eq filter_id_conv)
    then show ?thesis using True Cons.prems(2) by (cases x) simp
  next
    case False
    then have "AList.delete i (x # xs) = x # AList.delete i xs" by (cases x) (simp add: AList.delete_eq)
    then show ?thesis using False Cons by (cases x) simp
  qed
qed simp

lemma delete_refs: "set (map snd (AList.delete i xs)) \<subseteq> set (map snd xs)"
  by (auto simp: AList.delete_eq)

lemma delete_distinct_refs: "distinct (map snd xs) \<Longrightarrow> distinct (map snd (AList.delete i xs))"
  by (simp add: AList.delete_eq distinct_map_filter)

lemma remove_viewer_inv:
  assumes inv: "switch_inv (s, g)"
  shows "switch_inv (remove_viewer i want s, g)"
proof (cases "fst (remove_viewer_unlink i want s)")
  case None
  then have "remove_viewer i want s = s"
    by (auto simp: remove_viewer_def remove_viewer_unlink_def split: option.splits if_splits)
  then show ?thesis using inv by simp
next
  case (Some v)
  let ?x = "sw_store s v" and ?vs = "map snd (AList.delete i (sw_viewers s))"
  let ?p = "vw_billing_source ?x" and ?n = "vw_egress_bytes ?x" and ?m = "sw_closed_egress s"
  from Some have v: "map_of (sw_viewers s) i = Some v"
    "remove_viewer i want s = remove_viewer_fold v (s\<lparr>sw_viewers := AList.delete i (sw_viewers s)\<rparr>)"
    by (auto simp: remove_viewer_def remove_viewer_unlink_def split: option.splits if_splits)
  define s1 where "s1 = close_viewer v (s\<lparr>sw_viewers := AList.delete i (sw_viewers s)\<rparr>)"
  have st: "vw_billing_source (sw_store s1 u) = vw_billing_source (sw_store s u)"
    "vw_egress_bytes (sw_store s1 u) = vw_egress_bytes (sw_store s u)" for u
    by (simp_all add: s1_def close_viewer_def update_viewer_def)
  have s1: "sw_viewers s1 = AList.delete i (sw_viewers s)" "sw_closed_egress s1 = ?m"
    by (simp_all add: s1_def close_viewer_def update_viewer_def)
  have e: "remove_viewer i want s = record_closed_viewer_egress ?p ?n s1"
    unfolding v(2) by (simp add: remove_viewer_fold_def Let_def s1_def [symmetric] viewer_egress_def st)
  have d: "distinct (map fst (sw_viewers s))" "distinct (map snd (sw_viewers s))" "closed_wf ?m"
    "\<And>u. u \<in> set (viewer_objects s) \<Longrightarrow> 0 \<le> vw_egress_bytes (sw_store s u)"
    "\<And>q. q \<noteq> [] \<Longrightarrow> count_of ?m q + live_bytes (viewer_objects s) (sw_store s) q = g q \<and> g q \<le> i64_max"
    using inv by (auto simp: switch_inv_def viewer_objects_def)
  have "v \<in> set (viewer_objects s)" using map_of_SomeD [OF v(1)] by (force simp: viewer_objects_def)
  with d(4) have nn: "0 \<le> ?n" by blast
  have nn': "u \<in> set ?vs \<Longrightarrow> 0 \<le> vw_egress_bytes (sw_store s u)" for u
    using delete_refs [of i "sw_viewers s"] d(4) by (auto simp: viewer_objects_def)
  have lv: "live_bytes (viewer_objects s) (sw_store s) q = share ?x q + live_bytes ?vs (sw_store s) q" for q
    unfolding live_bytes_share viewer_objects_def by (rule sum_delete [OF d(1) v(1)])
  have "share (sw_store s1 u) q = share (sw_store s u) q" for u q by (simp only: share_def st)
  then have lv1: "live_bytes ?vs (sw_store s1) q = live_bytes ?vs (sw_store s) q" for q
    unfolding live_bytes_share by simp
  have dk: "distinct (map fst (AList.delete i (sw_viewers s)))" using d(1) by (simp add: AList.delete_eq distinct_map_filter)
  have base: "switch_inv (s2, g)" if "sw_viewers s2 = sw_viewers s1" "sw_store s2 = sw_store s1" "closed_wf (sw_closed_egress s2)"
      "\<And>q. q \<noteq> [] \<Longrightarrow> count_of (sw_closed_egress s2) q = count_of ?m q + share ?x q" for s2
    unfolding switch_inv_def
    using that d(5) dk delete_distinct_refs [OF d(2)] nn'
    by (auto simp: s1 viewer_objects_def st lv lv1 lv [unfolded viewer_objects_def] add.assoc)
  show ?thesis
  proof (cases "?p = [] \<or> ?n \<le> 0")
    case True
    then show ?thesis unfolding e using nn d(3) by (intro base) (auto simp: record_closed_viewer_egress_def s1 share_def)
  next
    case False
    have "0 \<le> live_bytes ?vs (sw_store s) ?p" using nn' by (intro live_bytes_nonneg) blast
    then have le: "count_of ?m ?p + ?n \<le> i64_max" using d(5) [of ?p] lv [of ?p] False by (simp add: share_def)
    from closed_wf_add [OF d(3) _ _ le] False show ?thesis unfolding e
      by (intro base) (auto simp: record_closed_viewer_egress_def s1 share_def count_add_reading)
  qed
qed

lemma live_bytes_update:
  "distinct vs \<Longrightarrow> v \<in> set vs \<Longrightarrow> live_bytes vs (st(v := x)) p = live_bytes vs st p - share (st v) p + share x p"
proof (induction vs)
  case (Cons u vs)
  have "live_bytes vs (st(v := x)) p = live_bytes vs st p" if "v \<notin> set vs"
    unfolding live_bytes_share using that by (intro arg_cong [where f = sum_list] map_cong) auto
  then show ?case using Cons by (auto simp: live_bytes_share)
qed simp

lemma live_bytes_append: "live_bytes (vs @ [v]) st p = live_bytes vs st p + share (st v) p"
  by (simp add: live_bytes_share)

lemma share_new [simp]: "share new_viewer p = 0"
  by (simp add: share_def new_viewer_def)

lemma quiet_step_inv:
  assumes "quiet_step x y" and "switch_inv x"
  shows "switch_inv y \<and> (\<forall>p. snd x p \<le> snd y p)"
  using assms(1)
proof cases
  case (add_viewer s i v g)
  have "AList.update i v xs = xs @ [(i, v)]" if "i \<notin> fst ` set xs" for xs
    using that by (induction xs) auto
  then have "AList.update i v (sw_viewers s) = sw_viewers s @ [(i, v)]"
    using add_viewer(3) by (simp add: map_of_eq_None_iff)
  then have e: "Media_Switch.add_viewer i v s = s\<lparr>sw_viewers := sw_viewers s @ [(i, v)]\<rparr>"
    using add_viewer(3) by (simp add: Media_Switch.add_viewer_def)
  have "i \<notin> fst ` set (sw_viewers s)" using add_viewer(3) by (simp add: map_of_eq_None_iff)
  then show ?thesis using assms(2) add_viewer(1,2,4,5) e
    by (auto simp: switch_inv_def viewer_objects_def live_bytes_append share_new) (simp_all add: new_viewer_def)
next
  case (remove_viewer s g i want)
  then show ?thesis using assms(2) remove_viewer_inv by simp
next
  case (switch_viewer s vid sid g)
  then show ?thesis using assms(2) same_accounts_inv [OF same_accounts_switch] by simp
next
  case (activate s g src v)
  then show ?thesis using assms(2) same_accounts_inv [OF same_accounts_activate] by simp
next
  case (add_source s g i src)
  have "same_accounts s (Media_Switch.add_source i src s)" by (simp add: same_accounts_def Media_Switch.add_source_def)
  then show ?thesis using assms(2) add_source same_accounts_inv by simp
next
  case (remove_source s g i want)
  then show ?thesis using assms(2) same_accounts_inv [OF same_accounts_remove_source] by simp
next
  case (packet v s n marshal_size overhead g)
  let ?x = "sw_store s v"
  let ?y = "?x\<lparr>vw_egress_bytes := vw_egress_bytes ?x + n\<rparr>"
  have inv: "switch_inv (s, g)" using assms(2) packet(1) by simp
  then have v: "0 \<le> vw_egress_bytes ?x" "distinct (viewer_objects s)" using packet(3) by (auto simp: switch_inv_def)
  have "in_i64 n" "in_i64 (vw_egress_bytes ?x + n)"
    using v packet(5,6) by (auto simp: in_i64_def i64_min_def)
  then have e: "write_track overhead marshal_size v s = update_viewer v (\<lambda>_. ?y) s"
    by (simp add: write_track_def update_viewer_def packet(4) [symmetric])
  have l: "live_bytes (viewer_objects s) (sw_store (update_viewer v (\<lambda>_. ?y) s)) p =
      live_bytes (viewer_objects s) (sw_store s) p + (if p = vw_billing_source ?x then n else 0)" for p
    using live_bytes_update [OF v(2) packet(3), of "sw_store s" ?y p] by (simp add: update_viewer_def share_def)
  have "viewer_objects (update_viewer v (\<lambda>_. ?y) s) = viewer_objects s" by (simp add: update_viewer_def viewer_objects_def)
  then have "switch_inv (update_viewer v (\<lambda>_. ?y) s, g(vw_billing_source ?x := g (vw_billing_source ?x) + n))"
    using inv l v(1) packet(5,7) by (auto simp: switch_inv_def update_viewer_def)
  then show ?thesis using packet(1,2,5) e by simp
qed

subsection \<open>Reports\<close>

lemma fold_add_reading:
  "distinct (map fst rs) \<Longrightarrow> count_of (fold add_reading rs m) p =
     (case map_of rs p of None \<Rightarrow> count_of m p | Some c \<Rightarrow> wrap_i64 (count_of m p + c))"
proof (induction rs arbitrary: m)
  case (Cons r rs)
  then have "map_of rs (fst r) = None" by (simp add: map_of_eq_None_iff)
  with Cons show ?case by (cases r) (auto simp: count_add_reading split: option.split)
qed simp

lemma count_of_Nil [simp]: "count_of [] p = 0"
  by (simp add: count_of_def)

lemma snapshot_of_closed_wf:
  assumes "closed_wf (se_sources e)"
  shows "count_of (es_bytes (snapshot_of e)) p = count_of (se_sources e) p"
proof -
  have "distinct (map fst (fold add_reading rs m))" if "distinct (map fst m)" for rs m
    using that by (induction rs arbitrary: m) (simp_all add: add_reading_def distinct_update)
  then have "count_of (es_bytes (snapshot_of e)) p = count_of (fold add_reading (se_sources e) []) p"
    by (simp add: snapshot_of_def count_of_def map_of_sort_key)
  also have "... = (case map_of (se_sources e) p of None \<Rightarrow> 0 | Some c \<Rightarrow> wrap_i64 c)"
    using assms fold_add_reading [of "se_sources e" "[]" p] by (simp add: closed_wf_def split: option.split)
  also have "... = count_of (se_sources e) p"
    using assms by (auto simp: count_of_def closed_wf_def in_i64_def i64_min_def dest!: map_of_SomeD split: option.split)
  finally show ?thesis .
qed

lemma report_counts:
  assumes "switch_inv (s, g)"
  shows "p \<noteq> [] \<Longrightarrow> count_of (es_bytes (snapshot_of (handle_egress e t h s))) p = g p"
    and "[] \<notin> fst ` set (es_bytes (snapshot_of (handle_egress e t h s)))"
    and "es_epoch (snapshot_of (handle_egress e t h s)) = e"
proof -
  let ?t = "egress_totals (viewer_objects s) (sw_closed_egress s) (sw_store s)"
  have w: "closed_wf ?t \<and> (\<forall>p. p \<noteq> [] \<longrightarrow> count_of ?t p = g p)"
    using egress_totals_wf [of "sw_closed_egress s" "viewer_objects s" "sw_store s"] assms by (simp add: switch_inv_def)
  have r: "se_sources (handle_egress e t h s) = ?t" by (simp add: handle_egress_def egress_snapshot_report_def)
  with w show "p \<noteq> [] \<Longrightarrow> count_of (es_bytes (snapshot_of (handle_egress e t h s))) p = g p"
    by (simp add: snapshot_of_closed_wf)
  show "[] \<notin> fst ` set (es_bytes (snapshot_of (handle_egress e t h s)))"
    unfolding snapshot_sources r using w by (auto simp: closed_wf_def)
  show "es_epoch (snapshot_of (handle_egress e t h s)) = e"
    by (simp add: snapshot_of_def handle_egress_def egress_snapshot_report_def)
qed

lemma new_media_switch_inv: "switch_inv (new_media_switch, \<lambda>_. 0)"
  by (simp add: switch_inv_def new_media_switch_def viewer_objects_def closed_wf_def count_of_def live_bytes_def i64_max_def)

lemma quiet_steps_inv: "quiet_step\<^sup>*\<^sup>* x y \<Longrightarrow> switch_inv x \<Longrightarrow> switch_inv y \<and> (\<forall>p. snd x p \<le> snd y p)"
  by (induction rule: rtranclp_induct) (auto dest: quiet_step_inv intro: order_trans)

definition polls :: "string \<Rightarrow> instant \<Rightarrow> int \<Rightarrow> (media_switch \<times> sent) list \<Rightarrow> (string + switch_egress) list" where
  "polls e t h xs = map (\<lambda>(s, g). Inr (handle_egress e t h s)) xs"

lemma polls_grow:
  assumes "sorted_wrt quiet_step\<^sup>*\<^sup>* ((new_media_switch, \<lambda>_. 0) # xs)"
  shows "counters_grow (snapshots (polls e t h xs))"
proof -
  have inv: "switch_inv x" if "x \<in> set xs" for x
    using assms that quiet_steps_inv [OF _ new_media_switch_inv] by auto
  have sn: "snapshots (polls e t h xs) = map (\<lambda>x. snapshot_of (handle_egress e t h (fst x))) xs"
    by (simp add: snapshots_def polls_def comp_def split_beta)
  have "map es_epoch (snapshots (polls e t h xs)) = replicate (length xs) e"
    unfolding sn by (rule nth_equalityI) (auto simp: snapshot_of_def handle_egress_def egress_snapshot_report_def)
  moreover have "distinct (remdups_adj (replicate n e))" for n by (simp add: remdups_adj_replicate)
  moreover have "sorted_wrt (\<lambda>x y. \<forall>(p, c)\<in>set (es_bytes (snapshot_of (handle_egress e t h (fst y)))).
      count_of (es_bytes (snapshot_of (handle_egress e t h (fst x)))) p \<le> c) xs"
  proof (rule sorted_wrt_mono_rel [of _ "quiet_step\<^sup>*\<^sup>*"])
    show "sorted_wrt quiet_step\<^sup>*\<^sup>* xs" using assms by simp
    fix x y assume xy: "x \<in> set xs" "y \<in> set xs" "quiet_step\<^sup>*\<^sup>* x y"
    have g: "snd x p \<le> snd y p" for p using quiet_steps_inv [OF xy(3) inv [OF xy(1)]] by simp
    have d: "distinct (map fst (es_bytes (snapshot_of (handle_egress e t h (fst y)))))"
      using snapshot_of_wf [of "handle_egress e t h (fst y)"] by (simp add: snapshot_wf_def)
    have ix: "switch_inv (fst x, snd x)" and iy: "switch_inv (fst y, snd y)" using inv xy by simp_all
    show "\<forall>(p, c)\<in>set (es_bytes (snapshot_of (handle_egress e t h (fst y)))).
      count_of (es_bytes (snapshot_of (handle_egress e t h (fst x)))) p \<le> c"
    proof clarify
      fix p c assume pc: "(p, c) \<in> set (es_bytes (snapshot_of (handle_egress e t h (fst y))))"
      then have "p \<noteq> []" using report_counts(2) [OF iy, of e t h] by force
      moreover have "c = count_of (es_bytes (snapshot_of (handle_egress e t h (fst y)))) p" using count_of_mem [OF d pc] by simp
      ultimately show "count_of (es_bytes (snapshot_of (handle_egress e t h (fst x)))) p \<le> c"
        using report_counts(1) [OF ix, of p e t h] report_counts(1) [OF iy, of p e t h] g [of p] by simp
    qed
  qed
  then have "sorted_wrt (\<lambda>a b. es_epoch a = es_epoch b \<longrightarrow> (\<forall>(s, c)\<in>set (es_bytes b). count_of (es_bytes a) s \<le> c))
      (snapshots (polls e t h xs))"
    unfolding sn sorted_wrt_map by (rule sorted_wrt_mono_rel [rotated]) blast
  ultimately show ?thesis by (simp add: counters_grow_def)
qed

section \<open>Properties\<close>

text \<open>The node of a switch: what drives the meter is the switch itself.\<close>

definition switch_node :: "string \<Rightarrow> string \<Rightarrow> instant \<Rightarrow> int \<Rightarrow> media_switch metered_node" where
  "switch_node n e t h = \<lparr>mn_mm_node_id = n, mn_egress = (\<lambda>s. (Inr (handle_egress e t h s), s))\<rparr>"

text \<open>C13: End to end, from packets to the invoice: a node that is polled along a run in which no
  viewer id is reused, no viewer changes programme after its first byte, packets are written only to
  registered viewers, no counter overflows and no poll falls into a removal reports counters that only grow, and however the meter's sweeps fail, no broadcast
  is billed for more than the bytes written to its viewers.\<close>

theorem quiet_node_never_overbilled:
  assumes "sorted_wrt quiet_step\<^sup>*\<^sup>* ((new_media_switch, \<lambda>_. 0) # xs)" and "baseline_wf d"
    and "\<forall>r\<in>set (egress_baseline d). bl_mm_node_id r \<noteq> n" and "\<forall>v\<in>set (usage_events d). ue_mm_node_id v \<noteq> Some n"
  shows "counters_grow (snapshots (polls e t h xs)) \<and>
     (0 < billed n e p (world_db (fold (sweep_script \<phi> n) ts ((d, polls e t h xs), k))) \<longrightarrow>
      (\<exists>(s, g)\<in>set xs. 1000000 * billed n e p (world_db (fold (sweep_script \<phi> n) ts ((d, polls e t h xs), k))) \<le> g p))"
proof (intro conjI impI)
  show g: "counters_grow (snapshots (polls e t h xs))" by (rule polls_grow [OF assms(1)])
  let ?w = "fold (sweep_script \<phi> n) ts ((d, polls e t h xs), k)"
  assume b: "0 < billed n e p (world_db ?w)"
  from script_bills_within_delivery [OF g assms(2-4), of \<phi> ts k] b
  obtain used rest r where u: "polls e t h xs = used @ rest" "r \<in> set (snapshots used)"
      "1000000 * billed n e p (world_db ?w) \<le> count_of (es_bytes r) p"
    unfolding Let_def by blast
  from u(2) obtain ev where ev: "Inr ev \<in> set used" "r = snapshot_of ev" by (auto simp: snapshots_def split: sum.splits)
  then have "Inr ev \<in> set (polls e t h xs)" using u(1) by simp
  then obtain s g where x: "(s, g) \<in> set xs" "r = snapshot_of (handle_egress e t h s)"
    using ev(2) by (auto simp: polls_def)
  have inv: "switch_inv (s, g)" using assms(1) x(1) quiet_steps_inv [OF _ new_media_switch_inv] by auto
  have "p \<noteq> []"
  proof
    assume "p = []"
    then show False using b by (simp add: billed_def)
  qed
  then show "\<exists>(s, g)\<in>set xs. 1000000 * billed n e p (world_db ?w) \<le> g p"
    using u(3) x report_counts(1) [OF inv, of p e t h] by (intro bexI [OF _ x(1)]) simp
qed

definition one_viewer :: media_switch where
  "one_viewer = snd (switch_viewer ''v'' ''stream-a'' (add_viewer ''v'' 1 (add_source ''stream-a'' 7 new_media_switch)))"

lemma one_viewer_steps:
  "quiet_step\<^sup>*\<^sup>* (new_media_switch, \<lambda>_. 0) (write_track 38 999962 1 one_viewer, (\<lambda>_. 0)(''stream-a'' := 1000000))"
  "quiet_step\<^sup>*\<^sup>* (write_track 38 999962 1 one_viewer, (\<lambda>_. 0)(''stream-a'' := 1000000))
     (write_track 38 4999962 1 (write_track 38 999962 1 one_viewer), (\<lambda>_. 0)(''stream-a'' := 6000000))"
proof -
  let ?g = "\<lambda>_ :: string. 0 :: int"
  let ?s1 = "add_source ''stream-a'' 7 new_media_switch" and ?s4 = "write_track 38 999962 1 one_viewer"
  let ?s2 = "add_viewer ''v'' 1 ?s1"
  have v: "viewer_objects one_viewer = [1]" "vw_billing_source (sw_store one_viewer 1) = ''stream-a''"
      "vw_egress_bytes (sw_store one_viewer 1) = 0" "viewer_objects ?s4 = [1]"
      "vw_billing_source (sw_store ?s4 1) = ''stream-a''" "vw_egress_bytes (sw_store ?s4 1) = 1000000" by code_simp+
  have n: "map_of (sw_viewers ?s1) ''v'' = None" "viewer_objects ?s1 = []" "sw_store ?s1 = (\<lambda>_. new_viewer)"
      "map_of (sw_viewers ?s2) ''v'' = Some 1" "vw_egress_bytes (sw_store ?s2 1) = 0"
    by (simp_all add: Media_Switch.add_source_def Media_Switch.add_viewer_def new_media_switch_def viewer_objects_def new_viewer_def)
  have s1: "quiet_step (new_media_switch, ?g) (?s1, ?g)" by (rule quiet_step.add_source)
  have s2: "quiet_step (?s1, ?g) (?s2, ?g)" by (rule quiet_step.add_viewer) (simp_all add: n)
  have s3: "quiet_step (?s2, ?g) (one_viewer, ?g)"
    unfolding one_viewer_def by (rule quiet_step.switch_viewer) (use n in simp)
  have s4: "quiet_step (one_viewer, ?g) (?s4, ?g(''stream-a'' := 1000000))"
    using quiet_step.packet [of 1 one_viewer 1000000 999962 38 ?g] v by (simp add: i64_max_def)
  show "quiet_step\<^sup>*\<^sup>* (new_media_switch, ?g) (?s4, ?g(''stream-a'' := 1000000))"
    using s1 s2 s3 s4 by (meson rtranclp.rtrancl_into_rtrancl rtranclp.rtrancl_refl)
  have "quiet_step (?s4, ?g(''stream-a'' := 1000000)) (write_track 38 4999962 1 ?s4, ?g(''stream-a'' := 6000000))"
    using quiet_step.packet [of 1 ?s4 5000000 4999962 38 "?g(''stream-a'' := 1000000)"] v by (simp add: i64_max_def)
  then show "quiet_step\<^sup>*\<^sup>* (?s4, ?g(''stream-a'' := 1000000)) (write_track 38 4999962 1 ?s4, ?g(''stream-a'' := 6000000))"
    by (rule r_into_rtranclp)
qed

theorem quiet_node_never_overbilled_witness:
  "let s = write_track 38 999962 1 one_viewer;
       xs = [(s, (\<lambda>_. 0)(''stream-a'' := 1000000)), (write_track 38 4999962 1 s, (\<lambda>_. 0)(''stream-a'' := 6000000))] in
   billed ''n'' ''e'' ''stream-a'' (world_db (fold (sweep_script no_faults ''n'') [1, 2] ((metered_db, polls ''e'' 0 38 xs), 0))) = 5
   \<and> (\<exists>(s, g)\<in>set xs. 1000000 * billed ''n'' ''e'' ''stream-a''
         (world_db (fold (sweep_script no_faults ''n'') [1, 2] ((metered_db, polls ''e'' 0 38 xs), 0))) \<le> g ''stream-a'')"
proof -
  define xs where "xs = [(write_track 38 999962 1 one_viewer, (\<lambda>_ :: string. 0 :: int)(''stream-a'' := 1000000)),
      (write_track 38 4999962 1 (write_track 38 999962 1 one_viewer), (\<lambda>_. 0)(''stream-a'' := 6000000))]"
  have r: "sorted_wrt quiet_step\<^sup>*\<^sup>* ((new_media_switch, \<lambda>_. 0) # xs)"
    using one_viewer_steps rtranclp_trans [OF one_viewer_steps] by (simp add: xs_def)
  have d: "baseline_wf metered_db" "\<forall>r\<in>set (egress_baseline metered_db). bl_mm_node_id r \<noteq> ''n''"
    "\<forall>v\<in>set (usage_events metered_db). ue_mm_node_id v \<noteq> Some ''n''" by code_simp+
  have b: "billed ''n'' ''e'' ''stream-a'' (world_db (fold (sweep_script no_faults ''n'') [1, 2] ((metered_db, polls ''e'' 0 38 xs), 0))) = 5"
    unfolding xs_def by code_simp
  show ?thesis
    using quiet_node_never_overbilled [OF r d, of "''e''" 0 38 "''stream-a''" no_faults "[1, 2]" 0] b
    unfolding Let_def xs_def [symmetric] by simp
qed

text \<open>C34: A viewer that moves to another programme is billed twice. Its counter holds every byte
  it ever received and is reported under its latest programme, so if all of it was metered for
  the first programme, the next sweep bills all of it to the host of the second one, although
  nothing was written in between. The first programme, left without viewers, vanishes from the report
  within the epoch, which the meter's comments hold to be impossible.\<close>

theorem programme_switch_bills_twice:
  assumes s: "sw_viewers s = [(vid, v)]" "sw_closed_egress s = []" "map_of (sw_sources s) (''stream-'' @ b) = Some src"
    and v: "\<not> vw_closed (sw_store s v)" "vw_billing_source (sw_store s v) = ''stream-'' @ a" "vw_egress_bytes (sw_store s v) = x"
    and x: "1000000 \<le> x" "x \<le> i64_max" and ab: "a \<noteq> b" "b \<noteq> []"
    and d: "egress_baseline d = [position n (''stream-'' @ a) e x t]" "payer_row b d = Some (u, c)"
      "usage_idempotency_key n e (''stream-'' @ b) x \<notin> usage_keys d"
  shows "case sweep_egress no_faults [switch_node n e since h] now ((d, snd (switch_viewer vid (''stream-'' @ b) s)), k) of
     (sweep, w) \<Rightarrow> (\<exists>ev. usage_events (world_db w) = usage_events d @ [ev] \<and> ue_user_id ev = u \<and> ue_broadcast_id ev = b
        \<and> ue_quantity_milli ev = x div 1000000)
       \<and> ms_anomalies sweep = [SourceVanished (''stream-'' @ a) x]"
proof -
  define s' where "s' = snd (switch_viewer vid (''stream-'' @ b) s)"
  have s': "sw_viewers s' = [(vid, v)]" "sw_closed_egress s' = []" "vw_billing_source (sw_store s' v) = ''stream-'' @ b"
      "vw_egress_bytes (sw_store s' v) = x"
    using s v by (simp_all add: s'_def switch_viewer_def switch_to_def update_viewer_def is_programme_source_id_def starts_with_def)
  have i: "in_i64 x" "0 < x" using x by (simp_all add: in_i64_def i64_min_def)
  define cur where "cur = snapshot_of (handle_egress e since h s')"
  have cur: "es_bytes cur = [(''stream-'' @ b, x)]" "es_epoch cur = e"
    using s' i by (simp_all add: cur_def snapshot_of_def handle_egress_def egress_snapshot_report_def egress_totals_def
        viewer_objects_def add_live_def viewer_egress_def add_reading_def)
  have base: "baseline_snapshot (baselines_rows n d) = Some \<lparr>es_epoch = e, es_since = t, es_bytes = [(''stream-'' @ a, x)]\<rparr>"
    by (simp add: baselines_rows_def d position_def baseline_snapshot_def)
  have delta: "egress_delta (Some \<lparr>es_epoch = e, es_since = t, es_bytes = [(''stream-'' @ a, x)]\<rparr>) cur =
      \<lparr>mr_usage = [\<lparr>u_source = ''stream-'' @ b, u_bytes = x\<rparr>], mr_anomalies = [SourceVanished (''stream-'' @ a) x],
       mr_advance_baseline = True\<rparr>"
    using cur i ab by (simp add: egress_delta_def count_of_def vanished_def)
  have q: "bytes_to_milli_gb x = x div 1000000" "0 < x div 1000000"
    using x by (simp_all add: bytes_to_milli_gb_def signed_divide_int_def pos_imp_zdiv_pos_iff)
  have src: "broadcast_id_for_source (''stream-'' @ b) = Some b" using ab(2)
    by (simp only: broadcast_id_for_source_def strip_prefix_append option.case if_False)
  define iv where "iv = interval_for n cur now \<lparr>u_source = ''stream-'' @ b, u_bytes = x\<rparr> b u"
  have iv: "iv_quantity_milli iv = x div 1000000" "iv_idempotency_key iv = usage_idempotency_key n e (''stream-'' @ b) x"
      "iv_source iv = ''stream-'' @ b" "iv_user_id iv = u" "iv_broadcast_id iv = b"
    using cur q by (simp_all add: iv_def interval_for_def count_of_def Let_def)
  have der: "derive_intervals no_faults n cur now [\<lparr>u_source = ''stream-'' @ b, u_bytes = x\<rparr>] m w = ([iv], m, (fst w, Suc (snd w)))"
    if "world_db w = d" for m and w :: "media_switch dbenv"
    using that [symmetric] src q d(2) by (simp add: payer_for_broadcast_def reads_def iv_def)
  have ps: "advanced_positions cur [\<lparr>u_source = ''stream-'' @ b, u_bytes = x\<rparr>] [iv] = [(''stream-'' @ b, x)]"
    by (simp add: advanced_positions_def cur iv)
  have tx: "\<exists>r d'. record_tx n e now [iv] [(''stream-'' @ b, x)] d = (Inr r, d') \<and> usage_events d' = usage_events d @ [interval_event n iv d]"
    using d(3) q i by (simp add: record_tx_def insert_usage_eq iv)
  then obtain r d' where tx: "record_tx n e now [iv] [(''stream-'' @ b, x)] d = (Inr r, d')"
      "usage_events d' = usage_events d @ [interval_event n iv d]" by blast
  have "sweep_egress no_faults [switch_node n e since h] now ((d, s'), k) =
     (empty_sweep\<lparr>ms_anomalies := [SourceVanished (''stream-'' @ a) x], ms_events_written := rc_events r,
        ms_metered_bytes := (if 0 < rc_bytes r then [(n, rc_bytes r)] else []), ms_polled := [n]\<rparr>, ((d', s'), Suc (Suc (Suc k))))"
    using base delta der [of "((d, s'), Suc k)"] ps tx(1)
    by (simp add: sweep_egress_def sweep_node_def switch_node_def baselines_for_node_def reads_def drives_def
        cur_def [symmetric] Let_def record_interval_def cur(2) empty_sweep_def)
  then show ?thesis using tx(2) iv by (simp add: s'_def empty_sweep_def)
qed

theorem programme_switch_bills_twice_witness:
  "let s = add_source ''stream-b'' 8 (write_track 38 4999962 1 one_viewer);
       d = metered_db\<lparr>egress_baseline := [position ''n'' ''stream-a'' ''e'' 5000000 1]\<rparr> in
   case sweep_egress no_faults [switch_node ''n'' ''e'' 0 38] 2 ((d, snd (switch_viewer ''v'' ''stream-b'' s)), 0) of
     (sweep, w) \<Rightarrow> (\<exists>ev. usage_events (world_db w) = usage_events d @ [ev] \<and> ue_user_id ev = ''u'' \<and> ue_broadcast_id ev = ''b''
        \<and> ue_quantity_milli ev = 5)"
proof -
  define s where "s = add_source ''stream-b'' 8 (write_track 38 4999962 1 one_viewer)"
  define d where "d = metered_db\<lparr>egress_baseline := [position ''n'' ''stream-a'' ''e'' 5000000 1]\<rparr>"
  have s: "sw_viewers s = [(''v'', 1)]" "sw_closed_egress s = []" "map_of (sw_sources s) (''stream-'' @ ''b'') = Some 8"
    "\<not> vw_closed (sw_store s 1)" "vw_billing_source (sw_store s 1) = ''stream-'' @ ''a''" "vw_egress_bytes (sw_store s 1) = 5000000"
    unfolding s_def by code_simp+
  have d: "egress_baseline d = [position ''n'' (''stream-'' @ ''a'') ''e'' 5000000 1]" "payer_row ''b'' d = Some (''u'', ''eur'')"
    "usage_idempotency_key ''n'' ''e'' (''stream-'' @ ''b'') 5000000 \<notin> usage_keys d"
    unfolding d_def by code_simp+
  from programme_switch_bills_twice [OF s _ _ _ _ d, of 0 38 2 0] show ?thesis
    unfolding Let_def s_def [symmetric] d_def [symmetric] by (auto simp: i64_max_def simp del: split_paired_Ex split: prod.splits)
qed

text \<open>The bytes of a viewer whose id is registered again are lost to the meter: the displaced
  viewer is closed but its counter is not folded into the closed totals, and its own later
  removal finds another viewer under the id, so no report ever counts it again.\<close>

theorem displaced_viewer_bytes_lost:
  assumes "map_of (sw_viewers s) i = Some old" and "distinct (map snd (sw_viewers s))" and "distinct (map fst (sw_viewers s))"
    and "v \<notin> set (viewer_objects s)"
  shows "let s' = add_viewer i v s in
     old \<notin> set (viewer_objects s') \<and> sw_closed_egress s' = sw_closed_egress s
     \<and> vw_closed (sw_store s' old) \<and> remove_viewer i (Some old) s' = s'"
proof -
  have old: "old \<in> set (viewer_objects s)" using map_of_SomeD [OF assms(1)] by (force simp: viewer_objects_def)
  with assms(4) have ne: "old \<noteq> v" by auto
  then have e: "add_viewer i v s = close_viewer old (s\<lparr>sw_viewers := AList.update i v (sw_viewers s)\<rparr>)"
    using assms(1) by (simp add: add_viewer_def)
  have "old \<notin> set (map snd (AList.update i v xs))" if "map_of xs i = Some old" "distinct (map snd xs)" for xs
    using that
  proof (induction xs)
    case (Cons x xs)
    have "map_of xs i = Some old \<Longrightarrow> old \<in> snd ` set xs" by (force dest: map_of_SomeD)
    then show ?case using Cons ne by (cases x) (auto split: if_splits)
  qed simp
  then have "old \<notin> set (viewer_objects (add_viewer i v s))"
    using assms(1,2) by (simp add: e close_viewer_def update_viewer_def viewer_objects_def)
  moreover have "map_of (sw_viewers (add_viewer i v s)) i = Some v"
    by (simp add: e close_viewer_def update_viewer_def update_conv')
  then have "remove_viewer i (Some old) (add_viewer i v s) = add_viewer i v s"
    using ne by (simp add: remove_viewer_def remove_viewer_unlink_def)
  ultimately show ?thesis by (simp add: Let_def e close_viewer_def update_viewer_def)
qed

theorem displaced_viewer_bytes_lost_witness:
  "let s = write_track 38 4999962 1 one_viewer; s' = add_viewer ''v'' 2 s in
   egress_totals (viewer_objects s) (sw_closed_egress s) (sw_store s) = [(''stream-a'', 5000000)]
   \<and> 1 \<notin> set (viewer_objects s') \<and> sw_closed_egress s' = [] \<and> remove_viewer ''v'' (Some 1) s' = s'"
proof -
  define s where "s = write_track 38 4999962 1 one_viewer"
  have s: "map_of (sw_viewers s) ''v'' = Some 1" "distinct (map snd (sw_viewers s))" "distinct (map fst (sw_viewers s))"
    "2 \<notin> set (viewer_objects s)" "sw_closed_egress s = []"
    "egress_totals (viewer_objects s) (sw_closed_egress s) (sw_store s) = [(''stream-a'', 5000000)]"
    unfolding s_def by code_simp+
  from displaced_viewer_bytes_lost [OF s(1-4)] s(5,6) show ?thesis unfolding Let_def s_def [symmetric] by simp
qed

end
