(* ===== verification/Rating.thy ===== *)
theory Rating
  imports Metering "HOL-Library.Product_Lexorder"
begin

text \<open>
  Turning metered usage into wallet charges: \<^verbatim>\<open>crates/mm-fleet/src/rating.rs\<close> and the half of
  \<^verbatim>\<open>crates/mm-db/src/metering_db.rs\<close> it works through. The rater takes the oldest unrated events,
  wallets that can be billed first, prices each against the newest rate card of its wallet's
  currency, charges the wallet under a key derived from the event's own key, and marks the event
  with the card's version and the ledger row. Charge and mark are separate statements, so a pass
  can stop between them; the next pass finds the charge in the ledger and marks the event.

  Shown here: every step of a pass, under any faults, keeps the invariant that a charge of the rater is
  of one event, to its own payer, at a published price, and that no event is marked paid by a charge
  that is not in the ledger. Its consequences for whole runs are in \<^verbatim>\<open>Billing_Books\<close>, the progress of a
  pass in \<^verbatim>\<open>Rating_Progress\<close>.
\<close>

section \<open>Statements\<close>

record pending_usage =
  pu_id :: int
  pu_user_id :: string
  pu_broadcast_id :: string
  pu_unit :: string
  pu_quantity_milli :: int
  pu_idempotency_key :: string
  pu_occurred_at :: instant
  pu_currency :: string

type_synonym rate_card_prices = "int \<times> (string \<times> int) list"

definition unrated :: "usage_event \<Rightarrow> bool" where
  "unrated e \<longleftrightarrow> ue_rated_at e = None"

definition unrated_count_rows :: "db \<Rightarrow> int" where
  "unrated_count_rows d = int (length (filter unrated (usage_events d)))"

definition pending_of :: "usage_event \<Rightarrow> wallet_row \<Rightarrow> pending_usage" where
  "pending_of e r = \<lparr>pu_id = ue_id e, pu_user_id = ue_user_id e, pu_broadcast_id = ue_broadcast_id e,
     pu_unit = ue_unit e, pu_quantity_milli = ue_quantity_milli e, pu_idempotency_key = ue_idempotency_key e,
     pu_occurred_at = ue_occurred_at e, pu_currency = wr_currency r\<rparr>"

text \<open>\<^verbatim>\<open>ORDER BY w.rating_blocked_at NULLS FIRST, e.occurred_at, e.id\<close>.\<close>

definition queue_key :: "usage_event \<times> wallet_row \<Rightarrow> bool \<times> instant \<times> instant \<times> int" where
  "queue_key = (\<lambda>(e, r). (wr_rating_blocked_at r \<noteq> None,
      case wr_rating_blocked_at r of None \<Rightarrow> 0 | Some t \<Rightarrow> t, ue_occurred_at e, ue_id e))"

definition rating_queue :: "db \<Rightarrow> (usage_event \<times> wallet_row) list" where
  "rating_queue d =
     sort_key queue_key (concat (map (\<lambda>e. case find_wallet (ue_user_id e) d of None \<Rightarrow> [] | Some r \<Rightarrow> [(e, r)])
       (filter unrated (usage_events d))))"

definition unrated_events_stmt :: "int \<Rightarrow> pending_usage list query" where
  "unrated_events_stmt limit d =
     (if limit < 0 then (Inl (Failed ''LIMIT must not be negative''), d)
      else (Inr (map (\<lambda>(e, r). pending_of e r) (take (nat limit) (rating_queue d))), d))"

definition set_blocked :: "string \<Rightarrow> instant option \<Rightarrow> unit query" where
  "set_blocked u t d =
     (Inr (), d\<lparr>wallets := map (\<lambda>r. if wr_user_id r = u then r\<lparr>wr_rating_blocked_at := t\<rparr> else r) (wallets d)\<rparr>)"

definition without_wallet_rows :: "db \<Rightarrow> string list" where
  "without_wallet_rows d =
     remdups (map ue_user_id (filter (\<lambda>e. unrated e \<and> find_wallet (ue_user_id e) d = None) (usage_events d)))"

definition current_price_rows :: "string \<Rightarrow> db \<Rightarrow> rate_card_prices option" where
  "current_price_rows c d =
     (let rows = filter (\<lambda>r. rr_currency r = c) (rate_card d) in
      if rows = [] then None
      else let v = Max (set (map rr_version rows)) in
        Some (v, map (\<lambda>r. (rr_unit r, rr_price_minor r)) (filter (\<lambda>r. rr_version r = v) rows)))"

definition transaction_id_row :: "string \<Rightarrow> db \<Rightarrow> int option" where
  "transaction_id_row k d = map_option wt_id (lookup_row wt_idempotency_key k (wallet_transactions d))"

definition mark_event :: "int \<Rightarrow> int \<Rightarrow> int option \<Rightarrow> instant \<Rightarrow> unit query" where
  "mark_event i version tx t d =
     (let hit = (\<lambda>e. ue_id e = i \<and> unrated e);
          mark = (\<lambda>e. e\<lparr>ue_rated_at := Some t, ue_rate_card_version := Some version,
                        ue_transaction_id := (case tx of None \<Rightarrow> ue_transaction_id e | Some x \<Rightarrow> Some x)\<rparr>) in
      if (\<exists>e\<in>set (usage_events d). hit e) \<and> (case tx of None \<Rightarrow> False | Some x \<Rightarrow> x \<notin> wt_id ` set (wallet_transactions d))
      then (Inl (Violates ''mm_usage_events_transaction_id_fkey''), d)
      else (Inr (), d\<lparr>usage_events := map (\<lambda>e. if hit e then mark e else e) (usage_events d)\<rparr>))"

section \<open>Operations of the metering store\<close>

definition store_call :: "schedule \<Rightarrow> 'a query \<Rightarrow> 'x dbenv \<Rightarrow> (string + 'a) \<times> 'x dbenv" where
  "store_call \<phi> f w =
     (case sql \<phi> f w of (Inl e, w1) \<Rightarrow> (Inl (metering_db_text e), w1) | (Inr a, w1) \<Rightarrow> (Inr a, w1))"

definition unrated_count :: "schedule \<Rightarrow> 'x dbenv \<Rightarrow> (string + int) \<times> 'x dbenv" where
  "unrated_count \<phi> = store_call \<phi> (reads unrated_count_rows)"

definition unrated_events :: "schedule \<Rightarrow> int \<Rightarrow> 'x dbenv \<Rightarrow> (string + pending_usage list) \<times> 'x dbenv" where
  "unrated_events \<phi> limit = store_call \<phi> (unrated_events_stmt limit)"

definition block_rating :: "schedule \<Rightarrow> string \<Rightarrow> instant \<Rightarrow> 'x dbenv \<Rightarrow> (string + unit) \<times> 'x dbenv" where
  "block_rating \<phi> u now = store_call \<phi> (set_blocked u (Some now))"

definition unblock_rating :: "schedule \<Rightarrow> string \<Rightarrow> 'x dbenv \<Rightarrow> (string + unit) \<times> 'x dbenv" where
  "unblock_rating \<phi> u = store_call \<phi> (set_blocked u None)"

definition unrated_without_wallet :: "schedule \<Rightarrow> 'x dbenv \<Rightarrow> (string + string list) \<times> 'x dbenv" where
  "unrated_without_wallet \<phi> = store_call \<phi> (reads without_wallet_rows)"

definition current_prices :: "schedule \<Rightarrow> string \<Rightarrow> 'x dbenv \<Rightarrow> (string + rate_card_prices option) \<times> 'x dbenv" where
  "current_prices \<phi> c = store_call \<phi> (reads (current_price_rows c))"

definition transaction_id_for_key :: "schedule \<Rightarrow> string \<Rightarrow> 'x dbenv \<Rightarrow> (string + int option) \<times> 'x dbenv" where
  "transaction_id_for_key \<phi> k = store_call \<phi> (reads (transaction_id_row k))"

definition mark_rated :: "schedule \<Rightarrow> int \<Rightarrow> int \<Rightarrow> int \<Rightarrow> instant \<Rightarrow> 'x dbenv \<Rightarrow> (string + unit) \<times> 'x dbenv" where
  "mark_rated \<phi> i version tx t = store_call \<phi> (mark_event i version (Some tx) t)"

definition mark_rated_without_charge :: "schedule \<Rightarrow> int \<Rightarrow> int \<Rightarrow> instant \<Rightarrow> 'x dbenv \<Rightarrow> (string + unit) \<times> 'x dbenv" where
  "mark_rated_without_charge \<phi> i version t = store_call \<phi> (mark_event i version None t)"

section \<open>The rating pass\<close>

record rating_report =
  rp_rated :: nat
  rp_charged_minor :: int
  rp_recovered :: nat
  rp_insufficient_funds :: "string list"
  rp_unpriceable :: "(string \<times> string) list"
  rp_without_wallet :: "string list"
  rp_deferred :: nat

definition empty_rating :: "string list \<Rightarrow> rating_report" where
  "empty_rating us = \<lparr>rp_rated = 0, rp_charged_minor = 0, rp_recovered = 0, rp_insufficient_funds = [],
     rp_unpriceable = [], rp_without_wallet = us, rp_deferred = 0\<rparr>"

definition charge_minor :: "int \<Rightarrow> int \<Rightarrow> int" where
  "charge_minor quantity_milli price_minor =
     (if quantity_milli \<le> 0 \<or> price_minor \<le> 0 then 0
      else sat_add_i64 (sat_mul_i64 quantity_milli price_minor) 500 sdiv 1000)"

definition charge_idempotency_key :: "string \<Rightarrow> string" where
  "charge_idempotency_key k = ''rate:'' @ k"

definition unpriceable :: "string \<Rightarrow> string \<Rightarrow> rating_report \<Rightarrow> rating_report" where
  "unpriceable k why r = r\<lparr>rp_unpriceable := rp_unpriceable r @ [(k, why)]\<rparr>"

record rater =
  ra_cards :: "(string \<times> rate_card_prices option) list"
  ra_stalled :: "string list"
  ra_unblocked :: "string list"
  ra_report :: rating_report

abbreviation on_report :: "(rating_report \<Rightarrow> rating_report) \<Rightarrow> rater \<Rightarrow> rater" where
  "on_report f ra \<equiv> ra\<lparr>ra_report := f (ra_report ra)\<rparr>"

definition block_wallet :: "schedule \<Rightarrow> string \<Rightarrow> instant \<Rightarrow> rater \<Rightarrow> 'x dbenv \<Rightarrow> rater \<times> 'x dbenv" where
  "block_wallet \<phi> u now ra w =
     (case block_rating \<phi> u now w of
        (Inl e, w1) \<Rightarrow> (on_report (unpriceable u (''blocking the wallet failed: '' @ e)) ra, w1)
      | (Inr _, w1) \<Rightarrow> (ra, w1))"

definition mark_zero_rated :: "schedule \<Rightarrow> pending_usage \<Rightarrow> int \<Rightarrow> instant \<Rightarrow> 'x dbenv \<Rightarrow> (string + unit) \<times> 'x dbenv" where
  "mark_zero_rated \<phi> ev version now w =
     (case mark_rated_without_charge \<phi> (pu_id ev) version now w of
        (Inl e, w1) \<Rightarrow> (Inl (''marking a zero-priced event failed: '' @ e), w1) | (Inr u, w1) \<Rightarrow> (Inr u, w1))"

definition card_for :: "schedule \<Rightarrow> string \<Rightarrow> rater \<Rightarrow> 'x dbenv \<Rightarrow> (string + rate_card_prices option \<times> rater) \<times> 'x dbenv" where
  "card_for \<phi> c ra w =
     (case map_of (ra_cards ra) c of
        Some crd \<Rightarrow> (Inr (crd, ra), w)
      | None \<Rightarrow>
          (case current_prices \<phi> c w of
             (Inl e, w1) \<Rightarrow> (Inl (''reading the rate card failed: '' @ e), w1)
           | (Inr crd, w1) \<Rightarrow> (Inr (crd, ra\<lparr>ra_cards := (c, crd) # ra_cards ra\<rparr>), w1)))"

text \<open>What follows a charge: the mark, and bringing the wallet back to the front of the queue.\<close>

definition settle :: "schedule \<Rightarrow> instant \<Rightarrow> pending_usage \<Rightarrow> int \<Rightarrow> int option \<Rightarrow> rater \<Rightarrow> 'x dbenv \<Rightarrow> rater \<times> 'x dbenv" where
  "settle \<phi> now ev version found ra w =
     (case found of
        None \<Rightarrow> (on_report (unpriceable (pu_idempotency_key ev) ''charged but the ledger row could not be found'') ra, w)
      | Some tx \<Rightarrow>
          (case mark_rated \<phi> (pu_id ev) version tx now w of
             (Inl e, w1) \<Rightarrow>
               (on_report (unpriceable (pu_idempotency_key ev) (''charged but marking rated failed (will retry): '' @ e)) ra, w1)
           | (Inr _, w1) \<Rightarrow>
               let ra1 = on_report (\<lambda>r. r\<lparr>rp_rated := rp_rated r + 1\<rparr>) ra in
               if pu_user_id ev \<in> set (ra_unblocked ra1) then (ra1, w1)
               else let ra2 = ra1\<lparr>ra_unblocked := pu_user_id ev # ra_unblocked ra1\<rparr> in
                 (case unblock_rating \<phi> (pu_user_id ev) w1 of
                    (Inl e, w2) \<Rightarrow> (on_report (unpriceable (pu_idempotency_key ev) (''unblocking the wallet failed: '' @ e)) ra2, w2)
                  | (Inr _, w2) \<Rightarrow> (ra2, w2))))"

definition charge_event :: "schedule \<Rightarrow> instant \<Rightarrow> pending_usage \<Rightarrow> int \<Rightarrow> int \<Rightarrow> rater \<Rightarrow> 'x dbenv \<Rightarrow> (string + rater) \<times> 'x dbenv" where
  "charge_event \<phi> now ev version amount ra w =
     (let key = charge_idempotency_key (pu_idempotency_key ev) in
      case charge_once \<phi> (pu_user_id ev) (pu_currency ev) amount key (Some (pu_broadcast_id ev)) w of
        (Inr outcome, w1) \<Rightarrow>
          let ra1 = (case outcome of
                Applied \<Rightarrow> on_report (\<lambda>r. r\<lparr>rp_charged_minor := wrap_i64 (rp_charged_minor r + amount)\<rparr>) ra
              | AlreadyApplied \<Rightarrow> on_report (\<lambda>r. r\<lparr>rp_recovered := rp_recovered r + 1\<rparr>) ra) in
          (case transaction_id_for_key \<phi> key w1 of
             (Inl e, w2) \<Rightarrow> (Inl (''recovering the transaction id failed: '' @ e), w2)
           | (Inr found, w2) \<Rightarrow> (case settle \<phi> now ev version found ra1 w2 of (ra2, w3) \<Rightarrow> (Inr ra2, w3)))
      | (Inl (InsufficientFunds _ _), w1) \<Rightarrow>
          (case block_wallet \<phi> (pu_user_id ev) now
                  (on_report (\<lambda>r. r\<lparr>rp_insufficient_funds := rp_insufficient_funds r @ [pu_broadcast_id ev]\<rparr>) ra) w1 of
             (ra1, w2) \<Rightarrow> (Inr (ra1\<lparr>ra_stalled := pu_user_id ev # ra_stalled ra1\<rparr>), w2))
      | (Inl e, w1) \<Rightarrow> (Inr (on_report (unpriceable (pu_idempotency_key ev) (wallet_error_text e)) ra), w1))"

definition rate_event :: "schedule \<Rightarrow> instant \<Rightarrow> pending_usage \<Rightarrow> rater \<Rightarrow> 'x dbenv \<Rightarrow> (string + rater) \<times> 'x dbenv" where
  "rate_event \<phi> now ev ra w =
     (if pu_user_id ev \<in> set (ra_stalled ra)
      then (Inr (on_report (\<lambda>r. r\<lparr>rp_deferred := rp_deferred r + 1\<rparr>) ra), w)
      else case card_for \<phi> (pu_currency ev) ra w of
        (Inl e, w1) \<Rightarrow> (Inl e, w1)
      | (Inr (None, ra1), w1) \<Rightarrow>
          (case block_wallet \<phi> (pu_user_id ev) now (on_report (unpriceable (pu_idempotency_key ev)
                  (''no rate card for currency '' @ pu_currency ev)) ra1) w1 of (ra2, w2) \<Rightarrow> (Inr ra2, w2))
      | (Inr (Some (version, prices), ra1), w1) \<Rightarrow>
          (case map_of prices (pu_unit ev) of
             None \<Rightarrow>
               (case block_wallet \<phi> (pu_user_id ev) now (on_report (unpriceable (pu_idempotency_key ev)
                       (''rate card '' @ show_int version @ '' has no price for unit '' @ pu_unit ev)) ra1) w1 of
                  (ra2, w2) \<Rightarrow> (Inr ra2, w2))
           | Some price \<Rightarrow>
               let amount = charge_minor (pu_quantity_milli ev) price in
               if amount = 0 then
                 (case mark_zero_rated \<phi> ev version now w1 of
                    (Inl e, w2) \<Rightarrow> (Inr (on_report (unpriceable (pu_idempotency_key ev) e) ra1), w2)
                  | (Inr _, w2) \<Rightarrow> (Inr (on_report (\<lambda>r. r\<lparr>rp_rated := rp_rated r + 1\<rparr>) ra1), w2))
               else charge_event \<phi> now ev version amount ra1 w1))"

fun rate_events :: "schedule \<Rightarrow> instant \<Rightarrow> pending_usage list \<Rightarrow> rater \<Rightarrow> 'x dbenv \<Rightarrow> (string + rater) \<times> 'x dbenv" where
  "rate_events \<phi> now [] ra w = (Inr ra, w)"
| "rate_events \<phi> now (ev # evs) ra w =
     (case rate_event \<phi> now ev ra w of
        (Inl e, w1) \<Rightarrow> (Inl e, w1) | (Inr ra1, w1) \<Rightarrow> rate_events \<phi> now evs ra1 w1)"

definition rate_pending :: "schedule \<Rightarrow> int \<Rightarrow> instant \<Rightarrow> 'x dbenv \<Rightarrow> (string + rating_report) \<times> 'x dbenv" where
  "rate_pending \<phi> batch now w =
     (case unrated_without_wallet \<phi> w of
        (Inl e, w1) \<Rightarrow> (Inl (''checking for wallet-less usage failed: '' @ e), w1)
      | (Inr us, w1) \<Rightarrow>
          (case unrated_events \<phi> batch w1 of
             (Inl e, w2) \<Rightarrow> (Inl (''reading the rating queue failed: '' @ e), w2)
           | (Inr pending, w2) \<Rightarrow>
               (case rate_events \<phi> now pending \<lparr>ra_cards = [], ra_stalled = [], ra_unblocked = [], ra_report = empty_rating us\<rparr> w2 of
                  (Inl e, w3) \<Rightarrow> (Inl e, w3) | (Inr ra, w3) \<Rightarrow> (Inr (ra_report ra), w3))))"

section \<open>The billing invariant\<close>

definition priced :: "rate_row list \<Rightarrow> string \<Rightarrow> string \<Rightarrow> int \<Rightarrow> bool" where
  "priced rc c u p \<longleftrightarrow> (\<exists>r\<in>set rc. rr_currency r = c \<and> rr_unit r = u \<and> rr_price_minor r = p)"

text \<open>A ledger row pays for a usage event: the event's own key, payer, broadcast, and its usage at
  a price that the rate card has for the unit in the wallet's currency.\<close>

definition pays :: "db \<Rightarrow> wallet_tx \<Rightarrow> usage_event \<Rightarrow> bool" where
  "pays d t e \<longleftrightarrow> wt_idempotency_key t = charge_idempotency_key (ue_idempotency_key e)
     \<and> wt_user_id t = ue_user_id e \<and> wt_kind t = ''charge'' \<and> wt_broadcast_id t = Some (ue_broadcast_id e)
     \<and> (\<exists>p. priced (rate_card d) (wt_currency t) (ue_unit e) p \<and> wt_amount_minor t = - charge_minor (ue_quantity_milli e) p)"

definition rating_wf :: "db \<Rightarrow> bool" where
  "rating_wf d \<longleftrightarrow> ledger_wf d
   \<and> distinct (map ue_id (usage_events d)) \<and> distinct (map ue_idempotency_key (usage_events d))
   \<and> (\<forall>e\<in>set (usage_events d). ue_id e < usage_next d \<and> usage_checks e = None
        \<and> (\<forall>i. ue_transaction_id e = Some i \<longrightarrow> (\<exists>t\<in>set (wallet_transactions d). wt_id t = i \<and> pays d t e)))
   \<and> (\<forall>t\<in>set (wallet_transactions d). \<forall>k. wt_idempotency_key t = charge_idempotency_key k \<longrightarrow>
        (\<exists>e\<in>set (usage_events d). ue_idempotency_key e = k \<and> pays d t e))"

definition pending_ok :: "db \<Rightarrow> pending_usage \<Rightarrow> bool" where
  "pending_ok d ev \<longleftrightarrow> (\<exists>e\<in>set (usage_events d). ue_id e = pu_id ev \<and> ue_idempotency_key e = pu_idempotency_key ev
     \<and> ue_user_id e = pu_user_id ev \<and> ue_broadcast_id e = pu_broadcast_id ev \<and> ue_unit e = pu_unit ev
     \<and> ue_quantity_milli e = pu_quantity_milli ev)"

definition pass_inv :: "pending_usage set \<Rightarrow> rate_row list \<Rightarrow> db \<Rightarrow> bool" where
  "pass_inv evs rc d \<longleftrightarrow> rating_wf d \<and> (\<forall>ev\<in>evs. pending_ok d ev) \<and> rate_card d = rc"

lemma charge_key_inj [simp]: "charge_idempotency_key a = charge_idempotency_key b \<longleftrightarrow> a = b"
  by (simp add: charge_idempotency_key_def)

lemma ledger_wf_frame:
  "wallets d' = wallets d \<Longrightarrow> wallet_transactions d' = wallet_transactions d \<Longrightarrow> wallet_tx_next d' = wallet_tx_next d \<Longrightarrow>
   ledger_wf d' = ledger_wf d"
  by (simp add: ledger_wf_def wallet_pairs_def)

lemma ledger_wf_wallets:
  assumes "ledger_wf d" and "\<And>r. wr_user_id (f r) = wr_user_id r \<and> wr_currency (f r) = wr_currency r
     \<and> wr_balance_minor (f r) = wr_balance_minor r \<and> wr_credit_limit_minor (f r) = wr_credit_limit_minor r"
  shows "ledger_wf (d\<lparr>wallets := map f (wallets d)\<rparr>)"
proof -
  let ?d = "d\<lparr>wallets := map f (wallets d)\<rparr>"
  have pairs: "wallet_pairs ?d = wallet_pairs d" by (simp add: wallet_pairs_def image_image assms(2))
  have ids: "map wr_user_id (wallets ?d) = map wr_user_id (wallets d)" using assms(2) by simp
  have "wallet_checks (f r) = wallet_checks r" for r by (simp add: wallet_checks_def assms(2))
  moreover have "\<forall>r\<in>set (wallets d). wallet_checks r = None" "\<forall>r\<in>set (wallets d). in_i64 (wr_balance_minor r)"
    "\<forall>r\<in>set (wallets d). wr_balance_minor r = ledger_sum (wr_user_id r) (wallet_transactions d)"
    using assms(1) unfolding ledger_wf_def by blast+
  ultimately have rows: "\<forall>r\<in>set (wallets ?d). wallet_checks r = None" "\<forall>r\<in>set (wallets ?d). in_i64 (wr_balance_minor r)"
    "\<forall>r\<in>set (wallets ?d). wr_balance_minor r = ledger_sum (wr_user_id r) (wallet_transactions ?d)"
    by (simp_all add: assms(2))
  show ?thesis
    unfolding ledger_wf_def pairs ids using assms(1) rows unfolding ledger_wf_def by simp
qed

lemma pays_frame: "rate_card d' = rate_card d \<Longrightarrow> pays d' t e = pays d t e"
  by (simp add: pays_def priced_def)

text \<open>A statement that leaves events, ledger and prices alone keeps the invariant.\<close>

lemma pass_inv_frame:
  assumes "usage_events d' = usage_events d" "usage_next d' = usage_next d" "wallet_transactions d' = wallet_transactions d"
    "rate_card d' = rate_card d" and "ledger_wf d \<Longrightarrow> ledger_wf d'" and "pass_inv evs rc d"
  shows "pass_inv evs rc d'"
  using assms pays_frame [OF assms(4)] by (simp add: pass_inv_def rating_wf_def pending_ok_def)

lemma set_blocked_inv: "pass_inv evs rc d \<Longrightarrow> pass_inv evs rc (snd (set_blocked u t d))"
  by (rule pass_inv_frame [of _ d]) (simp_all add: set_blocked_def ledger_wf_wallets)

lemma paying_event_unique:
  assumes "rating_wf d" and "t \<in> set (wallet_transactions d)" and "e \<in> set (usage_events d)"
    and "wt_idempotency_key t = charge_idempotency_key (ue_idempotency_key e)"
  shows "pays d t e"
proof -
  have "\<exists>e'\<in>set (usage_events d). ue_idempotency_key e' = ue_idempotency_key e \<and> pays d t e'"
    using assms(1,2,4) unfolding rating_wf_def by blast
  then obtain e' where e': "e' \<in> set (usage_events d)" "ue_idempotency_key e' = ue_idempotency_key e" "pays d t e'" by blast
  have "distinct (map ue_idempotency_key (usage_events d))" using assms(1) by (simp add: rating_wf_def)
  with e' assms(3) have "e' = e" by (auto simp: distinct_map inj_on_def)
  with e'(3) show ?thesis by simp
qed

lemma usage_checks_None: "usage_checks e = None \<longleftrightarrow> ue_unit e \<in> set unit_labels \<and> 0 \<le> ue_quantity_milli e
   \<and> ((ue_rated_at e = None \<and> ue_rate_card_version e = None \<and> ue_transaction_id e = None)
      \<or> (ue_rated_at e \<noteq> None \<and> ue_rate_card_version e \<noteq> None))"
  by (auto simp: usage_checks_def)

lemma mark_event_inv:
  assumes inv: "pass_inv evs rc d" and ev: "ev \<in> evs"
    and tx: "\<And>x. tx = Some x \<Longrightarrow> transaction_id_row (charge_idempotency_key (pu_idempotency_key ev)) d = Some x"
  shows "pass_inv evs rc (snd (mark_event (pu_id ev) version tx now d))"
proof -
  let ?hit = "\<lambda>e. ue_id e = pu_id ev \<and> unrated e"
  let ?f = "\<lambda>e. if ?hit e then e\<lparr>ue_rated_at := Some now, ue_rate_card_version := Some version,
      ue_transaction_id := (case tx of None \<Rightarrow> ue_transaction_id e | Some x \<Rightarrow> Some x)\<rparr> else e"
  let ?d = "d\<lparr>usage_events := map ?f (usage_events d)\<rparr>"
  have wf: "rating_wf d" using inv by (simp add: pass_inv_def)
  have same: "ue_id (?f e) = ue_id e" "ue_idempotency_key (?f e) = ue_idempotency_key e" "ue_user_id (?f e) = ue_user_id e"
    "ue_broadcast_id (?f e) = ue_broadcast_id e" "ue_unit (?f e) = ue_unit e" "ue_quantity_milli (?f e) = ue_quantity_milli e" for e
    by simp_all
  have pay: "pays ?d t (?f e) = pays d t e" for t e unfolding pays_def priced_def same by simp
  have maps: "map ue_id (map ?f es) = map ue_id es" "map ue_idempotency_key (map ?f es) = map ue_idempotency_key es" for es
    by (induction es) auto
  have link: "\<exists>t\<in>set (wallet_transactions d). wt_id t = i \<and> pays d t e"
    if e: "e \<in> set (usage_events d)" and i: "ue_transaction_id (?f e) = Some i" for e i
  proof (cases "?hit e \<and> tx \<noteq> None")
    case True
    then have t: "tx = Some i" using i by auto
    then obtain t where t: "t \<in> set (wallet_transactions d)" "wt_id t = i"
        "wt_idempotency_key t = charge_idempotency_key (pu_idempotency_key ev)"
      using tx [OF t] by (auto simp: transaction_id_row_def dest: lookup_row_Some_set)
    from inv ev obtain e' where e': "e' \<in> set (usage_events d)" "ue_id e' = pu_id ev" "ue_idempotency_key e' = pu_idempotency_key ev"
      by (auto simp: pass_inv_def pending_ok_def)
    have "distinct (map ue_id (usage_events d))" using wf by (simp add: rating_wf_def)
    with e e' True have "e' = e" by (auto simp: distinct_map inj_on_def)
    with paying_event_unique [OF wf t(1) e] t e' show ?thesis by auto
  next
    case False
    then have "ue_transaction_id e = Some i" using i by (auto split: if_splits)
    then show ?thesis using wf e unfolding rating_wf_def by blast
  qed
  have chk: "usage_checks (?f e) = None" if "e \<in> set (usage_events d)" for e
  proof -
    have "usage_checks e = None" using wf that unfolding rating_wf_def by blast
    then show ?thesis by (simp add: usage_checks_None)
  qed
  have "rating_wf ?d"
    unfolding rating_wf_def
  proof (intro conjI ballI allI impI)
    show "ledger_wf ?d" using wf by (simp add: rating_wf_def ledger_wf_frame [of ?d d])
    show "distinct (map ue_id (usage_events ?d))" "distinct (map ue_idempotency_key (usage_events ?d))"
      using wf maps by (simp_all add: rating_wf_def del: map_map)
    fix x assume "x \<in> set (usage_events ?d)"
    then obtain e where e: "e \<in> set (usage_events d)" "x = ?f e" by auto
    show "ue_id x < usage_next ?d" using wf e by (auto simp: rating_wf_def)
    show "usage_checks x = None" unfolding e(2) by (rule chk [OF e(1)])
    fix i assume "ue_transaction_id x = Some i"
    then show "\<exists>t\<in>set (wallet_transactions ?d). wt_id t = i \<and> pays ?d t x" using link [OF e(1)] e(2) pay by auto
  next
    fix t k assume t: "t \<in> set (wallet_transactions ?d)" "wt_idempotency_key t = charge_idempotency_key k"
    then have "t \<in> set (wallet_transactions d)" by simp
    then obtain e where e: "e \<in> set (usage_events d)" "ue_idempotency_key e = k" "pays d t e"
      using wf t(2) unfolding rating_wf_def by blast
    then show "\<exists>e\<in>set (usage_events ?d). ue_idempotency_key e = k \<and> pays ?d t e"
      using pay same by (intro bexI [of _ "?f e"]) auto
  qed
  moreover have "pending_ok ?d x" if x: "pending_ok d x" for x
  proof -
    from x obtain e where e: "e \<in> set (usage_events d)" "ue_id e = pu_id x \<and> ue_idempotency_key e = pu_idempotency_key x
       \<and> ue_user_id e = pu_user_id x \<and> ue_broadcast_id e = pu_broadcast_id x \<and> ue_unit e = pu_unit x
       \<and> ue_quantity_milli e = pu_quantity_milli x"
      unfolding pending_ok_def by blast
    have "?f e \<in> set (usage_events ?d)" using e(1) by simp
    then show ?thesis unfolding pending_ok_def by (rule rev_bexI) (unfold same, rule e(2))
  qed
  ultimately have "pass_inv evs rc ?d" using inv by (simp add: pass_inv_def)
  then show ?thesis using inv by (simp add: mark_event_def Let_def)
qed

text \<open>A charge that the rater makes for a pending event.\<close>

lemma insert_charge_inv:
  assumes inv: "pass_inv evs rc d" and ev: "ev \<in> evs" and q: "priced rc (pu_currency ev) (pu_unit ev) p"
  shows "pass_inv evs rc (snd (insert_transaction (charge_tx (pu_user_id ev) (pu_currency ev)
     (charge_minor (pu_quantity_milli ev) p) (charge_idempotency_key (pu_idempotency_key ev)) (Some (pu_broadcast_id ev))) d))"
proof -
  let ?t = "charge_tx (pu_user_id ev) (pu_currency ev) (charge_minor (pu_quantity_milli ev) p)
      (charge_idempotency_key (pu_idempotency_key ev)) (Some (pu_broadcast_id ev))"
  have wf: "rating_wf d" using inv by (simp add: pass_inv_def)
  from inv ev obtain e where e: "e \<in> set (usage_events d)" "ue_idempotency_key e = pu_idempotency_key ev"
      "ue_user_id e = pu_user_id ev" "ue_broadcast_id e = pu_broadcast_id ev" "ue_unit e = pu_unit ev" "ue_quantity_milli e = pu_quantity_milli ev"
    by (auto simp: pass_inv_def pending_ok_def)
  have pr: "priced (rate_card d) (pu_currency ev) (pu_unit ev) p" using inv q by (simp add: pass_inv_def)
  show ?thesis
  proof (cases rule: insert_transaction_cases [of ?t d])
    case (accepted r)
    let ?d = "posted ?t r d"
    have l: "ledger_wf ?d" using insert_transaction_wf [of d ?t] wf accepted(7) by (simp add: rating_wf_def)
    have same: "usage_events ?d = usage_events d" "usage_next ?d = usage_next d" "rate_card ?d = rate_card d"
        "wallet_transactions ?d = wallet_transactions d @ [?t\<lparr>wt_id := wallet_tx_next d\<rparr>]"
      by (simp_all add: posted_def)
    have pf: "pays ?d t x = pays d t x" for t x by (rule pays_frame) (rule same(3))
    have new: "pays d (?t\<lparr>wt_id := i\<rparr>) e" for i
      unfolding pays_def using e pr by (auto simp: movement_tx_def)
    have "rating_wf ?d"
      unfolding rating_wf_def same
    proof (intro conjI ballI allI impI)
      show "ledger_wf ?d" by (rule l)
      show "distinct (map ue_id (usage_events d))" "distinct (map ue_idempotency_key (usage_events d))"
        using wf by (simp_all add: rating_wf_def)
      fix x assume x: "x \<in> set (usage_events d)"
      show "ue_id x < usage_next d" "usage_checks x = None" using wf x unfolding rating_wf_def by blast+
      fix i assume "ue_transaction_id x = Some i"
      then have "\<exists>t\<in>set (wallet_transactions d). wt_id t = i \<and> pays d t x" using wf x unfolding rating_wf_def by blast
      then show "\<exists>t\<in>set (wallet_transactions d @ [?t\<lparr>wt_id := wallet_tx_next d\<rparr>]). wt_id t = i \<and> pays ?d t x"
        unfolding pf by auto
    next
      fix t k assume t: "t \<in> set (wallet_transactions d @ [?t\<lparr>wt_id := wallet_tx_next d\<rparr>])"
        "wt_idempotency_key t = charge_idempotency_key k"
      show "\<exists>e\<in>set (usage_events d). ue_idempotency_key e = k \<and> pays ?d t e"
      proof (cases "t \<in> set (wallet_transactions d)")
        case True
        then show ?thesis unfolding pf using wf t(2) unfolding rating_wf_def by blast
      next
        case False
        then have "t = ?t\<lparr>wt_id := wallet_tx_next d\<rparr>" using t(1) by simp
        then show ?thesis unfolding pf using new t(2) e by (intro bexI [of _ e]) (auto simp: movement_tx_def)
      qed
    qed
    then show ?thesis using inv same accepted(7) by (simp add: pass_inv_def pending_ok_def priced_def)
  qed (use inv in simp)
qed

subsection \<open>A pass keeps the invariant\<close>

lemma store_call_db: "world_db (snd (store_call \<phi> f w)) = world_db (snd (sql \<phi> f w))"
  by (simp add: store_call_def)

lemma store_call_inv:
  "(\<And>d. I d \<Longrightarrow> I (snd (f d))) \<Longrightarrow> I (world_db w) \<Longrightarrow> I (world_db (snd (store_call \<phi> f w)))"
  unfolding store_call_db by (rule sql_inv)

lemma store_call_reads [simp]: "world_db (snd (store_call \<phi> (reads q) w)) = world_db w"
  by (simp add: store_call_db)

lemma store_call_Inr: "fst (store_call \<phi> f w) = Inr a \<Longrightarrow> fst (f (world_db w)) = Inr a"
  by (auto simp: store_call_def split: prod.splits sum.splits dest!: sql_Inr [of \<phi> f w a, rotated]) (metis fst_conv sql_Inr)

lemma store_call_reads_Inr: "fst (store_call \<phi> (reads q) w) = Inr a \<Longrightarrow> a = q (world_db w)"
  by (drule store_call_Inr) (simp add: reads_def)

lemma charge_minor_div:
  "0 < q \<Longrightarrow> 0 < p \<Longrightarrow> charge_minor q p = sat_i64 (sat_i64 (q * p) + 500) div 1000"
proof -
  assume "0 < q" "0 < p"
  then have "0 < sat_i64 (q * p)" by (intro sat_i64_pos) simp
  then have "0 < sat_i64 (sat_i64 (q * p) + 500)" by (intro sat_i64_pos) simp
  then show ?thesis using \<open>0 < q\<close> \<open>0 < p\<close>
    by (simp add: charge_minor_def sat_add_i64_def sat_mul_i64_def signed_divide_int_def)
qed

lemma charge_minor_nonneg: "0 \<le> charge_minor q p"
proof (cases "0 < q \<and> 0 < p")
  case True
  then have "0 \<le> sat_i64 (sat_i64 (q * p) + 500)" by (intro sat_i64_nonneg add_nonneg_nonneg) simp_all
  then show ?thesis using True by (simp add: charge_minor_div pos_imp_zdiv_nonneg_iff)
qed (auto simp: charge_minor_def)

lemma block_wallet_inv:
  "pass_inv evs rc (world_db w) \<Longrightarrow> pass_inv evs rc (world_db (snd (block_wallet \<phi> u now ra w)))"
proof -
  assume "pass_inv evs rc (world_db w)"
  then have "pass_inv evs rc (world_db (snd (block_rating \<phi> u now w)))"
    unfolding block_rating_def by (rule store_call_inv [rotated]) (rule set_blocked_inv)
  then show ?thesis by (simp add: block_wallet_def split: prod.split sum.split)
qed

lemma settle_inv:
  assumes inv: "pass_inv evs rc (world_db w)" and ev: "ev \<in> evs"
    and f: "\<And>x. found = Some x \<Longrightarrow> transaction_id_row (charge_idempotency_key (pu_idempotency_key ev)) (world_db w) = Some x"
  shows "pass_inv evs rc (world_db (snd (settle \<phi> now ev version found ra w)))"
proof (cases found)
  case (Some x)
  let ?k = "charge_idempotency_key (pu_idempotency_key ev)"
  have "pass_inv evs rc (world_db (snd (mark_rated \<phi> (pu_id ev) version x now w)))
      \<and> transaction_id_row ?k (world_db (snd (mark_rated \<phi> (pu_id ev) version x now w))) = Some x"
    unfolding mark_rated_def
  proof (rule store_call_inv [where I = "\<lambda>d. pass_inv evs rc d \<and> transaction_id_row ?k d = Some x"])
    fix d assume d: "pass_inv evs rc d \<and> transaction_id_row ?k d = Some x"
    then have "pass_inv evs rc (snd (mark_event (pu_id ev) version (Some x) now d))" by (intro mark_event_inv [OF _ ev]) auto
    moreover have "wallet_transactions (snd (mark_event (pu_id ev) version (Some x) now d)) = wallet_transactions d"
      by (simp add: mark_event_def Let_def)
    ultimately show "pass_inv evs rc (snd (mark_event (pu_id ev) version (Some x) now d))
        \<and> transaction_id_row ?k (snd (mark_event (pu_id ev) version (Some x) now d)) = Some x"
      using d by (simp add: transaction_id_row_def)
  qed (use inv f Some in simp)
  then have m: "pass_inv evs rc (world_db (snd (mark_rated \<phi> (pu_id ev) version x now w)))" by simp
  then have "pass_inv evs rc (world_db (snd (unblock_rating \<phi> (pu_user_id ev) (snd (mark_rated \<phi> (pu_id ev) version x now w)))))"
    unfolding unblock_rating_def by (rule store_call_inv [rotated]) (rule set_blocked_inv)
  with m show ?thesis by (simp add: settle_def Some Let_def split_beta split: prod.split sum.split)
qed (simp add: settle_def inv)

lemma charge_event_inv:
  assumes inv: "pass_inv evs rc (world_db w)" and ev: "ev \<in> evs" and q: "priced rc (pu_currency ev) (pu_unit ev) p"
    and a: "charge_minor (pu_quantity_milli ev) p \<noteq> 0"
  shows "pass_inv evs rc (world_db (snd (charge_event \<phi> now ev version (charge_minor (pu_quantity_milli ev) p) ra w)))"
proof -
  let ?k = "charge_idempotency_key (pu_idempotency_key ev)" and ?a = "charge_minor (pu_quantity_milli ev) p"
  let ?c = "charge_once \<phi> (pu_user_id ev) (pu_currency ev) ?a ?k (Some (pu_broadcast_id ev)) w"
  have pos: "0 < ?a" using a charge_minor_nonneg [of "pu_quantity_milli ev" p] by simp
  have c: "pass_inv evs rc (world_db (snd ?c))"
    unfolding charge_db [OF pos] by (rule sql_inv [OF insert_charge_inv [OF _ ev q] inv])
  show ?thesis
  proof (cases "fst ?c")
    case (Inl e)
    then show ?thesis using c block_wallet_inv [OF c]
      by (cases e) (auto simp: charge_event_def Let_def split_beta split: prod.split)
  next
    case (Inr out)
    obtain r w2 where t: "transaction_id_for_key \<phi> ?k (snd ?c) = (r, w2)" by (cases "transaction_id_for_key \<phi> ?k (snd ?c)")
    then have w2: "world_db w2 = world_db (snd ?c)"
      using store_call_reads [of \<phi> "transaction_id_row ?k" "snd ?c"] by (simp add: transaction_id_for_key_def)
    show ?thesis
    proof (cases r)
      case (Inl e)
      then show ?thesis using \<open>fst ?c = Inr out\<close> t c w2 by (simp add: charge_event_def Let_def split_beta)
    next
      case (Inr found)
      then have "found = transaction_id_row ?k (world_db w2)"
        using store_call_reads_Inr [of \<phi> "transaction_id_row ?k" "snd ?c" found] t w2 by (simp add: transaction_id_for_key_def)
      then have "pass_inv evs rc (world_db (snd (settle \<phi> now ev version found ra' w2)))" for ra'
        using c w2 by (intro settle_inv [OF _ ev]) simp_all
      then show ?thesis using \<open>fst ?c = Inr out\<close> Inr t by (simp add: charge_event_def Let_def split_beta)
    qed
  qed
qed

definition cards_ok :: "rate_row list \<Rightarrow> rater \<Rightarrow> bool" where
  "cards_ok rc ra \<longleftrightarrow> (\<forall>c v ps u p. map_of (ra_cards ra) c = Some (Some (v, ps)) \<longrightarrow> map_of ps u = Some p \<longrightarrow> priced rc c u p)"

lemma cards_frame:
  "ra_cards (fst (block_wallet \<phi> u now ra w)) = ra_cards ra"
  "ra_cards (fst (settle \<phi> now ev version found ra w)) = ra_cards ra"
  by (simp_all add: block_wallet_def settle_def Let_def split_beta split: option.split prod.split sum.split)

lemma charge_event_cards:
  "fst (charge_event \<phi> now ev version a ra w) = Inr ra' \<Longrightarrow> ra_cards ra' = ra_cards ra"
  by (auto simp: charge_event_def Let_def split_beta cards_frame
      split: sum.splits wallet_error.splits charge_outcome.splits)

lemma current_prices_priced:
  "current_price_rows c d = Some (v, ps) \<Longrightarrow> map_of ps u = Some p \<Longrightarrow> priced (rate_card d) c u p"
  by (auto simp: current_price_rows_def priced_def Let_def split: if_splits dest!: map_of_SomeD)

lemma card_for_ok:
  assumes "cards_ok rc ra" and "rate_card (world_db w) = rc"
  shows "world_db (snd (card_for \<phi> c ra w)) = world_db w"
    and "fst (card_for \<phi> c ra w) = Inr (crd, ra') \<Longrightarrow> cards_ok rc ra' \<and> map_of (ra_cards ra') c = Some crd"
proof -
  have d: "world_db (snd (current_prices \<phi> c w)) = world_db w" by (simp add: current_prices_def)
  then show "world_db (snd (card_for \<phi> c ra w)) = world_db w"
    by (simp add: card_for_def split: option.split prod.split sum.split)
  assume a: "fst (card_for \<phi> c ra w) = Inr (crd, ra')"
  show "cards_ok rc ra' \<and> map_of (ra_cards ra') c = Some crd"
  proof (cases "map_of (ra_cards ra) c")
    case (Some x)
    then show ?thesis using a assms(1) by (auto simp: card_for_def)
  next
    case None
    then have r: "fst (current_prices \<phi> c w) = Inr crd" "ra' = ra\<lparr>ra_cards := (c, crd) # ra_cards ra\<rparr>"
      using a by (auto simp: card_for_def split: prod.splits sum.splits)
    from store_call_reads_Inr [OF r(1) [unfolded current_prices_def]] have "crd = current_price_rows c (world_db w)" .
    then show ?thesis using assms current_prices_priced [of c "world_db w"] unfolding cards_ok_def r(2) by auto
  qed
qed

text \<open>The branches of one event.\<close>

lemma rate_event_stalled:
  "pu_user_id ev \<in> set (ra_stalled ra) \<Longrightarrow>
   rate_event \<phi> now ev ra w = (Inr (on_report (\<lambda>r. r\<lparr>rp_deferred := rp_deferred r + 1\<rparr>) ra), w)"
  by (simp add: rate_event_def)

lemma rate_event_card_error:
  "pu_user_id ev \<notin> set (ra_stalled ra) \<Longrightarrow> card_for \<phi> (pu_currency ev) ra w = (Inl e, w1) \<Longrightarrow>
   rate_event \<phi> now ev ra w = (Inl e, w1)"
  by (simp add: rate_event_def)

lemma rate_event_no_card:
  "pu_user_id ev \<notin> set (ra_stalled ra) \<Longrightarrow> card_for \<phi> (pu_currency ev) ra w = (Inr (None, ra1), w1) \<Longrightarrow>
   \<exists>f. rate_event \<phi> now ev ra w = (Inr (fst (block_wallet \<phi> (pu_user_id ev) now (on_report f ra1) w1)),
      snd (block_wallet \<phi> (pu_user_id ev) now (on_report f ra1) w1))"
  by (rule exI [of _ "unpriceable (pu_idempotency_key ev) (''no rate card for currency '' @ pu_currency ev)"])
    (simp add: rate_event_def split: prod.split)

lemma rate_event_no_price:
  "pu_user_id ev \<notin> set (ra_stalled ra) \<Longrightarrow> card_for \<phi> (pu_currency ev) ra w = (Inr (Some (version, prices), ra1), w1) \<Longrightarrow>
   map_of prices (pu_unit ev) = None \<Longrightarrow>
   \<exists>f. rate_event \<phi> now ev ra w = (Inr (fst (block_wallet \<phi> (pu_user_id ev) now (on_report f ra1) w1)),
      snd (block_wallet \<phi> (pu_user_id ev) now (on_report f ra1) w1))"
  by (rule exI [of _ "unpriceable (pu_idempotency_key ev)
      (''rate card '' @ show_int version @ '' has no price for unit '' @ pu_unit ev)"])
    (simp add: rate_event_def split: prod.split)

lemma rate_event_zero:
  "pu_user_id ev \<notin> set (ra_stalled ra) \<Longrightarrow> card_for \<phi> (pu_currency ev) ra w = (Inr (Some (version, prices), ra1), w1) \<Longrightarrow>
   map_of prices (pu_unit ev) = Some price \<Longrightarrow> charge_minor (pu_quantity_milli ev) price = 0 \<Longrightarrow>
   rate_event \<phi> now ev ra w =
     (case mark_zero_rated \<phi> ev version now w1 of
        (Inl e, w2) \<Rightarrow> (Inr (on_report (unpriceable (pu_idempotency_key ev) e) ra1), w2)
      | (Inr _, w2) \<Rightarrow> (Inr (on_report (\<lambda>r. r\<lparr>rp_rated := rp_rated r + 1\<rparr>) ra1), w2))"
  by (simp add: rate_event_def)

lemma rate_event_charge:
  "pu_user_id ev \<notin> set (ra_stalled ra) \<Longrightarrow> card_for \<phi> (pu_currency ev) ra w = (Inr (Some (version, prices), ra1), w1) \<Longrightarrow>
   map_of prices (pu_unit ev) = Some price \<Longrightarrow> charge_minor (pu_quantity_milli ev) price \<noteq> 0 \<Longrightarrow>
   rate_event \<phi> now ev ra w = charge_event \<phi> now ev version (charge_minor (pu_quantity_milli ev) price) ra1 w1"
  by (simp add: rate_event_def)

definition event_ok :: "pending_usage set \<Rightarrow> rate_row list \<Rightarrow> (string + rater) \<times> 'x dbenv \<Rightarrow> bool" where
  "event_ok evs rc res \<longleftrightarrow> pass_inv evs rc (world_db (snd res)) \<and> (\<forall>ra'. fst res = Inr ra' \<longrightarrow> cards_ok rc ra')"

lemma event_okI [intro]:
  "pass_inv evs rc (world_db w) \<Longrightarrow> cards_ok rc ra \<Longrightarrow> event_ok evs rc (Inr ra, w)"
  "pass_inv evs rc (world_db w) \<Longrightarrow> event_ok evs rc (Inl e, w)"
  by (simp_all add: event_ok_def)

lemma cards_ok_frame: "cards_ok rc ra \<Longrightarrow> ra_cards ra' = ra_cards ra \<Longrightarrow> cards_ok rc ra'"
  by (simp add: cards_ok_def)

lemma block_event_ok:
  assumes "pass_inv evs rc (world_db w)" and "cards_ok rc ra"
  shows "event_ok evs rc (Inr (fst (block_wallet \<phi> u now (on_report f ra) w)), snd (block_wallet \<phi> u now (on_report f ra) w))"
  by (rule event_okI(1) [OF block_wallet_inv [OF assms(1)] cards_ok_frame [OF assms(2)]]) (simp add: cards_frame)

lemma zero_event_ok:
  assumes inv: "pass_inv evs rc (world_db w)" and ev: "ev \<in> evs" and ok: "cards_ok rc ra"
  shows "event_ok evs rc (case mark_zero_rated \<phi> ev version now w of
        (Inl e, w2) \<Rightarrow> (Inr (on_report (unpriceable (pu_idempotency_key ev) e) ra), w2)
      | (Inr _, w2) \<Rightarrow> (Inr (on_report (\<lambda>r. r\<lparr>rp_rated := rp_rated r + 1\<rparr>) ra), w2))"
proof -
  obtain r w2 where m: "mark_zero_rated \<phi> ev version now w = (r, w2)" by (cases "mark_zero_rated \<phi> ev version now w")
  have "pass_inv evs rc (snd (mark_event (pu_id ev) version None now d))" if "pass_inv evs rc d" for d
    using that by (rule mark_event_inv [OF _ ev]) simp
  then have "pass_inv evs rc (world_db (snd (store_call \<phi> (mark_event (pu_id ev) version None now) w)))"
    using inv by (rule store_call_inv)
  moreover have "snd (mark_zero_rated \<phi> ev version now w) = snd (store_call \<phi> (mark_event (pu_id ev) version None now) w)"
    by (simp add: mark_zero_rated_def mark_rated_without_charge_def split: prod.split sum.split)
  ultimately have w2: "pass_inv evs rc (world_db w2)" by (simp add: m)
  have frame: "cards_ok rc (on_report f ra)" for f by (rule cards_ok_frame [OF ok]) simp
  show ?thesis
    by (cases r) (simp_all only: m prod.case sum.case event_okI(1) [OF w2 frame])
qed

lemma charge_event_ok:
  assumes "pass_inv evs rc (world_db w)" and "ev \<in> evs" and "cards_ok rc ra"
    and "priced rc (pu_currency ev) (pu_unit ev) p" and "charge_minor (pu_quantity_milli ev) p \<noteq> 0"
  shows "event_ok evs rc (charge_event \<phi> now ev version (charge_minor (pu_quantity_milli ev) p) ra w)"
  unfolding event_ok_def
  using charge_event_inv [OF assms(1,2,4,5)] cards_ok_frame [OF assms(3) charge_event_cards] by blast

lemma rate_event_inv:
  assumes inv: "pass_inv evs rc (world_db w)" and ev: "ev \<in> evs" and ok: "cards_ok rc ra"
  shows "event_ok evs rc (rate_event \<phi> now ev ra w)"
proof (cases "pu_user_id ev \<in> set (ra_stalled ra)")
  case True
  have "cards_ok rc (on_report (\<lambda>r. r\<lparr>rp_deferred := rp_deferred r + 1\<rparr>) ra)" by (rule cards_ok_frame [OF ok]) simp
  then show ?thesis unfolding rate_event_stalled [OF True] by (rule event_okI(1) [OF inv])
next
  case ns: False
  have rc: "rate_card (world_db w) = rc" using inv by (simp add: pass_inv_def)
  obtain r w1 where c: "card_for \<phi> (pu_currency ev) ra w = (r, w1)" by (cases "card_for \<phi> (pu_currency ev) ra w")
  then have w1: "pass_inv evs rc (world_db w1)" using card_for_ok(1) [OF ok rc, of \<phi> "pu_currency ev"] inv by simp
  consider (error) e where "r = Inl e" | (none) ra1 where "r = Inr (None, ra1)"
    | (prices) version prices ra1 where "r = Inr (Some (version, prices), ra1)"
    by (cases r) (auto, metis option.exhaust prod.exhaust)
  then show ?thesis
  proof cases
    case error
    then show ?thesis unfolding rate_event_card_error [OF ns c [unfolded error]] by (intro event_okI(2) w1)
  next
    case none
    have ok1: "cards_ok rc ra1" using card_for_ok(2) [OF ok rc, of \<phi> "pu_currency ev" None ra1] c none by simp
    from rate_event_no_card [OF ns c [unfolded none], of now] obtain f where
      f: "rate_event \<phi> now ev ra w = (Inr (fst (block_wallet \<phi> (pu_user_id ev) now (on_report f ra1) w1)),
        snd (block_wallet \<phi> (pu_user_id ev) now (on_report f ra1) w1))" ..
    show ?thesis unfolding f by (rule block_event_ok [OF w1 ok1])
  next
    case prices
    note c = c [unfolded prices]
    have ok1: "cards_ok rc ra1" "map_of (ra_cards ra1) (pu_currency ev) = Some (Some (version, prices))"
      using card_for_ok(2) [OF ok rc, of \<phi> "pu_currency ev" "Some (version, prices)" ra1] c by simp_all
    show ?thesis
    proof (cases "map_of prices (pu_unit ev)")
      case None
      from rate_event_no_price [OF ns c None, of now] obtain f where
        f: "rate_event \<phi> now ev ra w = (Inr (fst (block_wallet \<phi> (pu_user_id ev) now (on_report f ra1) w1)),
          snd (block_wallet \<phi> (pu_user_id ev) now (on_report f ra1) w1))" ..
      show ?thesis unfolding f by (rule block_event_ok [OF w1 ok1(1)])
    next
      case p: (Some price)
      have pr: "priced rc (pu_currency ev) (pu_unit ev) price" using ok1 p unfolding cards_ok_def by blast
      show ?thesis
      proof (cases "charge_minor (pu_quantity_milli ev) price = 0")
        case True
        show ?thesis unfolding rate_event_zero [OF ns c p True] by (rule zero_event_ok [OF w1 ev ok1(1)])
      next
        case False
        show ?thesis unfolding rate_event_charge [OF ns c p False] by (rule charge_event_ok [OF w1 ev ok1(1) pr False])
      qed
    qed
  qed
qed

lemma rate_events_inv:
  "pass_inv evs rc (world_db w) \<Longrightarrow> set es \<subseteq> evs \<Longrightarrow> cards_ok rc ra \<Longrightarrow>
   pass_inv evs rc (world_db (snd (rate_events \<phi> now es ra w)))"
proof (induction es arbitrary: ra w)
  case (Cons ev es)
  obtain r w1 where e: "rate_event \<phi> now ev ra w = (r, w1)" by (cases "rate_event \<phi> now ev ra w")
  have i: "pass_inv evs rc (world_db w1)" "\<And>ra'. r = Inr ra' \<Longrightarrow> cards_ok rc ra'"
    using rate_event_inv [OF Cons.prems(1) _ Cons.prems(3), of ev \<phi> now] Cons.prems(2) e by (simp_all add: event_ok_def)
  then show ?case using e Cons.IH [OF i(1)] Cons.prems(2) by (cases r) simp_all
qed simp

lemma queue_pending_ok:
  assumes "rating_wf d" and "ev \<in> set (map (\<lambda>(e, r). pending_of e r) (take n (rating_queue d)))"
  shows "pending_ok d ev"
proof -
  from assms(2) obtain e r where x: "(e, r) \<in> set (rating_queue d)" "ev = pending_of e r"
    by (auto dest: in_set_takeD)
  then have "e \<in> set (usage_events d)"
    by (auto simp: rating_queue_def split: option.splits)
  with x(2) show ?thesis by (auto simp: pending_ok_def pending_of_def)
qed

lemma rate_pending_wf:
  assumes wf: "rating_wf (world_db w)"
  shows "rating_wf (world_db (snd (rate_pending \<phi> batch now w)))"
proof -
  obtain r1 w1 where a: "unrated_without_wallet \<phi> w = (r1, w1)" by (cases "unrated_without_wallet \<phi> w")
  have w1: "world_db w1 = world_db w"
    using a unfolding unrated_without_wallet_def by (metis snd_conv store_call_reads)
  obtain r2 w2 where b: "unrated_events \<phi> batch w1 = (r2, w2)" by (cases "unrated_events \<phi> batch w1")
  have id: "snd (unrated_events_stmt batch d) = d" for d by (simp add: unrated_events_stmt_def)
  have w2: "world_db w2 = world_db w"
  proof -
    have "world_db (snd (sql \<phi> (unrated_events_stmt batch) w1)) = world_db w1"
      by (rule sql_inv [where I = "\<lambda>d. d = world_db w1"]) (simp_all add: id)
    then show ?thesis using b w1 unfolding unrated_events_def by (metis snd_conv store_call_db)
  qed
  show ?thesis
  proof (cases r1)
    case (Inl e)
    then show ?thesis using a w1 wf by (simp add: rate_pending_def)
  next
    case us: (Inr us)
    show ?thesis
    proof (cases r2)
      case (Inl e)
      then show ?thesis using a us b w2 wf by (simp add: rate_pending_def)
    next
      case (Inr pending)
      have "fst (unrated_events_stmt batch (world_db w)) = Inr pending"
        using store_call_Inr [of \<phi> "unrated_events_stmt batch" w1 pending] b Inr w1 by (simp add: unrated_events_def)
      then have "pending = map (\<lambda>(e, r). pending_of e r) (take (nat batch) (rating_queue (world_db w)))"
        by (simp add: unrated_events_stmt_def split: if_splits)
      then have "pass_inv (set pending) (rate_card (world_db w)) (world_db w2)"
        using queue_pending_ok [OF wf] wf w2 by (simp add: pass_inv_def del: set_map)
      then have "pass_inv (set pending) (rate_card (world_db w)) (world_db (snd (rate_events \<phi> now pending
          \<lparr>ra_cards = [], ra_stalled = [], ra_unblocked = [], ra_report = empty_rating us\<rparr> w2)))"
        by (rule rate_events_inv) (simp_all add: cards_ok_def)
      then show ?thesis using a us b Inr by (simp add: rate_pending_def pass_inv_def)
    qed
  qed
qed

end
