(* ===== verification/Billing_Books.thy ===== *)
theory Billing_Books
  imports Complex_Main Rating
begin

text \<open>
  The billing chain as a whole: egress sweeps (\<^verbatim>\<open>mm-fleet/src/metering.rs\<close>), rating passes
  (\<^verbatim>\<open>mm-fleet/src/rating.rs\<close>) and wallet operations (\<^verbatim>\<open>mm-db/src/wallet_db.rs\<close>) on one database,
  in any order and under any faults.

  Shown: the books agree after every run, that is, every charge in the ledger that the rater made
  pays for one usage event at a published price, no event is paid for twice, and an event that
  is marked as paid names the row that paid for it; and the amount is the exact product rounded half
  up while it fits.
\<close>

section \<open>Every statement keeps the books\<close>

lemma insert_usage_books:
  assumes inv: "pass_inv {} rc d"
  shows "pass_inv {} rc (snd (insert_usage n iv d))"
proof (cases rule: insert_usage_cases [of n iv d])
  case new
  let ?e = "interval_event n iv d"
  let ?d = "d\<lparr>usage_events := usage_events d @ [?e], usage_next := usage_next d + 1\<rparr>"
  have wf: "rating_wf d" using inv by (simp add: pass_inv_def)
  have e: "ue_id ?e = usage_next d" "ue_idempotency_key ?e = iv_idempotency_key iv" "ue_transaction_id ?e = None"
    by (simp_all add: interval_event_def)
  have chk: "usage_checks ?e = None" using new(2) by (simp add: interval_event_checks)
  have pf: "pays ?d t x = pays d t x" for t x by (rule pays_frame) simp
  have "rating_wf ?d"
    unfolding rating_wf_def
  proof (intro conjI ballI allI impI)
    show "ledger_wf ?d" using wf by (simp add: rating_wf_def ledger_wf_frame [of ?d d])
    show "distinct (map ue_id (usage_events ?d))" using wf e(1) by (force simp: rating_wf_def)
    show "distinct (map ue_idempotency_key (usage_events ?d))" using wf e(2) new(3) by (simp add: rating_wf_def usage_keys_def)
  next
    fix x assume "x \<in> set (usage_events ?d)"
    then have x: "x = ?e \<or> x \<in> set (usage_events d)" by auto
    show "ue_id x < usage_next ?d" using x wf e(1) by (force simp: rating_wf_def)
    show "usage_checks x = None" using x wf chk by (auto simp: rating_wf_def)
    fix i assume "ue_transaction_id x = Some i"
    then have "x \<in> set (usage_events d)" using x e(3) by auto
    then show "\<exists>t\<in>set (wallet_transactions ?d). wt_id t = i \<and> pays ?d t x"
      using wf \<open>ue_transaction_id x = Some i\<close> unfolding pf rating_wf_def by simp
  next
    fix t k assume "t \<in> set (wallet_transactions ?d)" "wt_idempotency_key t = charge_idempotency_key k"
    then have "\<exists>e\<in>set (usage_events d). ue_idempotency_key e = k \<and> pays d t e" using wf unfolding rating_wf_def by simp
    then show "\<exists>e\<in>set (usage_events ?d). ue_idempotency_key e = k \<and> pays ?d t e" unfolding pf by auto
  qed
  then show ?thesis using inv new(1) by (simp add: pass_inv_def)
qed (use inv in simp_all)

lemma insert_intervals_books:
  "pass_inv {} rc d \<Longrightarrow> pass_inv {} rc (snd (insert_intervals n ivs r d))"
proof (induction ivs arbitrary: r d)
  case (Cons iv ivs)
  have "pass_inv {} rc (snd (insert_usage n iv d))" by (rule insert_usage_books [OF Cons.prems])
  then show ?case by (cases rule: insert_usage_cases [of n iv d]) (simp_all add: Cons)
qed simp

lemma upsert_positions_frame:
  "\<exists>rows. snd (upsert_positions n e t ps d) = d\<lparr>egress_baseline := rows\<rparr>"
proof (induction ps arbitrary: d)
  case Nil
  show ?case by (rule exI [of _ "egress_baseline d"]) simp
next
  case (Cons p ps)
  obtain s c where p: "p = (s, c)" by (cases p)
  show ?case
  proof (cases "c < 0")
    case True
    then show ?thesis unfolding p upsert_positions_Cons by (intro exI [of _ "egress_baseline d"]) simp
  next
    case False
    obtain rows where "snd (upsert_positions n e t ps (d\<lparr>egress_baseline := upsert baseline_key baseline_merge
        (position n s e c t) (egress_baseline d)\<rparr>)) = d\<lparr>egress_baseline := rows\<rparr>"
      using Cons [of "d\<lparr>egress_baseline := upsert baseline_key baseline_merge (position n s e c t) (egress_baseline d)\<rparr>"] by auto
    then show ?thesis unfolding p upsert_positions_Cons using False by auto
  qed
qed

lemma record_tx_books:
  assumes inv: "pass_inv {} rc d"
  shows "pass_inv {} rc (snd (record_tx n e t ivs ps d))"
proof -
  let ?z = "\<lparr>rc_events = 0, rc_bytes = 0\<rparr>"
  obtain r d1 where i: "insert_intervals n ivs ?z d = (r, d1)" by (cases "insert_intervals n ivs ?z d")
  have d1: "pass_inv {} rc d1" using insert_intervals_books [OF inv, of n ivs ?z] i by simp
  obtain r2 d2 where u: "upsert_positions n e t ps d1 = (r2, d2)" by (cases "upsert_positions n e t ps d1")
  obtain rows where "d2 = d1\<lparr>egress_baseline := rows\<rparr>" using upsert_positions_frame [of n e t ps d1] u by auto
  then have frame: "usage_events d2 = usage_events d1" "usage_next d2 = usage_next d1" "rate_card d2 = rate_card d1"
      "wallet_transactions d2 = wallet_transactions d1" "ledger_wf d2 = ledger_wf d1"
    by (simp_all add: ledger_wf_frame [of "d1\<lparr>egress_baseline := rows\<rparr>" d1])
  then have "pass_inv {} rc d2"
    using d1 by (intro pass_inv_frame [of d2 d1]) (simp_all add: pass_inv_def rating_wf_def)
  then show ?thesis using inv i u by (cases r; cases r2) (simp_all add: record_tx_def)
qed

lemma sweep_node_inv:
  fixes w :: "'x dbenv"
  assumes "\<And>n e t ivs ps d. I d \<Longrightarrow> I (snd (record_tx n e t ivs ps d))" and "I (world_db w)"
  shows "I (world_db (snd (sweep_node \<phi> now node s w)))"
  by (rule sweep_node_answers [of \<phi> now node s w]) (use assms in auto)

lemma sweep_nodes_inv:
  fixes w :: "'x dbenv"
  assumes "\<And>n e t ivs ps d. I d \<Longrightarrow> I (snd (record_tx n e t ivs ps d))"
  shows "I (world_db w) \<Longrightarrow> I (world_db (snd (sweep_nodes \<phi> now nodes s w)))"
proof (induction nodes arbitrary: s w)
  case (Cons n ns)
  obtain s1 w1 where s: "sweep_node \<phi> now n s w = (s1, w1)" by (cases "sweep_node \<phi> now n s w")
  then have "I (world_db w1)" using sweep_node_inv [where I = I, OF assms Cons.prems, of \<phi> now n s] by simp
  then show ?case using Cons.IH s by simp
qed simp

lemma insert_wallet_books: "pass_inv {} rc d \<Longrightarrow> pass_inv {} rc (snd (insert_wallet u c l d))"
  by (rule pass_inv_frame [of _ d]) (simp_all add: insert_wallet_wf insert_wallet_ledger pass_inv_def rating_wf_def,
      simp_all add: insert_wallet_def Let_def split: option.split)

text \<open>A movement that is not the rater's: its key does not have the rater's prefix.\<close>

definition rater_key :: "string \<Rightarrow> bool" where
  "rater_key k \<longleftrightarrow> starts_with k ''rate:''"

lemma rater_key_iff: "rater_key k \<longleftrightarrow> (\<exists>u. k = charge_idempotency_key u)"
  by (simp add: rater_key_def charge_idempotency_key_def starts_with_iff)

lemma insert_transaction_books:
  assumes inv: "pass_inv {} rc d" and k: "\<not> rater_key (wt_idempotency_key t)"
  shows "pass_inv {} rc (snd (insert_transaction t d))"
proof (cases rule: insert_transaction_cases [of t d])
  case (accepted r)
  let ?d = "posted t r d"
  have wf: "rating_wf d" using inv by (simp add: pass_inv_def)
  have l: "ledger_wf ?d" using insert_transaction_wf [of d t] wf accepted(7) by (simp add: rating_wf_def)
  have same: "usage_events ?d = usage_events d" "usage_next ?d = usage_next d" "rate_card ?d = rate_card d"
      "wallet_transactions ?d = wallet_transactions d @ [t\<lparr>wt_id := wallet_tx_next d\<rparr>]"
    by (simp_all add: posted_def)
  have pf: "pays ?d t x = pays d t x" for t x by (rule pays_frame) (rule same(3))
  have foreign: "wt_idempotency_key (t\<lparr>wt_id := i\<rparr>) \<noteq> charge_idempotency_key u" for i u
    using k by (auto simp: rater_key_iff)
  have "rating_wf ?d"
    unfolding rating_wf_def same pf
  proof (intro conjI ballI allI impI)
    show "ledger_wf ?d" by (rule l)
    show "distinct (map ue_id (usage_events d))" "distinct (map ue_idempotency_key (usage_events d))"
      using wf by (simp_all add: rating_wf_def)
    fix x assume x: "x \<in> set (usage_events d)"
    show "ue_id x < usage_next d" "usage_checks x = None" using wf x unfolding rating_wf_def by blast+
    fix i assume "ue_transaction_id x = Some i"
    then have "\<exists>t\<in>set (wallet_transactions d). wt_id t = i \<and> pays d t x" using wf x unfolding rating_wf_def by blast
    then show "\<exists>s\<in>set (wallet_transactions d @ [t\<lparr>wt_id := wallet_tx_next d\<rparr>]). wt_id s = i \<and> pays d s x" by auto
  next
    fix s u assume s: "s \<in> set (wallet_transactions d @ [t\<lparr>wt_id := wallet_tx_next d\<rparr>])"
      "wt_idempotency_key s = charge_idempotency_key u"
    then have "s \<in> set (wallet_transactions d)" using foreign by auto
    then show "\<exists>e\<in>set (usage_events d). ue_idempotency_key e = u \<and> pays d s e" using wf s(2) unfolding rating_wf_def by blast
  qed
  then show ?thesis using inv same accepted(7) by (simp add: pass_inv_def)
qed (use inv in simp)

section \<open>Runs of the billing chain\<close>

datatype 'x billing_op =
    Sweep "'x metered_node list" instant
  | Rate int instant
  | Wallet_Op wallet_op
  | Publish rate_row

text \<open>An operator publishes a price by adding a row to the rate card, which is never changed.\<close>

definition publish :: "rate_row \<Rightarrow> unit query" where
  "publish r d = (Inr (), d\<lparr>rate_card := rate_card d @ [r]\<rparr>)"

definition run_billing :: "schedule \<Rightarrow> 'x billing_op \<Rightarrow> 'x dbenv \<Rightarrow> 'x dbenv" where
  "run_billing \<phi> op w =
     (case op of Sweep nodes now \<Rightarrow> snd (sweep_egress \<phi> nodes now w)
      | Rate batch now \<Rightarrow> snd (rate_pending \<phi> batch now w)
      | Wallet_Op x \<Rightarrow> run_wallet_op \<phi> x w
      | Publish r \<Rightarrow> snd (sql \<phi> (publish r) w))"

fun foreign_op :: "wallet_op \<Rightarrow> bool" where
  "foreign_op (CreateWallet u c l) = True"
| "foreign_op (Deposit u c a k) = (\<not> rater_key k)"
| "foreign_op (Charge u c a k b) = (\<not> rater_key k)"
| "foreign_op (Refund u c a k b) = (\<not> rater_key k)"

fun foreign :: "'x billing_op \<Rightarrow> bool" where
  "foreign (Wallet_Op x) = foreign_op x"
| "foreign _ = True"

lemma foreign_movement:
  assumes "\<not> rater_key k" and "pass_inv {} rc (world_db w)"
  shows "pass_inv {} rc (world_db (snd (movement \<phi> u c kind a k b w)))"
  unfolding movement_db
  by (rule sql_inv [OF insert_transaction_books assms(2)]) (simp_all add: movement_tx_def assms(1))

lemma run_foreign_op:
  "foreign_op op \<Longrightarrow> pass_inv {} rc (world_db w) \<Longrightarrow> pass_inv {} rc (world_db (run_wallet_op \<phi> op w))"
proof (cases op)
  case (CreateWallet u c l)
  assume "pass_inv {} rc (world_db w)"
  then have "pass_inv {} rc (world_db (snd (sql \<phi> (insert_wallet u c l) w)))"
    by (intro sql_inv [where I = "pass_inv {} rc"] insert_wallet_books)
  then show ?thesis by (simp add: CreateWallet run_wallet_op_def create_wallet_def)
qed (simp_all add: run_wallet_op_def deposit_def charge_def refund_def foreign_movement del: movement_db)

lemma publish_books: "rating_wf d \<Longrightarrow> rating_wf (snd (publish r d))"
proof -
  assume wf: "rating_wf d"
  let ?d = "d\<lparr>rate_card := rate_card d @ [r]\<rparr>"
  have mono: "pays d t e \<Longrightarrow> pays ?d t e" for t e by (auto simp: pays_def priced_def)
  have "ledger_wf ?d" using wf by (simp add: rating_wf_def ledger_wf_frame [of ?d d])
  then have "rating_wf ?d" using wf mono unfolding rating_wf_def by fastforce
  then show ?thesis by (simp add: publish_def)
qed

interpretation books: guarded_system "run_billing \<phi>" foreign "\<lambda>w. rating_wf (world_db w)" for \<phi>
proof
  fix op :: "'x billing_op" and w :: "'x dbenv"
  assume f: "foreign op" and wf: "rating_wf (world_db w)"
  then have inv: "pass_inv {} (rate_card (world_db w)) (world_db w)" by (simp add: pass_inv_def)
  show "rating_wf (world_db (run_billing \<phi> op w))"
  proof (cases op)
    case (Sweep nodes now)
    have "pass_inv {} (rate_card (world_db w)) (world_db (snd (sweep_nodes \<phi> now nodes empty_sweep w)))"
      by (rule sweep_nodes_inv [where I = "pass_inv {} (rate_card (world_db w))", OF record_tx_books inv])
    then show ?thesis by (simp add: Sweep run_billing_def sweep_egress_def pass_inv_def)
  next
    case (Rate batch now)
    then show ?thesis using rate_pending_wf [OF wf] by (simp add: run_billing_def)
  next
    case (Wallet_Op x)
    then show ?thesis using run_foreign_op [of x "rate_card (world_db w)" w \<phi>] f inv by (simp add: run_billing_def pass_inv_def)
  next
    case (Publish r)
    have "rating_wf (world_db (snd (sql \<phi> (publish r) w)))" by (rule sql_inv [OF publish_books wf])
    then show ?thesis by (simp add: Publish run_billing_def)
  qed
qed

lemma distinct_map_filter_le1:
  "distinct (map f xs) \<Longrightarrow> length (filter (\<lambda>x. f x = y) xs) \<le> 1"
proof (induction xs)
  case (Cons x xs)
  then show ?case by (auto simp: filter_empty_conv) (metis image_eqI)
qed simp

lemma charge_minor_cases:
  assumes "0 < q" and "0 < p"
  shows "charge_minor q p = (if q * p \<le> 9223372036854775307 then (q * p + 500) div 1000 else 9223372036854775)"
proof -
  have "0 < q * p" using assms by simp
  then show ?thesis unfolding charge_minor_div [OF assms] by (simp add: sat_i64_def i64_max_def i64_min_def)
qed

lemma round_milli: "round (real_of_int q * real_of_int p / 1000) = (q * p + 500) div 1000"
proof -
  have "real_of_int q * real_of_int p / 1000 + 1 / 2 = real_of_int (q * p + 500) / real_of_int 1000" by simp
  then show ?thesis unfolding round_def by (simp only: floor_divide_of_int_eq)
qed

section \<open>Properties\<close>

text \<open>C1: Whatever order egress sweeps, rating passes, price publications and the wallet operations of
  others run in, and whatever faults occur, the books agree. Every wallet's balance is the sum
  of its ledger rows. Every ledger row with a key of the rater pays for a recorded usage event
  of that payer: the amount is the event's usage at a price of the rate card. No event is paid
  for by two rows. An event that names a transaction names the row that paid for it.\<close>

theorem billing_books_agree:
  assumes "rating_wf (world_db w)" and "list_all foreign ops"
  shows "let d = world_db (fold (run_billing \<phi>) ops w) in
     (\<forall>r\<in>set (wallets d). wr_balance_minor r = ledger_sum (wr_user_id r) (wallet_transactions d))
   \<and> (\<forall>t\<in>set (wallet_transactions d). rater_key (wt_idempotency_key t) \<longrightarrow> (\<exists>e\<in>set (usage_events d). pays d t e))
   \<and> (\<forall>e\<in>set (usage_events d).
        length (filter (\<lambda>t. wt_idempotency_key t = charge_idempotency_key (ue_idempotency_key e)) (wallet_transactions d)) \<le> 1
      \<and> (\<forall>i. ue_transaction_id e = Some i \<longrightarrow> (\<exists>t\<in>set (wallet_transactions d). wt_id t = i \<and> pays d t e)))"
proof -
  let ?d = "world_db (fold (run_billing \<phi>) ops w)"
  have wf: "rating_wf ?d" by (rule books.allowed_run_keeps [OF assms(2,1)])
  have "\<forall>r\<in>set (wallets ?d). wr_balance_minor r = ledger_sum (wr_user_id r) (wallet_transactions ?d)"
    using wf unfolding rating_wf_def ledger_wf_def by blast
  moreover have "\<forall>t\<in>set (wallet_transactions ?d). rater_key (wt_idempotency_key t) \<longrightarrow> (\<exists>e\<in>set (usage_events ?d). pays ?d t e)"
    using wf unfolding rating_wf_def rater_key_iff by blast
  moreover have "\<forall>e\<in>set (usage_events ?d). \<forall>i. ue_transaction_id e = Some i \<longrightarrow> (\<exists>t\<in>set (wallet_transactions ?d). wt_id t = i \<and> pays ?d t e)"
    using wf unfolding rating_wf_def by blast
  moreover have "distinct (map wt_idempotency_key (wallet_transactions ?d))"
    using wf unfolding rating_wf_def ledger_wf_def by blast
  then have "length (filter (\<lambda>t. wt_idempotency_key t = k) (wallet_transactions ?d)) \<le> 1" for k
    by (rule distinct_map_filter_le1)
  ultimately show ?thesis unfolding Let_def by blast
qed

definition opening_db :: db where
  "opening_db = empty_db\<lparr>streams := [\<lparr>st_id = ''a'', st_host_user_id = ''u'', st_status = ''live'', st_started_at = 0\<rparr>]\<rparr>"

definition billing_day :: "(string + switch_egress) list billing_op list" where
  "billing_day = [Wallet_Op (CreateWallet ''u'' ''eur'' 0), Wallet_Op (Deposit ''u'' ''eur'' 1000 ''k''),
     Publish \<lparr>rr_version = 1, rr_currency = ''eur'', rr_unit = ''egress_gb'', rr_price_minor = 100\<rparr>,
     Sweep [scripted ''n''] 1, Sweep [scripted ''n''] 2, Rate 10 3, Rate 10 4]"

definition billing_world :: "(string + switch_egress) list dbenv" where
  "billing_world = ((opening_db, [reading ''e'' [(''stream-a'', mb 1)], reading ''e'' [(''stream-a'', mb 4001)]]), 0)"

text \<open>The mark of the first pass fails after the charge; the second pass recovers it.\<close>

definition lost_mark :: schedule where
  "lost_mark n = (if n = 13 then FailsBefore ''connection reset'' else Works)"

lemma opening_db_wf: "rating_wf opening_db"
  by (simp add: rating_wf_def ledger_wf_def opening_db_def empty_db_def)

theorem billing_books_agree_witness:
  "let d = world_db (fold (run_billing lost_mark) billing_day billing_world) in
     map wr_balance_minor (wallets d) = [600] \<and> map ue_transaction_id (usage_events d) = [Some 2]
   \<and> map wt_amount_minor (wallet_transactions d) = [1000, -400]
   \<and> (\<forall>t\<in>set (wallet_transactions d). rater_key (wt_idempotency_key t) \<longrightarrow> (\<exists>e\<in>set (usage_events d). pays d t e))"
proof -
  define d where "d = world_db (fold (run_billing lost_mark) billing_day billing_world)"
  have "list_all foreign billing_day" by code_simp
  moreover have "rating_wf (world_db billing_world)" by (simp add: billing_world_def opening_db_wf)
  ultimately have "\<forall>t\<in>set (wallet_transactions d). rater_key (wt_idempotency_key t) \<longrightarrow> (\<exists>e\<in>set (usage_events d). pays d t e)"
    using billing_books_agree [of billing_world billing_day lost_mark] unfolding d_def Let_def by blast
  moreover have "map wr_balance_minor (wallets d) = [600]" unfolding d_def by code_simp
  moreover have "map ue_transaction_id (usage_events d) = [Some 2]" unfolding d_def by code_simp
  moreover have "map wt_amount_minor (wallet_transactions d) = [1000, -400]" unfolding d_def by code_simp
  ultimately show ?thesis unfolding d_def Let_def by blast
qed

text \<open>C35: The amount charged for an event is its usage times the price, in thousandths, rounded half
  up to a whole minor unit, computed as in exact arithmetic, whenever the product is at most the
  64-bit range less the half that is added; beyond it the charge saturates at the largest
  whole amount below the exact one, never at more.\<close>

theorem charge_minor_rounds_half_up:
  assumes "0 < q" and "0 < p"
  shows "(if q * p \<le> 9223372036854775307 then charge_minor q p = round (real_of_int q * real_of_int p / 1000)
      else charge_minor q p = 9223372036854775)
    \<and> real_of_int (charge_minor q p) \<le> real_of_int q * real_of_int p / 1000 + 1 / 2"
proof -
  have le: "charge_minor q p \<le> (q * p + 500) div 1000"
  proof (cases "q * p \<le> 9223372036854775307")
    case False
    then have "(9223372036854775000::int) div 1000 \<le> (q * p + 500) div 1000" by (intro zdiv_mono1) linarith+
    with False show ?thesis unfolding charge_minor_cases [OF assms] by simp
  qed (simp add: charge_minor_cases [OF assms])
  then have "real_of_int (charge_minor q p) \<le> real_of_int (round (real_of_int q * real_of_int p / 1000))"
    unfolding round_milli by simp
  also have "\<dots> \<le> real_of_int q * real_of_int p / 1000 + 1 / 2" by (rule of_int_round_le)
  finally have "real_of_int (charge_minor q p) \<le> real_of_int q * real_of_int p / 1000 + 1 / 2" .
  moreover have "if q * p \<le> 9223372036854775307 then charge_minor q p = (q * p + 500) div 1000 else charge_minor q p = 9223372036854775"
    unfolding charge_minor_cases [OF assms] by (simp only: if_True if_False split: if_splits) simp
  ultimately show ?thesis unfolding round_milli by (intro conjI)
qed

theorem charge_minor_rounds_half_up_witness:
  "charge_minor 1500 333 = round (real_of_int 1500 * real_of_int 333 / 1000) \<and> charge_minor 1500 333 = 500
   \<and> charge_minor 9223372036854775807 2 = 9223372036854775"
proof -
  have "charge_minor 1500 333 = 500" by code_simp
  moreover have "charge_minor 1500 333 = round (real_of_int 1500 * real_of_int 333 / 1000)"
    using charge_minor_rounds_half_up [of 1500 333] by simp
  moreover have "charge_minor 9223372036854775807 2 = 9223372036854775"
    using charge_minor_rounds_half_up [of 9223372036854775807 2] by simp
  ultimately show ?thesis by blast
qed

end
