(* ===== verification/Rating_Progress.thy ===== *)
theory Rating_Progress
  imports Billing_Books
begin

text \<open>
  Progress of the rating pass (\<^verbatim>\<open>mm-fleet/src/rating.rs\<close>, \<^verbatim>\<open>rate_pending\<close>): with a working
  database a pass succeeds and accounts for every event it takes from the queue, and one payer's missing
  price or empty wallet does not keep it from settling what another payer can pay.
\<close>

section \<open>What an event costs and what a wallet has\<close>

definition price_for :: "db \<Rightarrow> pending_usage \<Rightarrow> int option" where
  "price_for d ev = (case current_price_rows (pu_currency ev) d of None \<Rightarrow> None | Some (v, ps) \<Rightarrow> map_of ps (pu_unit ev))"

definition due :: "db \<Rightarrow> pending_usage \<Rightarrow> int" where
  "due d ev = (case price_for d ev of None \<Rightarrow> 0 | Some p \<Rightarrow> charge_minor (pu_quantity_milli ev) p)"

definition due_of :: "string \<Rightarrow> db \<Rightarrow> pending_usage list \<Rightarrow> int" where
  "due_of u d evs = sum_list (map (due d) (filter (\<lambda>ev. pu_user_id ev = u) evs))"

text \<open>The payer has a wallet in the event's currency, with a limit that fits its column, and the
  rate card has a price.\<close>

definition billable :: "db \<Rightarrow> pending_usage \<Rightarrow> bool" where
  "billable d ev \<longleftrightarrow> price_for d ev \<noteq> None \<and>
     (case find_wallet (pu_user_id ev) d of None \<Rightarrow> False
      | Some r \<Rightarrow> wr_currency r = pu_currency ev \<and> in_i64 (wr_credit_limit_minor r))"

text \<open>The payer's wallet covers all that the events of a list would cost that payer, those without a price
  costing nothing.\<close>

definition covered :: "string \<Rightarrow> db \<Rightarrow> pending_usage list \<Rightarrow> bool" where
  "covered u d evs \<longleftrightarrow> (case find_wallet u d of None \<Rightarrow> False
     | Some r \<Rightarrow> in_i64 (wr_credit_limit_minor r) \<and> due_of u d evs \<le> wr_balance_minor r + wr_credit_limit_minor r)"

definition payable :: "db \<Rightarrow> pending_usage list \<Rightarrow> pending_usage \<Rightarrow> bool" where
  "payable d evs ev \<longleftrightarrow> billable d ev \<and> covered (pu_user_id ev) d evs"

definition settled :: "db \<Rightarrow> pending_usage \<Rightarrow> bool" where
  "settled d ev \<longleftrightarrow> list_ex (\<lambda>e. ue_id e = pu_id ev \<and> \<not> unrated e) (usage_events d)"

text \<open>What a step may do to the wallets: take at most an amount from one of them.\<close>

definition took :: "string \<Rightarrow> int \<Rightarrow> db \<Rightarrow> db \<Rightarrow> bool" where
  "took u a d d' \<longleftrightarrow> (\<forall>v r. find_wallet v d = Some r \<longrightarrow> (\<exists>r'. find_wallet v d' = Some r'
     \<and> wr_currency r' = wr_currency r \<and> wr_credit_limit_minor r' = wr_credit_limit_minor r
     \<and> wr_balance_minor r - (if v = u then a else 0) \<le> wr_balance_minor r'))"

lemma due_nonneg: "0 \<le> due d ev"
  by (simp add: due_def charge_minor_nonneg split: option.split)

lemma due_of_Cons: "due_of u d (ev # evs) = (if pu_user_id ev = u then due d ev else 0) + due_of u d evs"
  by (simp add: due_of_def)

lemma due_of_nonneg: "0 \<le> due_of u d evs"
  by (induction evs) (simp_all add: due_of_Cons due_nonneg, simp add: due_of_def)

lemma prices_frame:
  assumes "rate_card d' = rate_card d"
  shows "price_for d' = price_for d" and "due d' = due d" and "due_of u d' = due_of u d"
proof -
  show p: "price_for d' = price_for d" by (rule ext) (simp add: price_for_def current_price_rows_def assms)
  show "due d' = due d" by (rule ext) (simp add: due_def p)
  then show "due_of u d' = due_of u d" by (intro ext) (simp add: due_of_def)
qed

lemma took_refl: "0 \<le> a \<Longrightarrow> took u a d d"
  by (simp add: took_def)

lemma took_trans: "took u a d d1 \<Longrightarrow> took u 0 d1 d2 \<Longrightarrow> took u a d d2"
  unfolding took_def by (fastforce intro: order_trans)

lemma took_same: "wallets d' = wallets d \<Longrightarrow> took u 0 d d'"
  by (simp add: took_def find_wallet_def)

lemma set_blocked_took: "took u 0 d (snd (set_blocked v t d))"
proof -
  let ?g = "\<lambda>r. if wr_user_id r = v then r\<lparr>wr_rating_blocked_at := t\<rparr> else r"
  have "find (\<lambda>r. wr_user_id r = x) (map ?g rs) = map_option ?g (find (\<lambda>r. wr_user_id r = x) rs)" for x rs
    by (induction rs) auto
  then have "find_wallet x (snd (set_blocked v t d)) = map_option ?g (find_wallet x d)" for x
    by (simp add: set_blocked_def find_wallet_def lookup_row_def)
  then show ?thesis by (auto simp: took_def)
qed

lemma billable_took:
  assumes "took u a d d'" and "rate_card d' = rate_card d" and "billable d ev"
  shows "billable d' ev"
proof -
  from assms(3) obtain r where "find_wallet (pu_user_id ev) d = Some r" "wr_currency r = pu_currency ev"
      "in_i64 (wr_credit_limit_minor r)" "price_for d ev \<noteq> None"
    by (auto simp: billable_def split: option.splits)
  moreover from this(1) assms(1) obtain r' where "find_wallet (pu_user_id ev) d' = Some r'"
      "wr_currency r' = wr_currency r" "wr_credit_limit_minor r' = wr_credit_limit_minor r"
    unfolding took_def by blast
  ultimately show ?thesis by (simp add: billable_def prices_frame(1) [OF assms(2)])
qed

lemma covered_took:
  assumes t: "took (pu_user_id ev) (due d ev) d d'" and rc: "rate_card d' = rate_card d" and c: "covered u d (ev # evs)"
  shows "covered u d' evs"
proof -
  obtain r where r: "find_wallet u d = Some r" "in_i64 (wr_credit_limit_minor r)"
      "due_of u d (ev # evs) \<le> wr_balance_minor r + wr_credit_limit_minor r"
    using c by (auto simp: covered_def split: option.splits)
  with t obtain r' where "find_wallet u d' = Some r'" "wr_credit_limit_minor r' = wr_credit_limit_minor r"
      "wr_balance_minor r - (if u = pu_user_id ev then due d ev else 0) \<le> wr_balance_minor r'"
    unfolding took_def by blast
  with r(2,3) show ?thesis by (simp add: covered_def due_of_Cons prices_frame(3) [OF rc] split: if_splits)
qed

lemma covered_due: "covered (pu_user_id ev) d (ev # evs) \<Longrightarrow> find_wallet (pu_user_id ev) d = Some r \<Longrightarrow>
   due d ev \<le> wr_balance_minor r + wr_credit_limit_minor r"
  using due_of_nonneg [of "pu_user_id ev" d evs] by (simp add: covered_def due_of_Cons)

lemma took_more: "took u 0 d d' \<Longrightarrow> 0 \<le> a \<Longrightarrow> took u a d d'"
  unfolding took_def by (fastforce intro: order_trans)

section \<open>One event\<close>

text \<open>A charge succeeds, now or as a replay, or it leaves the database alone; it is refused for lack of
  funds, or at all in the wallet's currency, only when the wallet does not cover it.\<close>

lemma charge_once_cases:
  assumes wf: "ledger_wf (world_db w)" and a: "0 < a"
  obtains (charged) out w1 where "charge_once no_faults u c a k b w = (Inr out, w1)" "k \<in> ledger_keys (world_db w1)"
    "took u a (world_db w) (world_db w1)" "usage_events (world_db w1) = usage_events (world_db w)"
    "rate_card (world_db w1) = rate_card (world_db w)"
  | (refused) e w1 where "charge_once no_faults u c a k b w = (Inl e, w1)" "world_db w1 = world_db w"
    "\<And>r. find_wallet u (world_db w) = Some r \<Longrightarrow> wr_currency r = c \<or> e = InsufficientFunds u (- a) \<Longrightarrow>
       in_i64 (wr_credit_limit_minor r) \<Longrightarrow> wr_balance_minor r + wr_credit_limit_minor r < a"
    "(\<exists>x y. e = InsufficientFunds x y) \<longleftrightarrow> e = InsufficientFunds u (- a)"
proof -
  let ?d = "world_db w" and ?t = "charge_tx u c a k b"
  obtain res w1 where c: "charge_once no_faults u c a k b w = (res, w1)" by (cases "charge_once no_faults u c a k b w")
  note run = charge_once_run [OF wf a, of u c k b, unfolded c fst_conv snd_conv]
  show thesis
  proof (cases res)
    case (Inl e)
    with run(2) have d: "world_db w1 = ?d" by simp
    have out: "(\<exists>x y. e = InsufficientFunds x y) \<longleftrightarrow> e = InsufficientFunds u (- a)"
      using run(1) Inl by (auto split: if_splits option.splits)
    show thesis
    proof (rule refused [OF c [unfolded Inl] d _ out])
      fix r assume "find_wallet u ?d = Some r" "wr_currency r = c \<or> e = InsufficientFunds u (- a)" "in_i64 (wr_credit_limit_minor r)"
      then show "wr_balance_minor r + wr_credit_limit_minor r < a"
        using run(1) Inl by (auto simp: in_i64_def i64_min_def i64_max_def split: if_splits)
    qed
  next
    case (Inr out)
    show thesis
    proof (cases "out = Applied")
      case True
      with run(1) Inr obtain r where r: "find_wallet u ?d = Some r" by (auto split: if_splits option.splits)
      have d: "world_db w1 = posted ?t r ?d" using run(2) r Inr True by simp
      have "took u a ?d (posted ?t r ?d)"
        unfolding took_def using posted_find [OF wf, of ?t r] r by (auto simp: movement_tx_def moved_def)
      moreover have "k \<in> ledger_keys (posted ?t r ?d)" by (simp add: ledger_keys_def posted_def movement_tx_def)
      ultimately show thesis by (intro charged [OF c [unfolded Inr]]) (simp_all add: d posted_def)
    next
      case False
      then have "out = AlreadyApplied" by (cases out) simp_all
      then have "k \<in> ledger_keys ?d" "world_db w1 = ?d" using run Inr by (auto split: if_splits option.splits)
      then show thesis using a by (intro charged [OF c [unfolded Inr]]) (simp_all add: took_refl)
    qed
  qed
qed

lemma store_call_no_faults [simp]:
  "store_call no_faults f w = (map_sum metering_db_text id (fst (f (world_db w))), ((snd (f (world_db w)), world_env w), Suc (snd w)))"
  by (simp add: store_call_def split: sum.split)

definition rates :: "db \<Rightarrow> db \<Rightarrow> pending_usage \<Rightarrow> bool" where
  "rates d d' ev \<longleftrightarrow> settled d' ev \<and> (\<forall>x. settled d x \<longrightarrow> settled d' x) \<and> rate_card d' = rate_card d"

lemma mark_event_rates:
  assumes "pending_ok d ev" and "\<And>x. tx = Some x \<Longrightarrow> x \<in> wt_id ` set (wallet_transactions d)"
  shows "fst (mark_event (pu_id ev) v tx now d) = Inr ()" and "rates d (snd (mark_event (pu_id ev) v tx now d)) ev"
    and "wallets (snd (mark_event (pu_id ev) v tx now d)) = wallets d"
proof -
  have no: "\<not> (case tx of None \<Rightarrow> False | Some x \<Rightarrow> x \<notin> wt_id ` set (wallet_transactions d))"
    using assms(2) by (auto split: option.splits)
  then show "fst (mark_event (pu_id ev) v tx now d) = Inr ()" "wallets (snd (mark_event (pu_id ev) v tx now d)) = wallets d"
    by (simp_all add: mark_event_def Let_def)
  let ?f = "\<lambda>e. if ue_id e = pu_id ev \<and> unrated e then e\<lparr>ue_rated_at := Some now, ue_rate_card_version := Some v,
      ue_transaction_id := (case tx of None \<Rightarrow> ue_transaction_id e | Some x \<Rightarrow> Some x)\<rparr> else e"
  have eq: "snd (mark_event (pu_id ev) v tx now d) = d\<lparr>usage_events := map ?f (usage_events d)\<rparr>"
    using no by (simp add: mark_event_def Let_def)
  have f: "ue_id (?f e) = ue_id e" "\<not> unrated e \<Longrightarrow> ?f e = e" "ue_id e = pu_id ev \<Longrightarrow> \<not> unrated (?f e)" for e
    by (auto simp: unrated_def)
  have hit: "settled (d\<lparr>usage_events := map ?f (usage_events d)\<rparr>) x"
    if "e \<in> set (usage_events d)" "ue_id e = pu_id x" "\<not> unrated (?f e)" for e x
    unfolding settled_def list_ex_iff by (rule bexI [of _ "?f e"]) (use that f(1) in auto)
  from assms(1) obtain e where "e \<in> set (usage_events d)" "ue_id e = pu_id ev" by (auto simp: pending_ok_def)
  then have "settled (d\<lparr>usage_events := map ?f (usage_events d)\<rparr>) ev" by (rule hit) (rule f(3), fact)
  moreover have "settled (d\<lparr>usage_events := map ?f (usage_events d)\<rparr>) x" if "settled d x" for x
  proof -
    from that obtain e where "e \<in> set (usage_events d)" "ue_id e = pu_id x" "\<not> unrated e" by (auto simp: settled_def list_ex_iff)
    then show ?thesis using hit [of e x] f(2) [of e] by simp
  qed
  ultimately show "rates d (snd (mark_event (pu_id ev) v tx now d)) ev" unfolding rates_def eq by simp
qed

lemma transaction_id_known:
  "k \<in> ledger_keys d \<Longrightarrow> \<exists>x. transaction_id_row k d = Some x \<and> x \<in> wt_id ` set (wallet_transactions d)"
proof -
  assume "k \<in> ledger_keys d"
  then obtain t where t: "lookup_row wt_idempotency_key k (wallet_transactions d) = Some t"
    by (cases "lookup_row wt_idempotency_key k (wallet_transactions d)") (auto simp: lookup_row_None ledger_keys_def)
  then show ?thesis using lookup_row_Some_set [OF t] by (auto simp: transaction_id_row_def)
qed

text \<open>What a settled event leaves in the report and the rater's memory.\<close>

definition counted :: "nat \<Rightarrow> rater \<Rightarrow> rater \<Rightarrow> bool" where
  "counted n ra ra' \<longleftrightarrow> ra_stalled ra' = ra_stalled ra \<and> rp_rated (ra_report ra') = rp_rated (ra_report ra) + n
     \<and> rp_unpriceable (ra_report ra') = rp_unpriceable (ra_report ra) \<and> rp_deferred (ra_report ra') = rp_deferred (ra_report ra)
     \<and> rp_insufficient_funds (ra_report ra') = rp_insufficient_funds (ra_report ra)"

lemma settle_found:
  assumes "pending_ok (world_db w) ev" and "x \<in> wt_id ` set (wallet_transactions (world_db w))"
  obtains ra' w' where "settle no_faults now ev version (Some x) ra w = (ra', w')" "counted 1 ra ra'" "ra_cards ra' = ra_cards ra"
    "rates (world_db w) (world_db w') ev" "took u 0 (world_db w) (world_db w')"
proof -
  let ?d = "world_db w" and ?d1 = "snd (mark_event (pu_id ev) version (Some x) now (world_db w))"
  have m: "fst (mark_event (pu_id ev) version (Some x) now ?d) = Inr ()" "rates ?d ?d1 ev" "took u 0 ?d ?d1"
    using mark_event_rates [OF assms(1), of "Some x" version now] assms(2) by (simp_all add: took_same)
  let ?d2 = "snd (set_blocked (pu_user_id ev) None ?d1)"
  have "rates ?d ?d2 ev" using m(2) by (simp add: rates_def settled_def set_blocked_def)
  moreover have "took u 0 ?d ?d2" by (rule took_trans [OF m(3) set_blocked_took])
  moreover have "fst (set_blocked (pu_user_id ev) None ?d1) = Inr ()" by (simp add: set_blocked_def)
  ultimately have d2: "rates ?d ?d2 ev" "took u 0 ?d ?d2" "fst (set_blocked (pu_user_id ev) None ?d1) = Inr ()" by simp_all
  let ?w1 = "((?d1, world_env w), Suc (snd w))" and ?w2 = "((?d2, world_env w), Suc (Suc (snd w)))"
  let ?ra = "on_report (\<lambda>r. r\<lparr>rp_rated := rp_rated r + 1\<rparr>) ra"
  show ?thesis
  proof (cases "pu_user_id ev \<in> set (ra_unblocked ra)")
    case True
    with m(1) have "settle no_faults now ev version (Some x) ra w = (?ra, ?w1)" by (simp add: settle_def mark_rated_def)
    then show ?thesis by (rule that) (simp_all add: counted_def m)
  next
    case False
    with m(1) d2(3) have "settle no_faults now ev version (Some x) ra w = (?ra\<lparr>ra_unblocked := pu_user_id ev # ra_unblocked ra\<rparr>, ?w2)"
      by (simp add: settle_def mark_rated_def unblock_rating_def Let_def)
    then show ?thesis by (rule that) (simp_all add: counted_def d2)
  qed
qed

lemma block_wallet_no_faults [simp]:
  "block_wallet no_faults u now ra w = (ra, ((snd (set_blocked u (Some now) (world_db w)), world_env w), Suc (snd w)))"
  by (simp add: block_wallet_def block_rating_def set_blocked_def)

text \<open>What an event that is not rated leaves: it is counted once, as unpriceable, as deferred or as short of
  funds, and no wallet pays anything.\<close>

definition tally :: "rating_report \<Rightarrow> nat" where
  "tally r = rp_rated r + length (rp_unpriceable r) + rp_deferred r + length (rp_insufficient_funds r)"

definition missed :: "rater \<Rightarrow> rater \<Rightarrow> bool" where
  "missed ra ra' \<longleftrightarrow> tally (ra_report ra') = Suc (tally (ra_report ra)) \<and> rp_rated (ra_report ra') = rp_rated (ra_report ra)
     \<and> set (rp_unpriceable (ra_report ra)) \<subseteq> set (rp_unpriceable (ra_report ra'))"

definition unpaid :: "db \<Rightarrow> db \<Rightarrow> bool" where
  "unpaid d d' \<longleftrightarrow> rate_card d' = rate_card d \<and> usage_events d' = usage_events d \<and> (\<forall>u. took u 0 d d')"

lemma unpaid_refl: "unpaid d d"
  by (simp add: unpaid_def took_refl)

lemma unpaid_blocked: "unpaid d (snd (set_blocked u t d))"
  using set_blocked_took by (simp add: unpaid_def set_blocked_def)

lemma settle_charged:
  assumes ev: "pending_ok (world_db w) ev" and k: "charge_idempotency_key (pu_idempotency_key ev) \<in> ledger_keys (world_db w1)"
    and t: "took (pu_user_id ev) a (world_db w) (world_db w1)" and u: "usage_events (world_db w1) = usage_events (world_db w)"
    and rc: "rate_card (world_db w1) = rate_card (world_db w)"
    and c: "charge_once no_faults (pu_user_id ev) (pu_currency ev) a (charge_idempotency_key (pu_idempotency_key ev))
      (Some (pu_broadcast_id ev)) w = (Inr out, w1)"
  obtains ra' w' where "charge_event no_faults now ev version a ra w = (Inr ra', w')" "counted 1 ra ra'" "ra_cards ra' = ra_cards ra"
    "rates (world_db w) (world_db w') ev" "took (pu_user_id ev) a (world_db w) (world_db w')"
proof -
  let ?k = "charge_idempotency_key (pu_idempotency_key ev)"
  obtain x where x: "transaction_id_row ?k (world_db w1) = Some x" "x \<in> wt_id ` set (wallet_transactions (world_db w1))"
    using transaction_id_known [OF k] by blast
  let ?w2 = "(fst w1, Suc (snd w1))"
  let ?ra = "case out of Applied \<Rightarrow> on_report (\<lambda>r. r\<lparr>rp_charged_minor := wrap_i64 (rp_charged_minor r + a)\<rparr>) ra
              | AlreadyApplied \<Rightarrow> on_report (\<lambda>r. r\<lparr>rp_recovered := rp_recovered r + 1\<rparr>) ra"
  have "pending_ok (world_db ?w2) ev" using ev u by (simp add: pending_ok_def)
  then obtain ra' w' where s: "settle no_faults now ev version (Some x) ?ra ?w2 = (ra', w')" "counted 1 ?ra ra'"
      "ra_cards ra' = ra_cards ?ra" "rates (world_db ?w2) (world_db w') ev" "took (pu_user_id ev) 0 (world_db ?w2) (world_db w')"
    by (rule settle_found [of ?w2 ev x now version ?ra "pu_user_id ev"]) (simp add: x(2))
  have same: "counted 1 ra ra'" "ra_cards ra' = ra_cards ra" using s(2,3) by (cases out; simp add: counted_def)+
  have "transaction_id_for_key no_faults ?k w1 = (Inr (Some x), ?w2)"
    by (simp add: transaction_id_for_key_def reads_def x(1))
  then have "charge_event no_faults now ev version a ra w = (Inr ra', w')"
    by (simp add: charge_event_def Let_def c s(1))
  then show ?thesis
  proof (rule that [OF _ same])
    show "rates (world_db w) (world_db w') ev" using s(4) u rc by (simp add: rates_def settled_def)
    show "took (pu_user_id ev) a (world_db w) (world_db w')" using took_trans [OF t] s(5) by simp
  qed
qed

lemma charge_event_cases:
  assumes wf: "ledger_wf (world_db w)" and ev: "pending_ok (world_db w) ev" and a: "0 < a"
  obtains (rated) ra' w' where "charge_event no_faults now ev version a ra w = (Inr ra', w')" "counted 1 ra ra'"
    "ra_cards ra' = ra_cards ra" "rates (world_db w) (world_db w') ev" "took (pu_user_id ev) a (world_db w) (world_db w')"
  | (passed) ra' w' where "charge_event no_faults now ev version a ra w = (Inr ra', w')" "missed ra ra'"
    "ra_cards ra' = ra_cards ra" "unpaid (world_db w) (world_db w')"
    "\<And>r. find_wallet (pu_user_id ev) (world_db w) = Some r \<Longrightarrow> wr_currency r = pu_currency ev \<or> ra_stalled ra' \<noteq> ra_stalled ra \<Longrightarrow>
       in_i64 (wr_credit_limit_minor r) \<Longrightarrow> wr_balance_minor r + wr_credit_limit_minor r < a"
    "ra_stalled ra' = ra_stalled ra \<or> ra_stalled ra' = pu_user_id ev # ra_stalled ra"
using wf a
proof (cases rule: charge_once_cases [where u = "pu_user_id ev" and c = "pu_currency ev"
      and k = "charge_idempotency_key (pu_idempotency_key ev)" and b = "Some (pu_broadcast_id ev)"])
  case (charged out w1)
  obtain ra' w' where s: "charge_event no_faults now ev version a ra w = (Inr ra', w')" "counted 1 ra ra'" "ra_cards ra' = ra_cards ra"
    "rates (world_db w) (world_db w') ev" "took (pu_user_id ev) a (world_db w) (world_db w')"
    by (rule settle_charged [OF ev charged(2-5,1), of now version ra])
  show thesis by (rule rated [OF s])
next
  case (refused e w1)
  show thesis
  proof (cases "e = InsufficientFunds (pu_user_id ev) (- a)")
    case True
    let ?ra = "(on_report (\<lambda>r. r\<lparr>rp_insufficient_funds := rp_insufficient_funds r @ [pu_broadcast_id ev]\<rparr>) ra)
      \<lparr>ra_stalled := pu_user_id ev # ra_stalled ra\<rparr>"
    let ?w = "((snd (set_blocked (pu_user_id ev) (Some now) (world_db w1)), world_env w1), Suc (snd w1))"
    have "charge_event no_faults now ev version a ra w = (Inr ?ra, ?w)"
      by (simp add: charge_event_def Let_def refused(1) True)
    then show thesis
      by (rule passed) (use True refused(2,3) unpaid_blocked in \<open>auto simp: missed_def tally_def\<close>)
  next
    case False
    then have "charge_event no_faults now ev version a ra w
        = (Inr (on_report (unpriceable (pu_idempotency_key ev) (wallet_error_text e)) ra), w1)"
      using refused(4) by (cases e) (auto simp: charge_event_def Let_def refused(1))
    then show thesis
      by (rule passed) (use refused(2,3) unpaid_refl in \<open>auto simp: missed_def tally_def unpriceable_def\<close>)
  qed
qed

text \<open>The cards read so far in the pass are still current.\<close>

definition cards_now :: "db \<Rightarrow> rater \<Rightarrow> bool" where
  "cards_now d ra \<longleftrightarrow> (\<forall>c x. map_of (ra_cards ra) c = Some x \<longrightarrow> x = current_price_rows c d)"

lemma card_for_now:
  assumes "cards_now (world_db w) ra"
  obtains ra1 w1 where "card_for no_faults c ra w = (Inr (current_price_rows c (world_db w), ra1), w1)" "fst w1 = fst w"
    "counted 0 ra ra1" "cards_now (world_db w) ra1"
proof (cases "map_of (ra_cards ra) c")
  case None
  let ?ra = "ra\<lparr>ra_cards := (c, current_price_rows c (world_db w)) # ra_cards ra\<rparr>"
  have "card_for no_faults c ra w = (Inr (current_price_rows c (world_db w), ?ra), (fst w, Suc (snd w)))"
    by (simp add: card_for_def None current_prices_def reads_def)
  then show ?thesis by (rule that) (use assms in \<open>simp_all add: counted_def cards_now_def\<close>)
next
  case (Some x)
  with assms have "x = current_price_rows c (world_db w)" by (simp add: cards_now_def)
  then have "card_for no_faults c ra w = (Inr (current_price_rows c (world_db w), ra), w)" by (simp add: card_for_def Some)
  then show ?thesis by (rule that) (use assms in \<open>simp_all add: counted_def\<close>)
qed

text \<open>Every way an event can go when the database works.\<close>

lemma rate_event_cases:
  assumes wf: "ledger_wf (world_db w)" and ev: "pending_ok (world_db w) ev" and cards: "cards_now (world_db w) ra"
  obtains (rated) ra' w' where "rate_event no_faults now ev ra w = (Inr ra', w')" "counted 1 ra ra'" "cards_now (world_db w') ra'"
    "rates (world_db w) (world_db w') ev" "took (pu_user_id ev) (due (world_db w) ev) (world_db w) (world_db w')"
    "price_for (world_db w) ev \<noteq> None"
  | (passed) ra' w' where "rate_event no_faults now ev ra w = (Inr ra', w')" "missed ra ra'" "cards_now (world_db w') ra'"
    "unpaid (world_db w) (world_db w')" "\<not> payable (world_db w) (ev # evs) ev \<or> pu_user_id ev \<in> set (ra_stalled ra)"
    "ra_stalled ra' = ra_stalled ra \<or> (ra_stalled ra' = pu_user_id ev # ra_stalled ra \<and> \<not> covered (pu_user_id ev) (world_db w) (ev # evs))"
    "price_for (world_db w) ev = None \<Longrightarrow> pu_user_id ev \<notin> set (ra_stalled ra) \<Longrightarrow>
       pu_idempotency_key ev \<in> fst ` set (rp_unpriceable (ra_report ra'))"
proof (cases "pu_user_id ev \<in> set (ra_stalled ra)")
  case True
  then show thesis
    by (intro passed [OF rate_event_stalled [OF True]]) (use cards unpaid_refl in \<open>auto simp: missed_def tally_def cards_now_def\<close>)
next
  case ns: False
  let ?d = "world_db w"
  obtain ra1 w1 where c: "card_for no_faults (pu_currency ev) ra w = (Inr (current_price_rows (pu_currency ev) ?d, ra1), w1)"
      "fst w1 = fst w" "counted 0 ra ra1" "cards_now ?d ra1"
    by (rule card_for_now [OF cards])
  have frame: "cards_now d' ra'" if "rate_card d' = rate_card ?d" "ra_cards ra' = ra_cards ra1" for d' ra'
    using c(4) that by (simp add: cards_now_def current_price_rows_def)
  show thesis
  proof (cases "price_for ?d ev")
    case None
    let ?w = "((snd (set_blocked (pu_user_id ev) (Some now) ?d), world_env w), Suc (snd w1))"
    obtain why where why: "rate_event no_faults now ev ra w = (Inr (on_report (unpriceable (pu_idempotency_key ev) why) ra1), ?w)"
      using None c(1,2) ns by (cases "current_price_rows (pu_currency ev) ?d") (auto simp: rate_event_def price_for_def)
    show thesis
      by (rule passed [OF why]) (use None c(3) frame unpaid_blocked [of ?d] in
        \<open>auto simp: missed_def tally_def counted_def unpriceable_def payable_def billable_def unpaid_def\<close>)
  next
    case (Some price)
    then obtain version prices where p: "current_price_rows (pu_currency ev) ?d = Some (version, prices)"
        "map_of prices (pu_unit ev) = Some price"
      by (auto simp: price_for_def split: option.splits)
    have due: "due ?d ev = charge_minor (pu_quantity_milli ev) price" by (simp add: due_def Some)
    show thesis
    proof (cases "due ?d ev = 0")
      case True
      let ?d1 = "snd (mark_event (pu_id ev) version None now ?d)"
      have m: "fst (mark_event (pu_id ev) version None now ?d) = Inr ()" "rates ?d ?d1 ev" "wallets ?d1 = wallets ?d"
        using mark_event_rates [OF ev, of None version now] by simp_all
      have "mark_zero_rated no_faults ev version now w1 = (Inr (), ((?d1, world_env w), Suc (snd w1)))"
        by (simp add: mark_zero_rated_def mark_rated_without_charge_def c(2) m(1))
      then have e: "rate_event no_faults now ev ra w = (Inr (on_report (\<lambda>r. r\<lparr>rp_rated := rp_rated r + 1\<rparr>) ra1), ((?d1, world_env w), Suc (snd w1)))"
        using rate_event_zero [OF ns c(1) [unfolded p(1)] p(2), of now] True by (simp add: due)
      show thesis by (rule rated [OF e]) (use m c(3) True Some in \<open>auto simp: counted_def took_same rates_def intro: frame\<close>)
    next
      case False
      then have a: "0 < due ?d ev" using due_nonneg [of ?d ev] by simp
      have w1: "world_db w1 = ?d" using c(2) by simp
      have e: "rate_event no_faults now ev ra w = charge_event no_faults now ev version (due ?d ev) ra1 w1"
        using rate_event_charge [OF ns c(1) [unfolded p(1)] p(2), of now] False by (simp add: due)
      from wf ev have wf1: "ledger_wf (world_db w1)" "pending_ok (world_db w1) ev" by (simp_all add: w1)
      from wf1 a show thesis
      proof (cases rule: charge_event_cases [where now = now and version = version and ra = ra1])
        case (rated ra' w')
        then show thesis by (intro that(1) [of ra' w']) (use e c(3) w1 Some in \<open>auto simp: counted_def rates_def intro: frame\<close>)
      next
        case (passed ra' w')
        have st: "ra_stalled ra1 = ra_stalled ra" using c(3) by (simp add: counted_def)
        have "\<not> covered (pu_user_id ev) ?d (ev # evs)"
          if "ra_stalled ra' \<noteq> ra_stalled ra1 \<or> billable ?d ev"
        proof
          assume cov: "covered (pu_user_id ev) ?d (ev # evs)"
          then obtain r where r: "find_wallet (pu_user_id ev) ?d = Some r" "in_i64 (wr_credit_limit_minor r)"
            by (auto simp: covered_def split: option.splits)
          then have "wr_currency r = pu_currency ev \<or> ra_stalled ra' \<noteq> ra_stalled ra1" using that by (auto simp: billable_def)
          with passed(5) r covered_due [OF cov r(1)] show False by (simp add: w1)
        qed
        then show thesis using passed c(3) w1
          by (intro that(2) [of ra' w'])
            (auto simp: e st Some payable_def missed_def tally_def counted_def unpaid_def intro: frame)
      qed
    qed
  qed
qed

section \<open>The whole batch\<close>

text \<open>What a run over a list of events does for a set of payers: every event is counted once, those that can
  be billed to one of the payers are rated, and those without a price are reported.\<close>

definition progress :: "string set \<Rightarrow> pending_usage list \<Rightarrow> db \<Rightarrow> rater \<Rightarrow> db \<Rightarrow> rater \<Rightarrow> bool" where
  "progress G es d ra d' ra' \<longleftrightarrow> tally (ra_report ra') = tally (ra_report ra) + length es
     \<and> rp_rated (ra_report ra) + length (filter (\<lambda>ev. billable d ev \<and> pu_user_id ev \<in> G) es) \<le> rp_rated (ra_report ra')
     \<and> (\<forall>ev\<in>set es. billable d ev \<and> pu_user_id ev \<in> G \<longrightarrow> settled d' ev)
     \<and> (\<forall>ev\<in>set es. price_for d ev = None \<and> pu_user_id ev \<in> G \<longrightarrow> pu_idempotency_key ev \<in> fst ` set (rp_unpriceable (ra_report ra')))
     \<and> set (rp_unpriceable (ra_report ra)) \<subseteq> set (rp_unpriceable (ra_report ra'))
     \<and> (\<forall>x. settled d x \<longrightarrow> settled d' x)"

lemma length_filter_mono: "(\<And>x. x \<in> set xs \<Longrightarrow> P x \<Longrightarrow> Q x) \<Longrightarrow> length (filter P xs) \<le> length (filter Q xs)"
  by (induction xs) (auto simp: le_SucI)

lemma progress_Cons:
  assumes one: "progress G [ev] d ra d1 ra1" and rest: "progress G es d1 ra1 d' ra'"
    and t: "took u a d d1" and rc: "rate_card d1 = rate_card d"
  shows "progress G (ev # es) d ra d' ra'"
proof -
  let ?B = "\<lambda>d ev. billable d ev \<and> pu_user_id ev \<in> G"
  have "length (filter (?B d) es) \<le> length (filter (?B d1) es)"
    by (rule length_filter_mono) (use billable_took [OF t rc] in blast)
  then have "rp_rated (ra_report ra) + length (filter (?B d) (ev # es)) \<le> rp_rated (ra_report ra')"
    using one rest by (auto simp: progress_def split: if_splits)
  moreover have "settled d' x" if "x \<in> set (ev # es)" "?B d x" for x
    using that one rest billable_took [OF t rc] unfolding progress_def by (cases "x = ev") auto
  moreover have "pu_idempotency_key x \<in> fst ` set (rp_unpriceable (ra_report ra'))"
    if "x \<in> set (ev # es)" "price_for d x = None" "pu_user_id x \<in> G" for x
    using that one rest prices_frame(1) [OF rc] unfolding progress_def by (cases "x = ev") (auto dest!: image_mono [of _ _ fst])
  moreover have "set (rp_unpriceable (ra_report ra)) \<subseteq> set (rp_unpriceable (ra_report ra'))" "\<forall>x. settled d x \<longrightarrow> settled d' x"
    "tally (ra_report ra') = tally (ra_report ra) + length (ev # es)"
    using one rest unfolding progress_def by auto
  ultimately show ?thesis unfolding progress_def by blast
qed

text \<open>One event, for payers who are not stalled and whose wallets cover what is still to come.\<close>

lemma rate_event_progress:
  assumes wf: "ledger_wf (world_db w)" and ev: "pending_ok (world_db w) ev" and cards: "cards_now (world_db w) ra"
    and G: "\<forall>u\<in>G. covered u (world_db w) (ev # es) \<and> u \<notin> set (ra_stalled ra)"
  obtains ra' w' where "rate_event no_faults now ev ra w = (Inr ra', w')" "progress G [ev] (world_db w) ra (world_db w') ra'"
    "cards_now (world_db w') ra'" "took (pu_user_id ev) (due (world_db w) ev) (world_db w) (world_db w')"
    "rate_card (world_db w') = rate_card (world_db w)" "\<forall>u\<in>G. covered u (world_db w') es \<and> u \<notin> set (ra_stalled ra')"
using wf ev cards
proof (cases rule: rate_event_cases [where now = now and evs = es])
  case (rated ra' w')
  have rc: "rate_card (world_db w') = rate_card (world_db w)" using rated(4) by (simp add: rates_def)
  show thesis
    by (rule that [OF rated(1) _ rated(3,5) rc])
      (use rated(2,4,6) G covered_took [OF rated(5) rc] in
        \<open>auto simp: progress_def counted_def tally_def rates_def billable_def\<close>)
next
  case (passed ra' w')
  have rc: "rate_card (world_db w') = rate_card (world_db w)" using passed(4) by (simp add: unpaid_def)
  have t: "took (pu_user_id ev) (due (world_db w) ev) (world_db w) (world_db w')"
    using passed(4) by (simp add: unpaid_def took_more due_nonneg)
  have "\<not> billable (world_db w) ev \<or> pu_user_id ev \<notin> G" using passed(5) G by (auto simp: payable_def)
  moreover have "set (ra_stalled ra') \<inter> G \<subseteq> set (ra_stalled ra)" using passed(6) G by auto
  ultimately show thesis
    by (intro that [OF passed(1) _ passed(3) t rc])
      (use passed(2,4,7) G covered_took [OF t rc] in \<open>auto simp: progress_def missed_def unpaid_def settled_def\<close>)
qed

lemma rate_events_progress:
  assumes "pass_inv evs rc (world_db w)" and "set es \<subseteq> evs" and "cards_now (world_db w) ra"
    and "\<forall>u\<in>G. covered u (world_db w) es \<and> u \<notin> set (ra_stalled ra)"
  shows "\<exists>ra' w'. rate_events no_faults now es ra w = (Inr ra', w') \<and> progress G es (world_db w) ra (world_db w') ra'"
  using assms
proof (induction es arbitrary: ra w)
  case Nil
  show ?case by (intro exI [of _ ra] exI [of _ w]) (simp add: progress_def)
next
  case (Cons ev es)
  let ?d = "world_db w"
  have p: "ledger_wf ?d" "pending_ok ?d ev" using Cons.prems(1,2) by (auto simp: pass_inv_def rating_wf_def)
  obtain ra1 w1 where e: "rate_event no_faults now ev ra w = (Inr ra1, w1)" "progress G [ev] ?d ra (world_db w1) ra1"
      "cards_now (world_db w1) ra1" "took (pu_user_id ev) (due ?d ev) ?d (world_db w1)"
      "rate_card (world_db w1) = rate_card ?d" "\<forall>u\<in>G. covered u (world_db w1) es \<and> u \<notin> set (ra_stalled ra1)"
    by (rule rate_event_progress [OF p Cons.prems(3,4), of now])
  have ok: "cards_ok rc ra" using Cons.prems(1,3) current_prices_priced by (fastforce simp: cards_ok_def cards_now_def pass_inv_def)
  have "event_ok evs rc (rate_event no_faults now ev ra w)"
    by (rule rate_event_inv [OF Cons.prems(1) _ ok]) (use Cons.prems(2) in simp)
  then have "pass_inv evs rc (world_db w1)" by (simp add: e(1) event_ok_def)
  then obtain ra' w' where r: "rate_events no_faults now es ra1 w1 = (Inr ra', w')" "progress G es (world_db w1) ra1 (world_db w') ra'"
    using Cons.IH [OF _ _ e(3,6)] Cons.prems(2) by auto
  then show ?case using e(1) progress_Cons [OF e(2) r(2) e(4,5)] by auto
qed

definition batch_of :: "int \<Rightarrow> db \<Rightarrow> pending_usage list" where
  "batch_of n d = map (\<lambda>(e, r). pending_of e r) (take (nat n) (rating_queue d))"

section \<open>Properties\<close>

text \<open>C8: A rating pass makes progress, whatever is in its batch and whatever an earlier pass left half done.
  With a working database it succeeds and counts every event of the batch exactly once, as rated,
  unpriceable, deferred or short of funds. Every event with a price, in the currency of its payer's wallet,
  is rated afterwards if that wallet covers what the priced events of that payer in the batch cost together,
  and the report counts at least those as rated: neither an event without a price nor another payer's empty
  wallet stands in the way. Events without a price of payers whose wallets cover the rest are
  reported by their keys.\<close>

theorem rate_pending_settles:
  assumes wf: "rating_wf d" and "0 \<le> n"
  shows "\<exists>report w'. rate_pending no_faults n now ((d, x), k) = (Inr report, w')
     \<and> (\<forall>ev\<in>set (batch_of n d). payable d (batch_of n d) ev \<longrightarrow> settled (world_db w') ev)
     \<and> length (filter (payable d (batch_of n d)) (batch_of n d)) \<le> rp_rated report
     \<and> rp_rated report + length (rp_unpriceable report) + rp_deferred report + length (rp_insufficient_funds report) = length (batch_of n d)
     \<and> (\<forall>ev\<in>set (batch_of n d). price_for d ev = None \<and> covered (pu_user_id ev) d (batch_of n d) \<longrightarrow>
          pu_idempotency_key ev \<in> fst ` set (rp_unpriceable report))"
proof -
  let ?us = "without_wallet_rows d" and ?b = "batch_of n d"
  let ?ra = "\<lparr>ra_cards = [], ra_stalled = [], ra_unblocked = [], ra_report = empty_rating ?us\<rparr>"
  let ?w = "((d, x), Suc (Suc k))" and ?G = "{u. covered u d (batch_of n d)}"
  have ok: "pass_inv (set ?b) (rate_card d) (world_db ?w)"
    using queue_pending_ok [OF wf] wf by (auto simp: pass_inv_def batch_of_def)
  obtain ra' w' where r: "rate_events no_faults now ?b ?ra ?w = (Inr ra', w')" "progress ?G ?b d ?ra (world_db w') ra'"
    using rate_events_progress [OF ok, of ?b ?ra ?G now] by (auto simp: cards_now_def)
  have "rate_pending no_faults n now ((d, x), k) = (Inr (ra_report ra'), w')"
    using r(1) assms(2)
    by (simp add: rate_pending_def unrated_without_wallet_def unrated_events_def unrated_events_stmt_def reads_def batch_of_def)
  moreover have "payable d ?b = (\<lambda>ev. billable d ev \<and> pu_user_id ev \<in> ?G)" by (rule ext) (simp add: payable_def)
  ultimately show ?thesis using r(2) by (simp add: progress_def tally_def empty_rating_def)
qed

text \<open>A day with three broadcasters, before its first pass: one with money, one without, and one whose
  wallet is in a currency without a rate card.\<close>

definition mixed_world :: "(string + switch_egress) list dbenv" where
  "mixed_world = ((empty_db\<lparr>streams := map (\<lambda>(s, u). \<lparr>st_id = s, st_host_user_id = u, st_status = ''live'', st_started_at = 0\<rparr>)
       [(''a'', ''x''), (''b'', ''v''), (''c'', ''u'')]\<rparr>,
     [reading ''e'' [(''stream-b'', mb 1), (''stream-c'', mb 1), (''stream-a'', mb 1)],
      reading ''e'' [(''stream-b'', mb 4001), (''stream-c'', mb 4001), (''stream-a'', mb 4001)]]), 0)"

definition mixed_day :: "(string + switch_egress) list billing_op list" where
  "mixed_day = [Wallet_Op (CreateWallet ''u'' ''eur'' 0), Wallet_Op (CreateWallet ''v'' ''eur'' 0),
     Wallet_Op (CreateWallet ''x'' ''usd'' 0), Wallet_Op (Deposit ''u'' ''eur'' 1000 ''k''),
     Publish \<lparr>rr_version = 1, rr_currency = ''eur'', rr_unit = ''egress_gb'', rr_price_minor = 100\<rparr>,
     Sweep [scripted ''n''] 1, Sweep [scripted ''n''] 2]"

definition unrated_day :: db where
  "unrated_day = world_db (fold (run_billing no_faults) mixed_day mixed_world)"

lemma unrated_day_wf: "rating_wf unrated_day"
  unfolding unrated_day_def
  by (rule books.allowed_run_keeps)
    (code_simp, simp add: mixed_world_def rating_wf_def ledger_wf_def empty_db_def)

theorem rate_pending_settles_witness:
  "\<exists>report w'. rate_pending no_faults 10 7 ((unrated_day, ()), 0) = (Inr report, w')
     \<and> map pu_user_id (batch_of 10 unrated_day) = [''x'', ''v'', ''u'']
     \<and> settled (world_db w') (batch_of 10 unrated_day ! 2) \<and> 1 \<le> rp_rated report
     \<and> rp_rated report + length (rp_unpriceable report) + rp_deferred report + length (rp_insufficient_funds report) = 3
     \<and> pu_idempotency_key (batch_of 10 unrated_day ! 0) \<in> fst ` set (rp_unpriceable report)"
proof -
  define b where "b = batch_of 10 unrated_day"
  have u: "map pu_user_id b = [''x'', ''v'', ''u'']" unfolding b_def by code_simp
  have "length (map pu_user_id b) = 3" unfolding u by simp
  then have l: "length b = 3" by simp
  then have i: "b ! 0 \<in> set b" "b ! 2 \<in> set b" by simp_all
  have p: "payable unrated_day b (b ! 2)" "price_for unrated_day (b ! 0) = None" "covered (pu_user_id (b ! 0)) unrated_day b"
      "length (filter (payable unrated_day b) b) = 1" unfolding b_def by code_simp+
  have "(0 :: int) \<le> 10" by simp
  from rate_pending_settles [OF unrated_day_wf this, of 7 "()" 0] l i p u show ?thesis unfolding b_def [symmetric] by auto
qed

end
