(* ===== verification/Fleet_Quotes.thy ===== *)
theory Fleet_Quotes
  imports Runner Rating
begin

text \<open>
  The two billing sources that read the wallet: the planner's quote
  (\<^verbatim>\<open>crates/mm-fleet/src/wallet_billing.rs\<close>) and the ladder's (\<^verbatim>\<open>ladder_billing.rs\<close>). Arithmetic
  on \<^verbatim>\<open>i64\<close> wraps where the code multiplies and adds plainly and saturates where it says so;
  \<^verbatim>\<open>SUM(...)::BIGINT\<close> outside the range is a statement error.

  Shown: both are billing sources in the runner's sense, that is, they only read; a projection
  covers what the run will be invoiced for and exceeds it by less than a period for each node; a
  quote never authorises an empty wallet; a tick of the runner on the wallet's quotes orders no node whose
  broadcast is not funded for its whole projection; the ladder charges a broadcast for what it runs and
  owes, with every unit in use priced; and which node ids the pattern of both queries matches.
\<close>

section \<open>Rate card\<close>

definition em_dash :: string where
  "em_dash = [CHR 0xE2, CHR 0x80, CHR 0x94]"

record price_card =
  pc_version :: int
  pc_node_minute_minor :: int
  pc_gpu_minute_minor :: int
  pc_egress_gb_minor :: int

definition card_rows :: "string \<Rightarrow> db \<Rightarrow> rate_row list" where
  "card_rows c d =
     (let rows = filter (\<lambda>r. rr_currency r = c) (rate_card d) in
      filter (\<lambda>r. rr_version r = Max (set (map rr_version rows))) rows)"

definition set_price :: "rate_row \<Rightarrow> price_card \<Rightarrow> price_card" where
  "set_price r crd =
     (if rr_unit r = ''node_minute'' then crd\<lparr>pc_node_minute_minor := rr_price_minor r\<rparr>
      else if rr_unit r = ''gpu_minute'' then crd\<lparr>pc_gpu_minute_minor := rr_price_minor r\<rparr>
      else if rr_unit r = ''egress_gb'' then crd\<lparr>pc_egress_gb_minor := rr_price_minor r\<rparr>
      else crd)"

definition read_rate_card :: "schedule \<Rightarrow> string \<Rightarrow> 'x dbenv \<Rightarrow> (string + price_card) \<times> 'x dbenv" where
  "read_rate_card \<phi> c w =
     (case sql \<phi> (reads (card_rows c)) w of
        (Inl e, w1) \<Rightarrow> (Inl (''reading the rate card failed: '' @ sql_text e), w1)
      | (Inr [], w1) \<Rightarrow> (Inl (''no rate card for currency '' @ c @ '' '' @ em_dash @
           '' nothing may be provisioned without a price''), w1)
      | (Inr (r # rs), w1) \<Rightarrow>
          (Inr (fold set_price (r # rs) \<lparr>pc_version = rr_version r, pc_node_minute_minor = 0,
             pc_gpu_minute_minor = 0, pc_egress_gb_minor = 0\<rparr>), w1))"

record wallet_billing_source =
  wb_horizon_secs :: nat
  wb_currency :: string

definition default_horizon_secs :: nat where
  "default_horizon_secs = 3600"

definition wallet_billing_new :: "string \<Rightarrow> wallet_billing_source" where
  "wallet_billing_new c = \<lparr>wb_horizon_secs = default_horizon_secs, wb_currency = c\<rparr>"

definition with_horizon_secs :: "nat \<Rightarrow> wallet_billing_source \<Rightarrow> wallet_billing_source" where
  "with_horizon_secs s src = src\<lparr>wb_horizon_secs := s\<rparr>"

definition current_rate_card :: "schedule \<Rightarrow> wallet_billing_source \<Rightarrow> 'x dbenv \<Rightarrow> (string + price_card) \<times> 'x dbenv" where
  "current_rate_card \<phi> src w =
     (case read_rate_card \<phi> (wb_currency src) w of
        (Inl e, w1) \<Rightarrow> (Inl e, w1)
      | (Inr crd, w1) \<Rightarrow>
          if pc_node_minute_minor crd \<le> 0
          then (Inl (''rate card '' @ show_int (pc_version crd) @ '' for '' @ wb_currency src @
             '' has no price for node_minute '' @ em_dash @
             '' every projection would be zero, which authorises an empty wallet to provision''), w1)
          else (Inr crd, w1))"

section \<open>Projection\<close>

definition project_cost_minor :: "price_card \<Rightarrow> nat \<Rightarrow> nat \<Rightarrow> nat \<Rightarrow> billing_increment \<Rightarrow> int" where
  "project_cost_minor crd fanout_nodes transcode_nodes horizon_secs inc =
     (let fanout_periods = int (round_ttl_secs inc horizon_secs div max (nat (inc_seconds inc)) 1);
          fanout_minutes_per_period = max (inc_seconds inc sdiv 60) 1;
          fanout = wrap_i64 (wrap_i64 (wrap_i64 (int fanout_nodes * fanout_periods) * fanout_minutes_per_period)
                     * pc_node_minute_minor crd);
          gpu_minutes = int (div_ceil horizon_secs 60);
          gpu = wrap_i64 (wrap_i64 (int transcode_nodes * gpu_minutes) * pc_gpu_minute_minor crd)
      in wrap_i64 (fanout + gpu))"

text \<open>The same over \<^typ>\<open>int\<close>, to evaluate it.\<close>

lemma project_cost_minor_code [code]:
  "project_cost_minor crd n t h inc =
     (let u = inc_seconds inc; s = int h;
          p = (if s = 0 then u else ((s + u - 1) div u * u) mod 4294967296) div max u 1;
          f = wrap_i64 (wrap_i64 (wrap_i64 (int n * p) * max (u sdiv 60) 1) * pc_node_minute_minor crd);
          g = wrap_i64 (wrap_i64 (int t * ((s + 59) div 60)) * pc_gpu_minute_minor crd)
      in wrap_i64 (f + g))"
proof -
  have dc: "int (div_ceil a b) = (int a + int b - 1) div int b" if "0 < b" for a b
  proof -
    have "int a \<le> int (div_ceil a b * b)" "int (div_ceil a b * b) < int (a + b)"
      using div_ceil_ge [OF that, of a] div_ceil_lt [OF that, of a] by (simp_all only: of_nat_le_iff of_nat_less_iff)
    then show ?thesis
      by (intro int_div_pos_eq [symmetric, where r = "int a + int b - 1 - int b * int (div_ceil a b)"]) (simp_all add: algebra_simps)
  qed
  have "int (div_ceil h 60) = (int h + 59) div 60" using dc [of 60 h] by simp
  moreover have "int (round_ttl_secs inc h div max (nat (inc_seconds inc)) 1)
      = (if int h = 0 then inc_seconds inc else ((int h + inc_seconds inc - 1) div inc_seconds inc * inc_seconds inc) mod 4294967296)
        div max (inc_seconds inc) 1"
    by (cases inc) (simp_all add: round_ttl_secs_def dc zdiv_int wrap_u32_def zmod_int)
  ultimately show ?thesis unfolding project_cost_minor_def by (simp only: Let_def)
qed

section \<open>What is running\<close>

text \<open>\<^verbatim>\<open>LIKE\<close>: a percent sign matches any text, an underscore any character, a backslash takes the next
  character literally.\<close>

fun sql_like :: "string \<Rightarrow> string \<Rightarrow> bool" where
  "sql_like [] s \<longleftrightarrow> s = []"
| "sql_like (p # ps) [] \<longleftrightarrow> p = CHR ''%'' \<and> sql_like ps []"
| "sql_like (p # ps) (c # cs) \<longleftrightarrow>
     (if p = CHR ''%'' then sql_like ps (c # cs) \<or> sql_like (p # ps) cs
      else if p = CHR ''_'' then sql_like ps cs
      else if p = CHR 0x5C then (case ps of [] \<Rightarrow> False | q # qs \<Rightarrow> q = c \<and> sql_like qs cs)
      else p = c \<and> sql_like ps cs)"

definition host_row :: "string \<Rightarrow> db \<Rightarrow> string option" where
  "host_row b d = map_option st_host_user_id (find (\<lambda>s. st_id s = b) (streams d))"

definition serving_nodes :: "string \<Rightarrow> db \<Rightarrow> node_tuple list" where
  "serving_nodes b d =
     filter (\<lambda>n. sql_like (''bc-'' @ b @ ''-%'') (nt_mm_node_id n) \<and> nt_state n \<noteq> ''gone'') (fleet_nodes d)"

definition flavor_counts :: "string \<Rightarrow> db \<Rightarrow> (string \<times> int) list" where
  "flavor_counts b d =
     map (\<lambda>f. (f, int (length (filter (\<lambda>n. nt_flavor n = f) (serving_nodes b d)))))
       (remdups (map nt_flavor (serving_nodes b d)))"

definition count_flavor :: "string \<times> int \<Rightarrow> nat \<times> nat \<Rightarrow> nat \<times> nat" where
  "count_flavor = (\<lambda>(flavor, n) (fanout, transcode).
     if flavor = ''fanout'' \<or> flavor = ''edge'' then (wrap_u32 (fanout + i64_as_u32 n), transcode)
     else if flavor = ''transcode'' then (fanout, wrap_u32 (transcode + i64_as_u32 n))
     else (fanout, transcode))"

definition running :: "(string \<times> int) list \<Rightarrow> nat \<times> nat" where
  "running counts = fold count_flavor counts (0, 0)"

definition convert_refusal :: "string \<Rightarrow> string \<Rightarrow> string \<Rightarrow> string" where
  "convert_refusal host held c = ''wallet for '' @ host @ '' is in '' @ held @ '' but the rate card is in '' @ c @ '' '' @
     em_dash @ '' refusing to convert at a rate nobody agreed''"

section \<open>The planner's quote\<close>

definition wallet_quote :: "schedule \<Rightarrow> wallet_billing_source \<Rightarrow> 'x quote" where
  "wallet_quote \<phi> src b w =
     (case sql \<phi> (reads (host_row b)) w of
        (Inl e, w1) \<Rightarrow> (Inl (''reading the broadcast host failed: '' @ sql_text e), w1)
      | (Inr None, w1) \<Rightarrow> (Inl (''no host for broadcast '' @ b), w1)
      | (Inr (Some host), w1) \<Rightarrow>
     (case get_wallet \<phi> host w1 of
        (Inl e, w2) \<Rightarrow> (Inl (''reading the wallet failed: '' @ wallet_error_text e), w2)
      | (Inr None, w2) \<Rightarrow> (Inl (''no wallet for '' @ host @ '' '' @ em_dash @ '' nothing may be provisioned on their behalf''), w2)
      | (Inr (Some v), w2) \<Rightarrow>
     if w_currency v \<noteq> wb_currency src then (Inl (convert_refusal host (w_currency v) (wb_currency src)), w2) else
     (case current_rate_card \<phi> src w2 of
        (Inl e, w3) \<Rightarrow> (Inl e, w3)
      | (Inr crd, w3) \<Rightarrow>
     (case sql \<phi> (reads (flavor_counts b)) w3 of
        (Inl e, w4) \<Rightarrow> (Inl (''counting fleet nodes failed: '' @ sql_text e), w4)
      | (Inr counts, w4) \<Rightarrow>
          let (fanout, transcode) = running counts;
              projected = project_cost_minor crd (max fanout 1) transcode (wb_horizon_secs src) PerHour in
          (Inr \<lparr>bb_available_balance_minor = spendable_minor v, bb_projected_cost_minor = projected,
                bb_transcode_enabled = (0 < spendable_minor v)\<rparr>, w4)))))"

section \<open>The ladder's quote\<close>

definition egress_rate_window_secs :: int where
  "egress_rate_window_secs = 600"

record run_usage =
  ru_fanout_nodes :: nat
  ru_transcode_nodes :: nat
  ru_egress_milli_in_window :: int
  ru_window_secs :: int

definition project_run_cost_minor :: "price_card \<Rightarrow> run_usage \<Rightarrow> nat \<Rightarrow> billing_increment \<Rightarrow> string + int" where
  "project_run_cost_minor crd u horizon_secs inc =
     (if 0 < ru_fanout_nodes u \<and> pc_node_minute_minor crd \<le> 0 then
        Inl (''rate card '' @ show_int (pc_version crd) @ '' has no node_minute price, and '' @ show_nat (ru_fanout_nodes u) @
          '' fan-out node(s) are running'')
      else if 0 < ru_transcode_nodes u \<and> pc_gpu_minute_minor crd \<le> 0 then
        Inl (''rate card '' @ show_int (pc_version crd) @ '' has no gpu_minute price, and a transcode node is running'')
      else if 0 < ru_egress_milli_in_window u \<and> pc_egress_gb_minor crd \<le> 0 then
        Inl (''rate card '' @ show_int (pc_version crd) @ '' has no egress_gb price, and the broadcast is delivering'')
      else
        let nodes = project_cost_minor crd (ru_fanout_nodes u) (ru_transcode_nodes u) horizon_secs inc;
            window = max (ru_window_secs u) 1;
            projected_milli = sat_mul_i64 (ru_egress_milli_in_window u) (int horizon_secs) sdiv window;
            egress = charge_minor projected_milli (pc_egress_gb_minor crd)
        in Inr (sat_add_i64 nodes egress))"

definition available_after_owed :: "int \<Rightarrow> int \<Rightarrow> int" where
  "available_after_owed spendable owed = sat_sub_i64 spendable (max owed 0)"

text \<open>The measured egress and the window: the age of the broadcast in seconds, to the nearest and ties
  to even, between a minute and the rate window. \<^verbatim>\<open>make_interval\<close> and \<^verbatim>\<open>now()\<close> are of the
  database's clock.\<close>

definition round_half_even_secs :: "instant \<Rightarrow> int" where
  "round_half_even_secs t =
     (let q = t div 1000000000; r = t mod 1000000000 in
      if r < 500000000 then q else if 500000000 < r then q + 1 else if even q then q else q + 1)"

definition bigint_sum :: "int list \<Rightarrow> sql_error + int" where
  "bigint_sum ns = (if in_i64 (sum_list ns) then Inr (sum_list ns) else Inl (Failed ''bigint out of range''))"

definition measured_egress :: "string \<Rightarrow> (int \<times> int) query" where
  "measured_egress b d =
     (case find (\<lambda>s. st_id s = b) (streams d) of
        None \<Rightarrow> (Inl (Failed ''no rows returned by a query that expected to return at least one row''), d)
      | Some s \<Rightarrow>
          (case bigint_sum (map ue_quantity_milli (filter (\<lambda>e. ue_broadcast_id e = b \<and> ue_unit e = ''egress_gb''
                  \<and> db_now d - egress_rate_window_secs * 1000000000 < ue_occurred_at e) (usage_events d))) of
             Inl e \<Rightarrow> (Inl e, d)
           | Inr milli \<Rightarrow>
               (Inr (milli, max 60 (min egress_rate_window_secs (round_half_even_secs (db_now d - st_started_at s)))), d)))"

text \<open>One \<^verbatim>\<open>SUM\<close> for each unit; the first one out of range fails the statement.\<close>

fun unit_sums :: "usage_event list \<Rightarrow> string list \<Rightarrow> sql_error + (string \<times> int) list" where
  "unit_sums es [] = Inr []"
| "unit_sums es (u # us) =
     (case bigint_sum (map ue_quantity_milli (filter (\<lambda>e. ue_unit e = u) es)) of
        Inl e \<Rightarrow> Inl e
      | Inr n \<Rightarrow> (case unit_sums es us of Inl e \<Rightarrow> Inl e | Inr rest \<Rightarrow> Inr ((u, n) # rest)))"

definition unrated_sums :: "string \<Rightarrow> (string \<times> int) list query" where
  "unrated_sums host d =
     (let es = filter (\<lambda>e. ue_user_id e = host \<and> unrated e) (usage_events d) in
      (unit_sums es (remdups (map ue_unit es)), d))"

definition unit_price :: "price_card \<Rightarrow> string \<Rightarrow> int" where
  "unit_price crd u =
     (if u = ''egress_gb'' then pc_egress_gb_minor crd
      else if u = ''gpu_minute'' then pc_gpu_minute_minor crd
      else if u = ''node_minute'' then pc_node_minute_minor crd
      else 0)"

definition owed_minor :: "price_card \<Rightarrow> (string \<times> int) list \<Rightarrow> int" where
  "owed_minor crd us = fold (\<lambda>(u, milli) owed. sat_add_i64 owed (charge_minor milli (unit_price crd u))) us 0"

definition ladder_quote :: "schedule \<Rightarrow> wallet_billing_source \<Rightarrow> 'x quote" where
  "ladder_quote \<phi> src b w =
     (case sql \<phi> (reads (host_row b)) w of
        (Inl e, w1) \<Rightarrow> (Inl (''reading the broadcast host failed: '' @ sql_text e), w1)
      | (Inr None, w1) \<Rightarrow> (Inl (''no host for broadcast '' @ b), w1)
      | (Inr (Some host), w1) \<Rightarrow>
     (case get_wallet \<phi> host w1 of
        (Inl e, w2) \<Rightarrow> (Inl (''reading the wallet failed: '' @ wallet_error_text e), w2)
      | (Inr None, w2) \<Rightarrow> (Inl (''no wallet for '' @ host), w2)
      | (Inr (Some v), w2) \<Rightarrow>
     if w_currency v \<noteq> wb_currency src then (Inl (convert_refusal host (w_currency v) (wb_currency src)), w2) else
     (case read_rate_card \<phi> (wb_currency src) w2 of
        (Inl e, w3) \<Rightarrow> (Inl e, w3)
      | (Inr crd, w3) \<Rightarrow>
     (case sql \<phi> (reads (flavor_counts b)) w3 of
        (Inl e, w4) \<Rightarrow> (Inl (''counting fleet nodes failed: '' @ sql_text e), w4)
      | (Inr counts, w4) \<Rightarrow>
     (case sql \<phi> (measured_egress b) w4 of
        (Inl e, w5) \<Rightarrow> (Inl (''measuring egress failed: '' @ sql_text e), w5)
      | (Inr (milli, window), w5) \<Rightarrow>
     (case project_run_cost_minor crd \<lparr>ru_fanout_nodes = fst (running counts), ru_transcode_nodes = snd (running counts),
             ru_egress_milli_in_window = milli, ru_window_secs = window\<rparr> (wb_horizon_secs src) PerHour of
        Inl e \<Rightarrow> (Inl e, w5)
      | Inr projected \<Rightarrow>
     (case sql \<phi> (unrated_sums host) w5 of
        (Inl e, w6) \<Rightarrow> (Inl (''reading unrated usage failed: '' @ sql_text e), w6)
      | (Inr us, w6) \<Rightarrow>
          (Inr \<lparr>bb_available_balance_minor = available_after_owed (spendable_minor v) (owed_minor crd us),
                bb_projected_cost_minor = projected, bb_transcode_enabled = (0 < spendable_minor v)\<rparr>, w6))))))))"

section \<open>Both only read\<close>

lemma sql_pure_state:
  assumes "\<And>d. snd (f d) = d"
  shows "fst (snd (sql \<phi> f w)) = fst w"
proof (rule prod_eqI)
  show "world_db (snd (sql \<phi> f w)) = world_db w" using sql_db [of \<phi> f w] assms by auto
qed simp

lemma sql_pure_step: "(\<And>d. snd (f d) = d) \<Longrightarrow> sql \<phi> f w = (r, w1) \<Longrightarrow> fst w1 = fst w"
  using sql_pure_state [of f \<phi> w] by simp

lemma sql_reads_step: "sql \<phi> (reads q) w = (r, w1) \<Longrightarrow> fst w1 = fst w \<and> (\<forall>a. r = Inr a \<longrightarrow> a = q (world_db w))"
  using sql_reads_state [of \<phi> q w] sql_reads_Inr [of \<phi> q w] by auto

lemma get_wallet_step:
  assumes "get_wallet \<phi> u w = (r, w1)"
  shows "fst w1 = fst w" and "r = Inr v \<Longrightarrow> v = map_option wallet_of (find_wallet u (world_db w))"
proof -
  obtain x w2 where s: "sql \<phi> (reads (find_wallet u)) w = (x, w2)" by (cases "sql \<phi> (reads (find_wallet u)) w")
  note sql_reads_step [OF this]
  then show "fst w1 = fst w" and "r = Inr v \<Longrightarrow> v = map_option wallet_of (find_wallet u (world_db w))"
    using assms s by (cases x; auto simp: get_wallet_def)+
qed

definition priced_card :: "rate_row list \<Rightarrow> price_card option" where
  "priced_card rows = (case rows of [] \<Rightarrow> None | r # _ \<Rightarrow>
     Some (fold set_price rows \<lparr>pc_version = rr_version r, pc_node_minute_minor = 0, pc_gpu_minute_minor = 0, pc_egress_gb_minor = 0\<rparr>))"

lemma read_rate_card_step:
  assumes "read_rate_card \<phi> c w = (r, w1)"
  shows "fst w1 = fst w" and "r = Inr crd \<Longrightarrow> priced_card (card_rows c (world_db w)) = Some crd"
proof -
  obtain x w2 where s: "sql \<phi> (reads (card_rows c)) w = (x, w2)" by (cases "sql \<phi> (reads (card_rows c)) w")
  note st = sql_reads_step [OF this]
  have "fst w1 = fst w \<and> (r = Inr crd \<longrightarrow> priced_card (card_rows c (world_db w)) = Some crd)"
  proof (cases x)
    case (Inl e)
    then show ?thesis using assms s st by (auto simp: read_rate_card_def)
  next
    case (Inr rows)
    with st have rows: "card_rows c (world_db w) = rows" by simp
    show ?thesis unfolding rows using assms s st [THEN conjunct1] Inr
      by (cases rows) (auto simp: read_rate_card_def priced_card_def)
  qed
  then show "fst w1 = fst w" and "r = Inr crd \<Longrightarrow> priced_card (card_rows c (world_db w)) = Some crd" by auto
qed

lemma current_rate_card_step:
  assumes "current_rate_card \<phi> src w = (r, w1)"
  shows "fst w1 = fst w" and "r = Inr crd \<Longrightarrow> priced_card (card_rows (wb_currency src) (world_db w)) = Some crd \<and> 0 < pc_node_minute_minor crd"
proof -
  obtain x w2 where s: "read_rate_card \<phi> (wb_currency src) w = (x, w2)" by (cases "read_rate_card \<phi> (wb_currency src) w")
  note st = read_rate_card_step [OF this]
  show "fst w1 = fst w" and "r = Inr crd \<Longrightarrow> priced_card (card_rows (wb_currency src) (world_db w)) = Some crd \<and> 0 < pc_node_minute_minor crd"
    using assms s st by (cases x; auto simp: current_rate_card_def split: if_splits)+
qed

text \<open>What a successful quote of the planner says about the tables it read.\<close>

lemma wallet_quote_cases:
  obtains (err) e w' where "wallet_quote \<phi> src b w = (Inl e, w')" "fst w' = fst w"
  | (quoted) host r crd w' where "host_row b (world_db w) = Some host" "find_wallet host (world_db w) = Some r"
      "wr_currency r = wb_currency src" "priced_card (card_rows (wb_currency src) (world_db w)) = Some crd"
      "0 < pc_node_minute_minor crd" "fst w' = fst w"
      "wallet_quote \<phi> src b w = (Inr \<lparr>bb_available_balance_minor = spendable_minor (wallet_of r),
         bb_projected_cost_minor = project_cost_minor crd (max (fst (running (flavor_counts b (world_db w)))) 1)
           (snd (running (flavor_counts b (world_db w)))) (wb_horizon_secs src) PerHour,
         bb_transcode_enabled = (0 < spendable_minor (wallet_of r))\<rparr>, w')"
proof -
  obtain x1 w1 where s1: "sql \<phi> (reads (host_row b)) w = (x1, w1)" by (cases "sql \<phi> (reads (host_row b)) w")
  note t1 = sql_reads_step [OF s1]
  consider (a) e where "x1 = Inl e" | (b) "x1 = Inr None" | (c) host where "x1 = Inr (Some host)"
    by (metis obj_sumE option.exhaust)
  then show thesis
  proof cases
    case a
    then show thesis by (intro err [where w' = w1]) (use s1 t1 in \<open>auto simp: wallet_quote_def\<close>)
  next
    case b
    then show thesis by (intro err [where w' = w1]) (use s1 t1 in \<open>auto simp: wallet_quote_def\<close>)
  next
    case (c host)
    obtain x2 w2 where s2: "get_wallet \<phi> host w1 = (x2, w2)" by (cases "get_wallet \<phi> host w1")
    note t2 = get_wallet_step [OF s2]
    obtain x3 w3 where s3: "current_rate_card \<phi> src w2 = (x3, w3)" by (cases "current_rate_card \<phi> src w2")
    note t3 = current_rate_card_step [OF s3]
    obtain x4 w4 where s4: "sql \<phi> (reads (flavor_counts b)) w3 = (x4, w4)" by (cases "sql \<phi> (reads (flavor_counts b)) w3")
    note t4 = sql_reads_step [OF s4]
    have w: "fst w1 = fst w" "fst w2 = fst w" "fst w3 = fst w" "fst w4 = fst w" using t1 t2(1) t3(1) t4 by simp_all
    consider (d) e where "x2 = Inl e" | (e) "x2 = Inr None" | (f) v where "x2 = Inr (Some v)" "w_currency v \<noteq> wb_currency src"
      | (g) v e where "x2 = Inr (Some v)" "w_currency v = wb_currency src" "x3 = Inl e"
      | (h) v crd e where "x2 = Inr (Some v)" "w_currency v = wb_currency src" "x3 = Inr crd" "x4 = Inl e"
      | (i) v crd counts where "x2 = Inr (Some v)" "w_currency v = wb_currency src" "x3 = Inr crd" "x4 = Inr counts"
      by (metis obj_sumE option.exhaust)
    then show thesis
    proof cases
      case (i v crd counts)
      from t2(2) [OF i(1)] w obtain r where r: "find_wallet host (world_db w) = Some r" "v = wallet_of r"
        by (cases "find_wallet host (world_db w)") auto
      have "host_row b (world_db w) = Some host" using t1 c by simp
      moreover have "wr_currency r = wb_currency src" using i(2) r(2) by (simp add: wallet_of_def)
      moreover have "priced_card (card_rows (wb_currency src) (world_db w)) = Some crd" "0 < pc_node_minute_minor crd"
        using t3(2) [OF i(3)] w by simp_all
      moreover have "counts = flavor_counts b (world_db w)" using t4 i(4) w by simp
      ultimately show thesis using r w s1 s2 s3 s4 c i
        by (intro quoted [of host r crd w4]) (simp_all add: wallet_quote_def split_beta Let_def)
    next
      case d
      then show thesis by (intro err [where w' = w2]) (use s1 s2 c w in \<open>auto simp: wallet_quote_def\<close>)
    next
      case e
      then show thesis by (intro err [where w' = w2]) (use s1 s2 c w in \<open>auto simp: wallet_quote_def\<close>)
    next
      case f
      then show thesis by (intro err [where w' = w2]) (use s1 s2 c w in \<open>auto simp: wallet_quote_def\<close>)
    next
      case g
      then show thesis by (intro err [where w' = w3]) (use s1 s2 s3 c w in \<open>auto simp: wallet_quote_def\<close>)
    next
      case h
      then show thesis by (intro err [where w' = w4]) (use s1 s2 s3 s4 c w in \<open>auto simp: wallet_quote_def\<close>)
    qed
  qed
qed

interpretation wallet_billing: billing_source "wallet_quote \<phi> src" for \<phi> src
proof
  fix b :: string and w :: "'a dbenv"
  show "fst (snd (wallet_quote \<phi> src b w)) = fst w"
    by (rule wallet_quote_cases [of \<phi> src b w]) auto
qed

definition run_of :: "string \<Rightarrow> db \<Rightarrow> int \<times> int \<Rightarrow> run_usage" where
  "run_of b d mw = \<lparr>ru_fanout_nodes = fst (running (flavor_counts b d)), ru_transcode_nodes = snd (running (flavor_counts b d)),
     ru_egress_milli_in_window = fst mw, ru_window_secs = snd mw\<rparr>"

lemma ladder_quote_cases:
  obtains (err) e w' where "ladder_quote \<phi> src b w = (Inl e, w')" "fst w' = fst w"
  | (quoted) host r crd mw projected us w' where "host_row b (world_db w) = Some host"
      "find_wallet host (world_db w) = Some r" "wr_currency r = wb_currency src"
      "priced_card (card_rows (wb_currency src) (world_db w)) = Some crd"
      "fst (measured_egress b (world_db w)) = Inr mw" "fst (unrated_sums host (world_db w)) = Inr us"
      "project_run_cost_minor crd (run_of b (world_db w) mw) (wb_horizon_secs src) PerHour = Inr projected" "fst w' = fst w"
      "ladder_quote \<phi> src b w = (Inr \<lparr>bb_available_balance_minor =
           available_after_owed (spendable_minor (wallet_of r)) (owed_minor crd us),
         bb_projected_cost_minor = projected, bb_transcode_enabled = (0 < spendable_minor (wallet_of r))\<rparr>, w')"
proof -
  obtain x1 w1 where s1: "sql \<phi> (reads (host_row b)) w = (x1, w1)" by (cases "sql \<phi> (reads (host_row b)) w")
  note t1 = sql_reads_step [OF s1]
  consider (a) e where "x1 = Inl e" | (b) "x1 = Inr None" | (c) host where "x1 = Inr (Some host)"
    by (metis obj_sumE option.exhaust)
  then show thesis
  proof cases
    case a
    then show thesis by (intro err [where w' = w1]) (use s1 t1 in \<open>auto simp: ladder_quote_def\<close>)
  next
    case b
    then show thesis by (intro err [where w' = w1]) (use s1 t1 in \<open>auto simp: ladder_quote_def\<close>)
  next
    case (c host)
    obtain x2 w2 where s2: "get_wallet \<phi> host w1 = (x2, w2)" by (cases "get_wallet \<phi> host w1")
    note t2 = get_wallet_step [OF s2]
    obtain x3 w3 where s3: "read_rate_card \<phi> (wb_currency src) w2 = (x3, w3)" by (cases "read_rate_card \<phi> (wb_currency src) w2")
    note t3 = read_rate_card_step [OF s3]
    obtain x4 w4 where s4: "sql \<phi> (reads (flavor_counts b)) w3 = (x4, w4)" by (cases "sql \<phi> (reads (flavor_counts b)) w3")
    note t4 = sql_reads_step [OF s4]
    obtain x5 w5 where s5: "sql \<phi> (measured_egress b) w4 = (x5, w5)" by (cases "sql \<phi> (measured_egress b) w4")
    have p5: "snd (measured_egress b d) = d" for d by (simp add: measured_egress_def split: option.split sum.split)
    obtain x6 w6 where s6: "sql \<phi> (unrated_sums host) w5 = (x6, w6)" by (cases "sql \<phi> (unrated_sums host) w5")
    have p6: "snd (unrated_sums host d) = d" for d by (simp add: unrated_sums_def Let_def)
    have w: "fst w1 = fst w" "fst w2 = fst w" "fst w3 = fst w" "fst w4 = fst w" "fst w5 = fst w" "fst w6 = fst w"
      using t1 t2(1) t3(1) t4 sql_pure_step [OF p5 s5] sql_pure_step [OF p6 s6] by simp_all
    consider (d) e where "x2 = Inl e" | (e) "x2 = Inr None" | (f) v where "x2 = Inr (Some v)" "w_currency v \<noteq> wb_currency src"
      | (g) v e where "x2 = Inr (Some v)" "w_currency v = wb_currency src" "x3 = Inl e"
      | (h) v crd e where "x2 = Inr (Some v)" "w_currency v = wb_currency src" "x3 = Inr crd" "x4 = Inl e"
      | (i) v crd counts e where "x2 = Inr (Some v)" "w_currency v = wb_currency src" "x3 = Inr crd" "x4 = Inr counts" "x5 = Inl e"
      | (j) v crd counts mw where "x2 = Inr (Some v)" "w_currency v = wb_currency src" "x3 = Inr crd" "x4 = Inr counts" "x5 = Inr mw"
      by (metis obj_sumE option.exhaust)
    then show thesis
    proof cases
      case (j v crd counts mw)
      let ?run = "run_of b (world_db w) mw"
      from t2(2) [OF j(1)] w obtain r where r: "find_wallet host (world_db w) = Some r" "v = wallet_of r"
        by (cases "find_wallet host (world_db w)") auto
      have h: "host_row b (world_db w) = Some host" using t1 c by simp
      have cur: "wr_currency r = wb_currency src" using j(2) r(2) by (simp add: wallet_of_def)
      have crd: "priced_card (card_rows (wb_currency src) (world_db w)) = Some crd" using t3(2) [OF j(3)] w by simp
      have counts: "counts = flavor_counts b (world_db w)" using t4 j(4) w by simp
      have mw: "fst (measured_egress b (world_db w)) = Inr mw" using sql_Inr [of \<phi> "measured_egress b" w4 mw] s5 j(5) w by simp
      have run: "\<lparr>ru_fanout_nodes = fst (running counts), ru_transcode_nodes = snd (running counts),
             ru_egress_milli_in_window = fst mw, ru_window_secs = snd mw\<rparr> = ?run" by (simp add: run_of_def counts)
      show thesis
      proof (cases "project_run_cost_minor crd ?run (wb_horizon_secs src) PerHour")
        case (Inl e)
        then show thesis by (intro err [where w' = w5]) (use s1 s2 s3 s4 s5 c w j run in \<open>auto simp: ladder_quote_def split_beta\<close>)
      next
        case proj: (Inr projected)
        show thesis
        proof (cases x6)
          case (Inl e)
          then show thesis
            by (intro err [where w' = w6]) (use s1 s2 s3 s4 s5 s6 c w j run proj in \<open>auto simp: ladder_quote_def split_beta\<close>)
        next
          case (Inr us)
          have us: "fst (unrated_sums host (world_db w)) = Inr us" using sql_Inr [of \<phi> "unrated_sums host" w5 us] s6 Inr w by simp
          show thesis
            by (rule quoted [OF h r(1) cur crd mw us proj w(6)])
              (use s1 s2 s3 s4 s5 s6 c j run proj Inr r(2) in \<open>simp add: ladder_quote_def split_beta\<close>)
        qed
      qed
    next
      case d
      then show thesis by (intro err [where w' = w2]) (use s1 s2 c w in \<open>auto simp: ladder_quote_def\<close>)
    next
      case e
      then show thesis by (intro err [where w' = w2]) (use s1 s2 c w in \<open>auto simp: ladder_quote_def\<close>)
    next
      case f
      then show thesis by (intro err [where w' = w2]) (use s1 s2 c w in \<open>auto simp: ladder_quote_def\<close>)
    next
      case g
      then show thesis by (intro err [where w' = w3]) (use s1 s2 s3 c w in \<open>auto simp: ladder_quote_def\<close>)
    next
      case h
      then show thesis by (intro err [where w' = w4]) (use s1 s2 s3 s4 c w in \<open>auto simp: ladder_quote_def\<close>)
    next
      case i
      then show thesis by (intro err [where w' = w5]) (use s1 s2 s3 s4 s5 c w in \<open>auto simp: ladder_quote_def\<close>)
    qed
  qed
qed

interpretation ladder_billing: billing_source "ladder_quote \<phi> src" for \<phi> src
proof
  fix b :: string and w :: "'a dbenv"
  show "fst (snd (ladder_quote \<phi> src b w)) = fst w"
    by (rule ladder_quote_cases [of \<phi> src b w]) auto
qed

section \<open>Projection in exact arithmetic\<close>

definition exact_cost :: "price_card \<Rightarrow> nat \<Rightarrow> nat \<Rightarrow> nat \<Rightarrow> int" where
  "exact_cost crd n t h = int n * int (div_ceil h 3600) * 60 * pc_node_minute_minor crd
     + int t * int (div_ceil h 60) * pc_gpu_minute_minor crd"

lemma wrap_i64_small: "0 \<le> x \<Longrightarrow> x \<le> 9223372036854775807 \<Longrightarrow> wrap_i64 x = x"
  by (rule wrap_i64_id) (simp add: in_i64_def i64_min_def i64_max_def)

lemma project_cost_exact:
  assumes h: "0 < h" "h \<le> 4294965600" and n: "in_u32 n" "in_u32 t"
    and p: "0 \<le> pc_node_minute_minor crd" "0 \<le> pc_gpu_minute_minor crd"
    and r: "exact_cost crd n t h \<le> 9223372036854775807"
  shows "project_cost_minor crd n t h PerHour = exact_cost crd n t h"
proof -
  let ?a = "int n * int (div_ceil h 3600)" and ?b = "int t * int (div_ceil h 60)"
  let ?f = "?a * 60 * pc_node_minute_minor crd" and ?g = "?b * pc_gpu_minute_minor crd"
  have periods: "round_ttl_secs PerHour h div max (nat (inc_seconds PerHour)) 1 = div_ceil h 3600"
    using round_ttl_exact [of h PerHour] h by simp
  have dc: "div_ceil h 3600 \<le> 1193046" "div_ceil h 60 \<le> 71582760" using h(2) by (simp_all add: div_ceil_least)
  have nn: "int n \<le> 4294967295" "int t \<le> 4294967295" using n by (simp_all add: in_u32_def u32_max_def)
  have "?a \<le> 4294967295 * 1193046" "?b \<le> 4294967295 * 71582760"
    using dc nn by (intro mult_mono; simp)+
  then have ab: "0 \<le> ?a" "?a * 60 \<le> 9223372036854775807" "?b \<le> 9223372036854775807" "0 \<le> ?b" by simp_all
  have fg: "0 \<le> ?f" "0 \<le> ?g" using p by (simp_all add: mult_nonneg_nonneg)
  have le: "?f \<le> 9223372036854775807" "?g \<le> 9223372036854775807" "?f + ?g \<le> 9223372036854775807"
    using r fg unfolding exact_cost_def by linarith+
  show ?thesis
    unfolding project_cost_minor_def Let_def periods exact_cost_def
    using ab fg le by (simp add: wrap_i64_small signed_divide_int_def)
qed

lemma exact_cost_bounds:
  assumes p: "0 \<le> pc_node_minute_minor crd" "0 \<le> pc_gpu_minute_minor crd"
  shows "int h * (int n * pc_node_minute_minor crd + int t * pc_gpu_minute_minor crd) \<le> 60 * exact_cost crd n t h"
    and "60 * exact_cost crd n t h \<le> (int h + 3599) * (int n * pc_node_minute_minor crd) + (int h + 59) * (int t * pc_gpu_minute_minor crd)"
proof -
  have a: "int h \<le> int (div_ceil h 3600) * 3600" "int h \<le> int (div_ceil h 60) * 60"
    using div_ceil_ge [of 3600 h] div_ceil_ge [of 60 h] by linarith+
  have b: "int (div_ceil h 3600) * 3600 \<le> int h + 3599" "int (div_ceil h 60) * 60 \<le> int h + 59"
    using div_ceil_lt [of 3600 h] div_ceil_lt [of 60 h] by linarith+
  have q: "0 \<le> int n * pc_node_minute_minor crd" "0 \<le> int t * pc_gpu_minute_minor crd" using p by simp_all
  have e: "60 * exact_cost crd n t h = int (div_ceil h 3600) * 3600 * (int n * pc_node_minute_minor crd)
      + int (div_ceil h 60) * 60 * (int t * pc_gpu_minute_minor crd)"
    by (simp add: exact_cost_def algebra_simps)
  show "int h * (int n * pc_node_minute_minor crd + int t * pc_gpu_minute_minor crd) \<le> 60 * exact_cost crd n t h"
    unfolding e distrib_left by (intro add_mono mult_right_mono a q)
  show "60 * exact_cost crd n t h \<le> (int h + 3599) * (int n * pc_node_minute_minor crd) + (int h + 59) * (int t * pc_gpu_minute_minor crd)"
    unfolding e by (intro add_mono mult_right_mono b q)
qed

lemma sat_i64_below: "x \<le> s \<Longrightarrow> in_i64 s \<Longrightarrow> sat_i64 x \<le> s"
  by (auto simp: sat_i64_def in_i64_def)

section \<open>Which nodes a broadcast has\<close>

text \<open>An id without the two wildcards and the escape: the pattern then matches the ids of the
  broadcast and no others.\<close>

definition plain :: "string \<Rightarrow> bool" where
  "plain s \<longleftrightarrow> list_all (\<lambda>c. c \<noteq> CHR ''%'' \<and> c \<noteq> CHR ''_'' \<and> c \<noteq> CHR 0x5C) s"

lemma sql_like_any: "sql_like ''%'' s"
  by (induction s) simp_all

lemma sql_like_prefix: "plain p \<Longrightarrow> sql_like (p @ ''%'') s \<longleftrightarrow> starts_with s p"
proof (induction p arbitrary: s)
  case (Cons c p)
  then show ?case by (cases s) (auto simp: plain_def starts_with_def)
qed (simp add: sql_like_any starts_with_def)

lemma serving_nodes_plain:
  "plain b \<Longrightarrow> serving_nodes b d = filter (\<lambda>n. starts_with (nt_mm_node_id n) (''bc-'' @ b @ ''-'') \<and> nt_state n \<noteq> ''gone'') (fleet_nodes d)"
  using sql_like_prefix [of "''bc-'' @ b @ ''-''"] by (simp add: serving_nodes_def plain_def)

lemma fold_count_flavor:
  assumes "distinct fs" and "a + length (filter (\<lambda>n. g n \<in> set fs \<inter> {''fanout'', ''edge''}) rows) \<le> u32_max"
    and "t + length (filter (\<lambda>n. g n \<in> set fs \<inter> {''transcode''}) rows) \<le> u32_max"
  shows "fold count_flavor (map (\<lambda>f. (f, int (length (filter (\<lambda>n. g n = f) rows)))) fs) (a, t) =
     (a + length (filter (\<lambda>n. g n \<in> set fs \<inter> {''fanout'', ''edge''}) rows),
      t + length (filter (\<lambda>n. g n \<in> set fs \<inter> {''transcode''}) rows))"
  using assms
proof (induction fs arbitrary: a t)
  case (Cons f fs)
  let ?c = "length (filter (\<lambda>n. g n = f) rows)"
  have split: "length (filter (\<lambda>n. g n \<in> set (f # fs) \<inter> G) rows) =
      (if f \<in> G then ?c else 0) + length (filter (\<lambda>n. g n \<in> set fs \<inter> G) rows)" for G
    using Cons.prems(1) by (induction rows) auto
  note p = Cons.prems(2,3) [unfolded split]
  have u: "in_u32 (a + ?c)" if "f \<in> {''fanout'', ''edge''}" using p(1) that by (auto simp: in_u32_def)
  have v: "in_u32 (t + ?c)" if "f = ''transcode''" using p(2) that by (auto simp: in_u32_def)
  have c: "i64_as_u32 (int ?c) = ?c" if "f \<in> {''fanout'', ''edge'', ''transcode''}"
    using p that by (auto simp: i64_as_u32_def u32_max_def)
  have step: "count_flavor (f, int ?c) (a, t) =
      (a + (if f \<in> {''fanout'', ''edge''} then ?c else 0), t + (if f \<in> {''transcode''} then ?c else 0))"
    using u v c by (auto simp: count_flavor_def)
  have IH: "fold count_flavor (map (\<lambda>f. (f, int (length (filter (\<lambda>n. g n = f) rows)))) fs)
        (a + (if f \<in> {''fanout'', ''edge''} then ?c else 0), t + (if f \<in> {''transcode''} then ?c else 0)) =
     (a + (if f \<in> {''fanout'', ''edge''} then ?c else 0) + length (filter (\<lambda>n. g n \<in> set fs \<inter> {''fanout'', ''edge''}) rows),
      t + (if f \<in> {''transcode''} then ?c else 0) + length (filter (\<lambda>n. g n \<in> set fs \<inter> {''transcode''}) rows))"
    using Cons.prems(1) p by (intro Cons.IH) simp_all
  show ?case unfolding split list.map fold_simps step IH by simp
qed simp

lemma running_counts:
  assumes "length (fleet_nodes d) \<le> u32_max"
  shows "running (flavor_counts b d) =
     (length (filter (\<lambda>n. nt_flavor n = ''fanout'' \<or> nt_flavor n = ''edge'') (serving_nodes b d)),
      length (filter (\<lambda>n. nt_flavor n = ''transcode'') (serving_nodes b d)))"
proof -
  let ?s = "serving_nodes b d"
  have len: "length (filter P ?s) \<le> u32_max" for P
    using assms length_filter_le [of P ?s]
      length_filter_le [of "\<lambda>n. sql_like (''bc-'' @ b @ ''-%'') (nt_mm_node_id n) \<and> nt_state n \<noteq> ''gone''" "fleet_nodes d"]
    unfolding serving_nodes_def by linarith
  have "filter (\<lambda>n. nt_flavor n \<in> set (remdups (map nt_flavor ?s)) \<inter> {''fanout'', ''edge''}) ?s
      = filter (\<lambda>n. nt_flavor n = ''fanout'' \<or> nt_flavor n = ''edge'') ?s"
    "filter (\<lambda>n. nt_flavor n \<in> set (remdups (map nt_flavor ?s)) \<inter> {''transcode''}) ?s = filter (\<lambda>n. nt_flavor n = ''transcode'') ?s"
    by (rule filter_cong; auto)+
  then show ?thesis
    unfolding running_def flavor_counts_def
    using len fold_count_flavor [of "remdups (map nt_flavor ?s)" 0 nt_flavor ?s 0] by simp
qed

section \<open>Provisioning is backed by funds\<close>

text \<open>What a broadcast is projected to cost at a card: the fan-out nodes it has in the node table, at least
  one, by the started hour, and its transcode nodes by the started minute, over the horizon, in
  exact integers. It is backed when its payer's wallet, in the currency of the card, can spend that.\<close>

definition projected_nodes :: "string \<Rightarrow> db \<Rightarrow> nat \<times> nat" where
  "projected_nodes b d =
     (max (length (filter (\<lambda>n. nt_flavor n = ''fanout'' \<or> nt_flavor n = ''edge'') (serving_nodes b d))) 1,
      length (filter (\<lambda>n. nt_flavor n = ''transcode'') (serving_nodes b d)))"

definition backed :: "wallet_billing_source \<Rightarrow> db \<Rightarrow> string \<Rightarrow> bool" where
  "backed src d b \<longleftrightarrow>
     (case host_row b d of None \<Rightarrow> False | Some host \<Rightarrow>
     (case find_wallet host d of None \<Rightarrow> False | Some r \<Rightarrow>
     (case priced_card (card_rows (wb_currency src) d) of None \<Rightarrow> False | Some crd \<Rightarrow>
        wr_currency r = wb_currency src \<and> 0 < pc_node_minute_minor crd
      \<and> exact_cost crd (fst (projected_nodes b d)) (snd (projected_nodes b d)) (wb_horizon_secs src)
          \<le> spendable_minor (wallet_of r))))"

text \<open>Sizes at which no product of the projection leaves the range of \<^verbatim>\<open>i64\<close>.\<close>

definition modest :: "wallet_billing_source \<Rightarrow> db \<Rightarrow> bool" where
  "modest src d \<longleftrightarrow> 0 < wb_horizon_secs src \<and> wb_horizon_secs src \<le> 10000000 \<and> length (fleet_nodes d) \<le> 1000000
     \<and> list_all (\<lambda>r. 0 \<le> rr_price_minor r \<and> rr_price_minor r \<le> 1000000) (rate_card d)"

lemma priced_card_prices:
  assumes "priced_card rows = Some crd" and "list_all (\<lambda>r. 0 \<le> rr_price_minor r \<and> rr_price_minor r \<le> P) rows" and "0 \<le> P"
  shows "0 \<le> pc_node_minute_minor crd \<and> pc_node_minute_minor crd \<le> P
    \<and> 0 \<le> pc_gpu_minute_minor crd \<and> pc_gpu_minute_minor crd \<le> P"
proof -
  have fold: "list_all (\<lambda>r. 0 \<le> rr_price_minor r \<and> rr_price_minor r \<le> P) rs \<Longrightarrow>
      0 \<le> pc_node_minute_minor c \<and> pc_node_minute_minor c \<le> P \<and> 0 \<le> pc_gpu_minute_minor c \<and> pc_gpu_minute_minor c \<le> P \<Longrightarrow>
      0 \<le> pc_node_minute_minor (fold set_price rs c) \<and> pc_node_minute_minor (fold set_price rs c) \<le> P
      \<and> 0 \<le> pc_gpu_minute_minor (fold set_price rs c) \<and> pc_gpu_minute_minor (fold set_price rs c) \<le> P" for rs c
    by (induction rs arbitrary: c) (simp_all add: set_price_def)
  from assms(1) obtain v where "crd = fold set_price rows \<lparr>pc_version = v, pc_node_minute_minor = 0, pc_gpu_minute_minor = 0, pc_egress_gb_minor = 0\<rparr>"
    by (auto simp: priced_card_def split: list.splits)
  then show ?thesis using fold [OF assms(2)] assms(3) by simp
qed

lemma modest_exact:
  assumes m: "modest src d" and c: "priced_card (card_rows (wb_currency src) d) = Some crd"
    and n: "n \<le> 1000000" "t \<le> 1000000"
  shows "project_cost_minor crd n t (wb_horizon_secs src) PerHour = exact_cost crd n t (wb_horizon_secs src)"
    and "0 \<le> pc_gpu_minute_minor crd"
proof -
  let ?h = "wb_horizon_secs src"
  have "list_all (\<lambda>r. 0 \<le> rr_price_minor r \<and> rr_price_minor r \<le> 1000000) (card_rows (wb_currency src) d)"
    using m by (auto simp: modest_def card_rows_def list_all_iff Let_def)
  from priced_card_prices [OF c this] have p: "0 \<le> pc_node_minute_minor crd" "pc_node_minute_minor crd \<le> 1000000"
      "0 \<le> pc_gpu_minute_minor crd" "pc_gpu_minute_minor crd \<le> 1000000" by simp_all
  have h: "0 < ?h" "?h \<le> 10000000" using m by (simp_all add: modest_def)
  have "div_ceil ?h 3600 \<le> 2778" "div_ceil ?h 60 \<le> 166667" using h(2) by (simp_all add: div_ceil_least)
  then have "int n * int (div_ceil ?h 3600) * 60 * pc_node_minute_minor crd \<le> 1000000 * 2778 * 60 * 1000000"
    "int t * int (div_ceil ?h 60) * pc_gpu_minute_minor crd \<le> 1000000 * 166667 * 1000000"
    using n p by (intro mult_mono; simp)+
  then have "exact_cost crd n t ?h \<le> 9223372036854775807" unfolding exact_cost_def by linarith
  then show "project_cost_minor crd n t ?h PerHour = exact_cost crd n t ?h"
    using h n p by (intro project_cost_exact) (simp_all add: in_u32_def u32_max_def)
  show "0 \<le> pc_gpu_minute_minor crd" by (rule p(3))
qed

lemma quote_backed:
  assumes m: "modest src (world_db w)" and q: "wallet_quote \<phi> src b w = (Inr q', w')"
    and a: "bb_projected_cost_minor q' \<le> bb_available_balance_minor q'"
  shows "backed src (world_db w) b"
proof (cases rule: wallet_quote_cases [of \<phi> src b w])
  case (quoted host r crd v)
  let ?d = "world_db w" and ?h = "wb_horizon_secs src"
  let ?n = "max (fst (running (flavor_counts b ?d))) 1" and ?t = "snd (running (flavor_counts b ?d))"
  have len: "length (fleet_nodes ?d) \<le> 1000000" using m by (simp add: modest_def)
  have "length (filter P (serving_nodes b ?d)) \<le> 1000000" for P
    unfolding serving_nodes_def filter_filter using len length_filter_le le_trans by blast
  moreover have p: "(?n, ?t) = projected_nodes b ?d"
    using running_counts [of ?d b] len by (simp add: projected_nodes_def u32_max_def)
  ultimately have nt: "?n \<le> 1000000" "?t \<le> 1000000" by (simp_all add: projected_nodes_def)
  have "bb_projected_cost_minor q' = exact_cost crd ?n ?t ?h" "bb_available_balance_minor q' = spendable_minor (wallet_of r)"
    using q quoted(7) modest_exact(1) [OF m quoted(4) nt] by auto
  moreover have "?n = fst (projected_nodes b ?d)" "?t = snd (projected_nodes b ?d)" using p by (metis fst_conv, metis snd_conv)
  ultimately show ?thesis using a quoted(1-5) by (simp add: backed_def)
qed (use q in simp)

text \<open>
  What planning keeps of the database it starts from: the tables a quote reads, and that a desired
  row with a new id is the row of a node it was told about or of a node of a backed broadcast.
  Tearing down keeps those tables up to the states of nodes, and adds no desired row.
\<close>

definition backed_growth :: "wallet_billing_source \<Rightarrow> string set \<Rightarrow> db \<Rightarrow> db \<Rightarrow> bool" where
  "backed_growth src K d d' \<longleftrightarrow> streams d' = streams d \<and> wallets d' = wallets d \<and> rate_card d' = rate_card d
     \<and> fleet_nodes d' = fleet_nodes d
     \<and> (\<forall>r\<in>set (fleet_desired d'). dt_mm_node_id r \<in> dt_mm_node_id ` set (fleet_desired d) \<or> dt_mm_node_id r \<in> K
          \<or> (\<exists>b. backed src d b \<and> starts_with (dt_mm_node_id r) (''bc-'' @ b @ ''-'')))"

definition torn :: "db \<Rightarrow> db \<Rightarrow> bool" where
  "torn d d' \<longleftrightarrow> rate_card d' = rate_card d \<and> length (fleet_nodes d') = length (fleet_nodes d)
     \<and> dt_mm_node_id ` set (fleet_desired d') \<subseteq> dt_mm_node_id ` set (fleet_desired d)"

lemma backed_frame:
  "streams d' = streams d \<Longrightarrow> wallets d' = wallets d \<Longrightarrow> rate_card d' = rate_card d \<Longrightarrow> fleet_nodes d' = fleet_nodes d \<Longrightarrow>
   backed src d' b = backed src d b"
proof -
  assume "streams d' = streams d" "wallets d' = wallets d" "rate_card d' = rate_card d" "fleet_nodes d' = fleet_nodes d"
  then have eq: "host_row b d' = host_row b d" "find_wallet h d' = find_wallet h d" "card_rows c d' = card_rows c d"
    "projected_nodes b d' = projected_nodes b d" for h c
    by (simp_all add: host_row_def find_wallet_def card_rows_def projected_nodes_def serving_nodes_def)
  show ?thesis unfolding backed_def eq ..
qed

lemma modest_frame:
  "length (fleet_nodes d') = length (fleet_nodes d) \<Longrightarrow> rate_card d' = rate_card d \<Longrightarrow> modest src d' = modest src d"
  by (simp add: modest_def)

lemma teardown_torn: "torn d (world_db w) \<Longrightarrow> torn d (world_db (snd (teardown \<phi> prov t w)))"
  by (rule teardown_inv [where I = "torn d"]) (auto simp: torn_def delete_desired_def update_node_state_def)

lemma upsert_ids: "dt_mm_node_id ` set (upsert dt_mm_node_id desired_merge r t) \<subseteq> insert (dt_mm_node_id r) (dt_mm_node_id ` set t)"
  by (auto simp: upsert_def desired_merge_def)

lemma upsert_all_frame:
  "\<exists>rows g. snd (upsert_all_desired now ds d) = d\<lparr>fleet_desired := rows, fleet_generation := g\<rparr>
     \<and> dt_mm_node_id ` set rows \<subseteq> dt_mm_node_id ` set (fleet_desired d) \<union> dn_mm_node_id ` set ds"
proof (induction ds arbitrary: d)
  case Nil
  show ?case by (intro exI [of _ "fleet_desired d"] exI [of _ "fleet_generation d"]) simp
next
  case (Cons x ds)
  show ?case
  proof (cases "desired_checks (desired_insert now (db_now d) x)")
    case None
    let ?rows = "upsert dt_mm_node_id desired_merge (desired_insert now (db_now d) x) (fleet_desired d)"
    let ?d = "d\<lparr>fleet_desired := ?rows, fleet_generation := fleet_generation d + 2\<rparr>"
    obtain rows g where r: "snd (upsert_all_desired now ds ?d) = ?d\<lparr>fleet_desired := rows, fleet_generation := g\<rparr>"
        "dt_mm_node_id ` set rows \<subseteq> dt_mm_node_id ` set ?rows \<union> dn_mm_node_id ` set ds"
      using Cons [of ?d] by auto
    have "snd (upsert_all_desired now (x # ds) d) = d\<lparr>fleet_desired := rows, fleet_generation := g\<rparr>"
      using None r(1) by (simp add: upsert_desired_def)
    moreover have "dt_mm_node_id ` set ?rows \<subseteq> insert (dn_mm_node_id x) (dt_mm_node_id ` set (fleet_desired d))"
      using upsert_ids [of "desired_insert now (db_now d) x" "fleet_desired d"] by (simp add: desired_insert_def)
    then have "dt_mm_node_id ` set rows \<subseteq> dt_mm_node_id ` set (fleet_desired d) \<union> dn_mm_node_id ` set (x # ds)"
      using r(2) unfolding set_simps image_insert by blast
    ultimately show ?thesis by blast
  next
    case (Some c)
    then show ?thesis
      by (intro exI [of _ "fleet_desired d"] exI [of _ "fleet_generation d"]) (auto simp: upsert_desired_def Let_def)
  qed
qed

lemma replace_backed:
  assumes g: "backed_growth src K d d'"
    and ds: "\<And>x. x \<in> set ds \<Longrightarrow> dn_mm_node_id x \<in> K
       \<or> (\<exists>b. backed src d b \<and> starts_with (dn_mm_node_id x) (''bc-'' @ b @ ''-''))"
  shows "backed_growth src K d (snd (replace_desired b ds now d'))"
proof -
  let ?d1 = "delete_desired (\<lambda>r. dt_broadcast_id r = Some b \<and> dt_mm_node_id r \<notin> set (map dn_mm_node_id ds)) d'"
  obtain rows n where r: "snd (upsert_all_desired now ds ?d1) = ?d1\<lparr>fleet_desired := rows, fleet_generation := n\<rparr>"
      "dt_mm_node_id ` set rows \<subseteq> dt_mm_node_id ` set (fleet_desired ?d1) \<union> dn_mm_node_id ` set ds"
    using upsert_all_frame [of now ds ?d1] by blast
  have "dt_mm_node_id ` set (fleet_desired ?d1) \<subseteq> dt_mm_node_id ` set (fleet_desired d')" by (auto simp: delete_desired_def)
  then have ids: "dt_mm_node_id x \<in> dt_mm_node_id ` set (fleet_desired d') \<union> dn_mm_node_id ` set ds" if "x \<in> set rows" for x
    using r(2) that by blast
  have "dt_mm_node_id x \<in> dt_mm_node_id ` set (fleet_desired d) \<or> dt_mm_node_id x \<in> K
      \<or> (\<exists>b. backed src d b \<and> starts_with (dt_mm_node_id x) (''bc-'' @ b @ ''-''))" if "x \<in> set rows" for x
    using ids [OF that]
  proof
    assume "dt_mm_node_id x \<in> dt_mm_node_id ` set (fleet_desired d')"
    then obtain y where "y \<in> set (fleet_desired d')" "dt_mm_node_id x = dt_mm_node_id y" by auto
    then show ?thesis using g unfolding backed_growth_def by metis
  next
    assume "dt_mm_node_id x \<in> dn_mm_node_id ` set ds"
    then obtain y where "y \<in> set ds" "dt_mm_node_id x = dn_mm_node_id y" by auto
    then show ?thesis using ds [of y] by simp
  qed
  then have "backed_growth src K d (?d1\<lparr>fleet_desired := rows, fleet_generation := n\<rparr>)"
    using g by (auto simp: backed_growth_def delete_desired_def)
  then show ?thesis using r(1) g
    by (cases "upsert_all_desired now ds ?d1"; cases "fst (upsert_all_desired now ds ?d1)")
      (auto simp: replace_desired_def Let_def)
qed

lemma plan_ids:
  assumes "x \<in> set (plan obs p)"
  shows "dn_mm_node_id x \<in> fn_id ` set (live_fanout_nodes obs)
    \<or> (gates_open obs \<and> starts_with (dn_mm_node_id x) (''bc-'' @ fo_broadcast_id obs @ ''-''))"
proof -
  have push: "y \<in> set (push_fanout b p k n) \<Longrightarrow> starts_with (dn_mm_node_id y) (''bc-'' @ b @ ''-'')" for y b k n
    by (induction k arbitrary: n) (auto simp: desired_fanout_def fanout_prefix_def starts_with_iff)
  have "y \<in> set (kept obs p) \<Longrightarrow> dn_mm_node_id y \<in> fn_id ` set (live_fanout_nodes obs)" for y
    by (auto simp: kept_def desired_keep_def)
  moreover have "starts_with (transcode_id b) (''bc-'' @ b @ ''-'')" for b by (simp add: transcode_id_def starts_with_iff)
  ultimately show ?thesis using assms push
    by (cases "gates_open obs") (auto simp: plan_open plan_closed added_def desired_transcode_def split: if_splits)
qed

text \<open>The ids of the fan-out nodes a tick found that are not gone: those planning keeps without a quote.\<close>

definition live_fanout_ids :: "observed_node list \<Rightarrow> string set" where
  "live_fanout_ids nodes = on_mm_node_id ` set (filter (\<lambda>n. on_flavor n = Fanout \<and> on_state n \<noteq> Gone) nodes)"

lemma live_fanout_obs: "fn_id ` set (live_fanout_nodes (obs_of bc on_air bb nodes)) \<subseteq> live_fanout_ids nodes"
  by (auto simp: live_fanout_nodes_def obs_of_def nodes_for_broadcast_def observed_to_fleet_node_def live_fanout_ids_def)

lemma plan_one_backed:
  assumes m: "modest src d" and g: "backed_growth src (live_fanout_ids nodes) d (world_db w)" and b: "fr_billing fr = wallet_quote \<phi> src"
  shows "backed_growth src (live_fanout_ids nodes) d (world_db (snd (plan_one \<phi> fr bc nodes now w)))"
proof -
  let ?b = "lb_broadcast_id bc" and ?K = "live_fanout_ids nodes"
  obtain q w1 where q: "wallet_quote \<phi> src ?b w = (q, w1)" by (cases "wallet_quote \<phi> src ?b w")
  have w1: "world_db w1 = world_db w" using wallet_billing.quote_reads [of \<phi> src ?b w] q by simp
  show ?thesis
  proof (cases q; cases "programme_is_live (fr_census fr) ?b")
    fix bb on_air assume qq: "q = Inr bb" and o: "programme_is_live (fr_census fr) ?b = Inr on_air"
    let ?obs = "obs_of bc on_air bb nodes"
    let ?want = "plan ?obs (fr_policy fr)"
    have md: "modest src (world_db w)" using m g by (simp add: modest_def backed_growth_def)
    have bk: "backed src d ?b" if "gates_open ?obs"
    proof -
      have "backed src (world_db w) ?b"
        using that by (intro quote_backed [OF md q [unfolded qq]]) (simp_all add: gates_open_def obs_of_def)
      then show ?thesis using g backed_frame [of "world_db w" d src ?b] by (simp add: backed_growth_def)
    qed
    have ids: "dn_mm_node_id x \<in> ?K
        \<or> (\<exists>b. backed src d b \<and> starts_with (dn_mm_node_id x) (''bc-'' @ b @ ''-''))" if "x \<in> set ?want" for x
      using plan_ids [OF that] bk live_fanout_obs [of bc on_air bb nodes] by (auto simp: obs_of_def)
    have "backed_growth src ?K d (world_db (snd (sql \<phi> (replace_desired ?b ?want now) w1)))"
      by (rule sql_inv [where I = "backed_growth src ?K d"]) (use ids replace_backed w1 g in auto)
    then show ?thesis
      using g w1 by (simp add: plan_one_def b q qq o Let_def obs_of_def [symmetric] upsert_for_broadcast_def split: option.split)
  qed (use g w1 q in \<open>simp_all add: plan_one_def b\<close>)
qed

lemma plan_all_backed:
  assumes "modest src d" and "fr_billing fr = wallet_quote \<phi> src"
  shows "backed_growth src (live_fanout_ids nodes) d (world_db w) \<Longrightarrow>
    backed_growth src (live_fanout_ids nodes) d (world_db (snd (plan_all \<phi> fr bcs nodes now rep w)))"
proof (induction bcs arbitrary: rep w)
  case (Cons bc bcs)
  obtain r w' where p: "plan_one \<phi> fr bc nodes now w = (r, w')" by (cases "plan_one \<phi> fr bc nodes now w")
  have "backed_growth src (live_fanout_ids nodes) d (world_db (snd (plan_one \<phi> fr bc nodes now w)))"
    by (rule plan_one_backed [OF assms(1) Cons.prems assms(2)])
  with p have "backed_growth src (live_fanout_ids nodes) d (world_db w')" by simp
  then show ?case using p Cons.IH by (cases r) simp_all
qed simp

text \<open>A whole tick: it tears down first and plans then, so the node table that the quotes saw is the one
  it leaves.\<close>

lemma tick_backed:
  assumes m: "modest src (world_db w)" and b: "fr_billing fr = wallet_quote \<phi> src"
  shows "\<exists>d. torn (world_db w) d
    \<and> backed_growth src (live_fanout_ids (load_nodes_rows (world_db w))) d (world_db (snd (tick \<phi> fr prov mode now w)))"
proof -
  let ?K = "live_fanout_ids (load_nodes_rows (world_db w))"
  have refl: "backed_growth src ?K d d" for d by (auto simp: backed_growth_def)
  have t0: "torn (world_db w) (world_db w)" by (simp add: torn_def)
  show ?thesis
  proof (cases rule: tick_cases [of \<phi> fr prov mode now w])
    case (err e v)
    then show ?thesis using refl t0 by auto
  next
    case (body rep v)
    have td: "torn (world_db w) (world_db (snd (tear_down_all \<phi> prov ns rep v)))" for ns
      by (rule tear_down_all_keeps [where J = "\<lambda>v. torn (world_db w) (world_db v)"]) (simp_all add: teardown_torn body(2) t0)
    have plan: "backed_growth src ?K (world_db w') (world_db (snd (plan_all \<phi> fr bcs (load_nodes_rows (world_db w)) now rep' w')))"
      if "torn (world_db w) (world_db w')" for bcs rep' w'
      by (rule plan_all_backed [OF _ b refl]) (use that m modest_frame [of "world_db w'" "world_db w" src] in \<open>simp add: torn_def\<close>)
    show ?thesis
    proof (cases "live_broadcasts (fr_census fr)")
      case (Inl e)
      then show ?thesis using td refl t0 body by (auto simp: tick_body_def render_tfvars_keeps split_beta)
    next
      case (Inr on_air)
      let ?w1 = "snd (tear_down_all \<phi> prov (ended_nodes (load_all_rows (world_db w)) (set (map lb_broadcast_id on_air)) (load_nodes_rows (world_db w))) rep v)"
      let ?w2 = "snd (tear_down_all \<phi> prov (filter is_reapable_now (load_nodes_rows (world_db w))) rep v)"
      have "\<exists>d\<in>{world_db ?w1, world_db ?w2}. backed_growth src ?K d (world_db (snd (tick \<phi> fr prov mode now w)))"
        unfolding body(1) snd_conv using Inr refl plan [OF td]
        by (auto simp: tick_body_def render_tfvars_keeps split_beta)
      then show ?thesis using td by blast
    qed
  qed
qed

section \<open>Properties\<close>

text \<open>C7: With the wallet as billing source, nothing new is provisioned without funds: whatever the mode,
  the census and the faults, a node id that a tick adds to the desired set is either the id of a
  fan-out node it found in the node table and not gone, which planning keeps in any case, or it belongs
  to a broadcast whose payer has a wallet, in the currency of the rate card, that can spend the whole
  projection: the fan-out nodes the broadcast has, at least one, and its transcode nodes, over the
  horizon, by the started hour and the started minute, at a price for nodes that is not zero. The
  sizes are bounded (a million nodes, prices up to a million, a horizon up to ten million seconds) so
  that the 64-bit product cannot wrap around.\<close>

theorem wallet_provisions_only_funded:
  assumes "modest src (world_db w)" and "fr_billing fr = wallet_quote \<phi> src"
  shows "\<forall>r\<in>set (fleet_desired (world_db (snd (tick \<phi> fr prov mode now w)))).
      dt_mm_node_id r \<in> dt_mm_node_id ` set (fleet_desired (world_db w))
    \<or> dt_mm_node_id r \<in> live_fanout_ids (load_nodes_rows (world_db w))
    \<or> (\<exists>b. backed src (world_db (snd (tick \<phi> fr prov mode now w))) b \<and> starts_with (dt_mm_node_id r) (''bc-'' @ b @ ''-''))"
proof -
  let ?d' = "world_db (snd (tick \<phi> fr prov mode now w))"
  obtain d where d: "torn (world_db w) d" "backed_growth src (live_fanout_ids (load_nodes_rows (world_db w))) d ?d'"
    using tick_backed [OF assms] by blast
  then have "backed src d b = backed src ?d' b" for b using backed_frame [of ?d' d src b] by (simp add: backed_growth_def)
  then show ?thesis using d unfolding backed_growth_def torn_def by blast
qed

text \<open>A broadcaster with a wallet, a price list, and a broadcast with an audience.\<close>

definition quoted_db :: db where
  "quoted_db = metered_db\<lparr>rate_card := [\<lparr>rr_version = 1, rr_currency = ''eur'', rr_unit = ''node_minute'', rr_price_minor = 2\<rparr>,
     \<lparr>rr_version = 1, rr_currency = ''eur'', rr_unit = ''egress_gb'', rr_price_minor = 5\<rparr>]\<rparr>"

lemma metered_nodes: "fleet_nodes metered_db = []"
  by code_simp

definition funded_runner :: "dry_run_state fleet_runner" where
  "funded_runner =
     \<lparr>fr_census = \<lparr>live_broadcasts = Inr [\<lparr>lb_broadcast_id = ''a'', lb_viewers = 3\<rparr>],
        programme_is_live = (\<lambda>_. Inr True)\<rparr>,
      fr_billing = wallet_quote no_faults (wallet_billing_new ''eur''),
      fr_policy = (conservative ''r'' ''s'')\<lparr>viewer_capacity_per_node := 2, rented_ttl_secs := 1\<rparr>, fr_tfvars = None, fr_codec = empty_codec\<rparr>"

definition funded_world :: "dry_run_state runner_env dbenv" where
  "funded_world = ((quoted_db, \<lparr>re_provider = dry_run_new, re_file = \<lparr>tf_current = None, tf_tmp = None\<rparr>, re_timed = {}\<rparr>), 0)"

theorem wallet_provisions_only_funded_witness:
  "let d' = world_db (snd (tick no_faults funded_runner (dry_run 0) On 0 funded_world)) in
     fleet_desired (world_db funded_world) = [] \<and> fleet_nodes (world_db funded_world) = [] \<and> fleet_desired d' \<noteq> []
   \<and> list_all (\<lambda>r. \<exists>b. backed (wallet_billing_new ''eur'') d' b \<and> starts_with (dt_mm_node_id r) (''bc-'' @ b @ ''-'')) (fleet_desired d')"
proof -
  let ?d' = "world_db (snd (tick no_faults funded_runner (dry_run 0) On 0 funded_world))"
  have m: "modest (wallet_billing_new ''eur'') (world_db funded_world)"
    by (simp add: modest_def funded_world_def quoted_db_def metered_nodes wallet_billing_new_def default_horizon_secs_def)
  have e: "fleet_desired (world_db funded_world) = []" "fleet_nodes (world_db funded_world) = []" by code_simp+
  have l: "live_fanout_ids (load_nodes_rows (world_db funded_world)) = {}"
    by (simp add: live_fanout_ids_def load_nodes_rows_def e(2))
  have "fr_billing funded_runner = wallet_quote no_faults (wallet_billing_new ''eur'')" by (simp add: funded_runner_def)
  from wallet_provisions_only_funded [OF m this, of "dry_run 0" On 0]
  have "\<forall>r\<in>set (fleet_desired ?d'). \<exists>b. backed (wallet_billing_new ''eur'') ?d' b \<and> starts_with (dt_mm_node_id r) (''bc-'' @ b @ ''-'')"
    unfolding l e by simp
  moreover have "fleet_desired ?d' \<noteq> []" by code_simp
  ultimately show ?thesis using e unfolding list_all_iff Let_def by blast
qed

text \<open>A projection covers what the run is invoiced for and little more: for any number of nodes and any
  horizon up to the last full hour of the 32-bit range, while the amounts fit in 64 bits, it is
  at least the cost by the second, and at most that with each fan-out node running an hour less
  a second longer and each transcode node a minute less a second.\<close>

theorem projection_covers_run:
  assumes "0 < h" and "h \<le> 4294965600" and "in_u32 n" and "in_u32 t"
    and "0 \<le> pc_node_minute_minor crd" and "0 \<le> pc_gpu_minute_minor crd"
    and "(int h + 3599) * (int n * pc_node_minute_minor crd) + (int h + 59) * (int t * pc_gpu_minute_minor crd) \<le> 60 * 9223372036854775807"
  shows "int h * (int n * pc_node_minute_minor crd + int t * pc_gpu_minute_minor crd) \<le> 60 * project_cost_minor crd n t h PerHour
    \<and> 60 * project_cost_minor crd n t h PerHour
        \<le> (int h + 3599) * (int n * pc_node_minute_minor crd) + (int h + 59) * (int t * pc_gpu_minute_minor crd)"
proof -
  note b = exact_cost_bounds [OF assms(5,6), where h = h and n = n and t = t]
  have "exact_cost crd n t h \<le> 9223372036854775807" using b(2) assms(7) by linarith
  from project_cost_exact [OF assms(1-6) this] b show ?thesis by simp
qed

theorem projection_covers_run_witness:
  "let crd = \<lparr>pc_version = 1, pc_node_minute_minor = 2, pc_gpu_minute_minor = 7, pc_egress_gb_minor = 5\<rparr> in
   int 3601 * (int 3 * 2 + int 1 * 7) \<le> 60 * project_cost_minor crd 3 1 3601 PerHour \<and> project_cost_minor crd 3 1 3601 PerHour = 1147"
proof -
  define crd where "crd = \<lparr>pc_version = 1, pc_node_minute_minor = 2, pc_gpu_minute_minor = 7, pc_egress_gb_minor = 5\<rparr>"
  have p: "pc_node_minute_minor crd = 2" "pc_gpu_minute_minor crd = 7" by (simp_all add: crd_def)
  have "int 3601 * (int 3 * 2 + int 1 * 7) \<le> 60 * project_cost_minor crd 3 1 3601 PerHour"
    using projection_covers_run [of 3601 3 1 crd] by (simp add: p in_u32_def u32_max_def)
  moreover have "project_cost_minor crd 3 1 3601 PerHour = 1147" 
    by (simp add: project_cost_exact exact_cost_def p in_u32_def u32_max_def div_ceil_def)
  ultimately show ?thesis unfolding crd_def [symmetric] Let_def by blast
qed

text \<open>The ladder judges a broadcast by what it runs and owes. A quote of the ladder names the wallet of
  the broadcast's host in the currency of the newest rate card, offers at most what that wallet
  can spend, and has a price for everything in use: fan-out nodes, transcode nodes, and measured
  egress. The nodes are those in the table under the broadcast's id that are not gone, so a
  broadcast with none of them that delivers nothing costs nothing.\<close>

theorem ladder_quote_prices_what_runs:
  assumes q: "fst (ladder_quote \<phi> src b w) = Inr q" and b: "plain b" and n: "length (fleet_nodes (world_db w)) \<le> u32_max"
  shows "\<exists>host r crd milli window. host_row b (world_db w) = Some host \<and> find_wallet host (world_db w) = Some r
     \<and> wr_currency r = wb_currency src \<and> priced_card (card_rows (wb_currency src) (world_db w)) = Some crd
     \<and> fst (measured_egress b (world_db w)) = Inr (milli, window)
     \<and> bb_available_balance_minor q \<le> spendable_minor (wallet_of r)
     \<and> (let ns = filter (\<lambda>n. starts_with (nt_mm_node_id n) (''bc-'' @ b @ ''-'') \<and> nt_state n \<noteq> ''gone'') (fleet_nodes (world_db w)) in
          (list_ex (\<lambda>n. nt_flavor n = ''fanout'' \<or> nt_flavor n = ''edge'') ns \<longrightarrow> 0 < pc_node_minute_minor crd)
        \<and> (list_ex (\<lambda>n. nt_flavor n = ''transcode'') ns \<longrightarrow> 0 < pc_gpu_minute_minor crd)
        \<and> (0 < milli \<longrightarrow> 0 < pc_egress_gb_minor crd)
        \<and> (ns = [] \<and> milli = 0 \<longrightarrow> bb_projected_cost_minor q = 0))"
proof (cases rule: ladder_quote_cases [of \<phi> src b w])
  case (quoted host r crd mw projected us w')
  let ?d = "world_db w"
  let ?ns = "serving_nodes b ?d"
  have e: "bb_available_balance_minor q = available_after_owed (spendable_minor (wallet_of r)) (owed_minor crd us)"
    "bb_projected_cost_minor q = projected" using q quoted(9) by auto
  have "in_i64 (spendable_minor (wallet_of r))" by (simp add: spendable_minor_def)
  moreover have "0 \<le> max (owed_minor crd us) 0" by simp
  ultimately have av: "bb_available_balance_minor q \<le> spendable_minor (wallet_of r)"
    unfolding e(1) available_after_owed_def sat_sub_i64_def by (intro sat_i64_below) simp_all
  note run = running_counts [OF n, of b]
  have "\<not> (0 < ru_fanout_nodes (run_of b ?d mw) \<and> pc_node_minute_minor crd \<le> 0)"
    "\<not> (0 < ru_transcode_nodes (run_of b ?d mw) \<and> pc_gpu_minute_minor crd \<le> 0)"
    "\<not> (0 < ru_egress_milli_in_window (run_of b ?d mw) \<and> pc_egress_gb_minor crd \<le> 0)"
    using quoted(7) by (auto simp: project_run_cost_minor_def split: if_splits)
  then have prices: "list_ex (\<lambda>n. nt_flavor n = ''fanout'' \<or> nt_flavor n = ''edge'') ?ns \<longrightarrow> 0 < pc_node_minute_minor crd"
    "list_ex (\<lambda>n. nt_flavor n = ''transcode'') ?ns \<longrightarrow> 0 < pc_gpu_minute_minor crd" "0 < fst mw \<longrightarrow> 0 < pc_egress_gb_minor crd"
    by (auto simp: run_of_def run filter_empty_conv list_ex_iff)
  have zero: "projected = 0" if "?ns = []" "fst mw = 0"
    using quoted(7) that by (simp add: project_run_cost_minor_def run_of_def run project_cost_minor_def charge_minor_def
        sat_mul_i64_def sat_add_i64_def sat_i64_def i64_min_def i64_max_def wrap_i64_def Let_def)
  show ?thesis
    unfolding serving_nodes_plain [OF b, symmetric] Let_def
    using quoted(1-5) av prices zero e(2) by (intro exI [of _ host] exI [of _ r] exI [of _ crd] exI [of _ "fst mw"] exI [of _ "snd mw"]) simp
qed (use q in simp)

theorem ladder_quote_prices_what_runs_witness:
  "fst (ladder_quote no_faults (wallet_billing_new ''eur'') ''a'' ((quoted_db, ()), 0)) =
     Inr \<lparr>bb_available_balance_minor = 1000, bb_projected_cost_minor = 0, bb_transcode_enabled = True\<rparr>
   \<and> (\<exists>host r. host_row ''a'' quoted_db = Some host \<and> find_wallet host quoted_db = Some r \<and> wr_currency r = ''eur'')"
proof -
  have q: "fst (ladder_quote no_faults (wallet_billing_new ''eur'') ''a'' ((quoted_db, ()), 0)) =
     Inr \<lparr>bb_available_balance_minor = 1000, bb_projected_cost_minor = 0, bb_transcode_enabled = True\<rparr>" by code_simp
  have p: "plain ''a''" by code_simp
  have "length (fleet_nodes (world_db ((quoted_db, ()), 0))) \<le> u32_max" by (simp add: quoted_db_def metered_nodes)
  from ladder_quote_prices_what_runs [OF q p this] q show ?thesis by (auto simp: wallet_billing_new_def)
qed

end
