(* ===== verification/Ladder_Store.thy ===== *)
theory Ladder_Store
  imports Fleet_Quotes
begin

text \<open>
  The ladder's memory (\<^verbatim>\<open>crates/mm-db/src/ladder_db.rs\<close>): the page of live broadcasts, the state of
  one broadcast, the transaction that writes an evaluation with its events, and the two counts
  of the gauge. The recording gate and the drain verdict of \<^verbatim>\<open>crates/mm-api/src/ladder_actuator.rs\<close>,
  which read that memory, are here as well.

  Shown: writing an evaluation replaces the row of its broadcast and appends its events, or
  changes nothing; it touches no other row, no other broadcast's events and no other table.
\<close>

section \<open>Types\<close>

record demotion_state =
  ds_broadcast_id :: string
  ds_target_step :: string
  ds_applied_step :: string
  ds_entered_at :: instant
  ds_milder_streak :: int

record active_broadcast =
  ab_broadcast_id :: string
  ab_user_id :: string

datatype event_kind = DecisionEvent | AppliedEvent

fun event_kind_as_str :: "event_kind \<Rightarrow> string" where
  "event_kind_as_str DecisionEvent = ''decision''"
| "event_kind_as_str AppliedEvent = ''applied''"

record demotion_event =
  ev_kind :: event_kind
  ev_from_step :: string
  ev_to_step :: string
  ev_statement :: string

record evaluation =
  el_broadcast_id :: string
  el_user_id :: string
  el_target_step :: string
  el_applied_step :: string
  el_target_changed :: bool
  el_milder_streak :: int
  el_balance_minor :: int
  el_projected_cost_minor :: int
  el_events :: "demotion_event list"

section \<open>Statements\<close>

definition ladder_call :: "schedule \<Rightarrow> 'a query \<Rightarrow> 'x dbenv \<Rightarrow> (string + 'a) \<times> 'x dbenv" where
  "ladder_call \<phi> f w =
     (case sql \<phi> f w of (Inl e, w1) \<Rightarrow> (Inl (''ladder db: '' @ sql_text e), w1) | (Inr a, w1) \<Rightarrow> (Inr a, w1))"

definition past :: "string option \<Rightarrow> string \<Rightarrow> bool" where
  "past after i = (case after of None \<Rightarrow> True | Some a \<Rightarrow> a < i)"

definition live_rows :: "string option \<Rightarrow> int \<Rightarrow> db \<Rightarrow> active_broadcast list" where
  "live_rows after limit d =
     map (\<lambda>s. \<lparr>ab_broadcast_id = st_id s, ab_user_id = st_host_user_id s\<rparr>)
       (take (nat limit) (sort_key st_id (filter (\<lambda>s. st_status s = ''active'' \<and> past after (st_id s)) (streams d))))"

definition live_broadcasts_after :: "schedule \<Rightarrow> string option \<Rightarrow> int \<Rightarrow> 'x dbenv \<Rightarrow> (string + active_broadcast list) \<times> 'x dbenv" where
  "live_broadcasts_after \<phi> after limit = ladder_call \<phi> (reads (live_rows after limit))"

definition find_demotion :: "string \<Rightarrow> db \<Rightarrow> demotion_row option" where
  "find_demotion b d = lookup_row dm_broadcast_id b (broadcast_demotion d)"

definition state_row :: "string \<Rightarrow> db \<Rightarrow> demotion_state option" where
  "state_row b d = map_option (\<lambda>r. \<lparr>ds_broadcast_id = dm_broadcast_id r, ds_target_step = dm_target_step r,
     ds_applied_step = dm_applied_step r, ds_entered_at = dm_entered_at r, ds_milder_streak = dm_milder_streak r\<rparr>)
     (find_demotion b d)"

definition demotion_state_of :: "schedule \<Rightarrow> string \<Rightarrow> 'x dbenv \<Rightarrow> (string + demotion_state option) \<times> 'x dbenv" where
  "demotion_state_of \<phi> b = ladder_call \<phi> (reads (state_row b))"

definition demotion_merge :: "bool \<Rightarrow> demotion_row \<Rightarrow> demotion_row \<Rightarrow> demotion_row" where
  "demotion_merge target_changed old new = old\<lparr>dm_target_step := dm_target_step new, dm_applied_step := dm_applied_step new,
     dm_entered_at := (if target_changed then dm_entered_at new else dm_entered_at old), dm_evaluated_at := dm_evaluated_at new,
     dm_balance_minor := dm_balance_minor new, dm_projected_cost_minor := dm_projected_cost_minor new,
     dm_milder_streak := dm_milder_streak new\<rparr>"

definition evaluation_row :: "evaluation \<Rightarrow> instant \<Rightarrow> demotion_row" where
  "evaluation_row e now =
     \<lparr>dm_broadcast_id = el_broadcast_id e, dm_target_step = el_target_step e, dm_applied_step = el_applied_step e,
      dm_entered_at = now, dm_evaluated_at = now, dm_balance_minor = el_balance_minor e,
      dm_projected_cost_minor = el_projected_cost_minor e, dm_milder_streak = el_milder_streak e\<rparr>"

definition upsert_demotion :: "evaluation \<Rightarrow> instant \<Rightarrow> unit query" where
  "upsert_demotion e now d =
     (case demotion_checks (evaluation_row e now) of
        Some c \<Rightarrow> (Inl (Violates c), d)
      | None \<Rightarrow> (Inr (), d\<lparr>broadcast_demotion :=
          upsert dm_broadcast_id (demotion_merge (el_target_changed e)) (evaluation_row e now) (broadcast_demotion d)\<rparr>))"

definition event_row :: "evaluation \<Rightarrow> instant \<Rightarrow> demotion_event \<Rightarrow> demotion_event_row" where
  "event_row e now ev =
     \<lparr>de_broadcast_id = el_broadcast_id e, de_user_id = el_user_id e, de_from_step = ev_from_step ev,
      de_to_step = ev_to_step ev, de_balance_minor = el_balance_minor e,
      de_projected_cost_minor = el_projected_cost_minor e, de_statement = ev_statement ev,
      de_kind = event_kind_as_str (ev_kind ev), de_delivered_at = None, de_occurred_at = now\<rparr>"

fun insert_events :: "evaluation \<Rightarrow> instant \<Rightarrow> demotion_event list \<Rightarrow> unit query" where
  "insert_events e now [] d = (Inr (), d)"
| "insert_events e now (ev # evs) d =
     (case event_checks (event_row e now ev) of
        Some c \<Rightarrow> (Inl (Violates c), d)
      | None \<Rightarrow> insert_events e now evs (d\<lparr>demotion_events := demotion_events d @ [event_row e now ev]\<rparr>))"

text \<open>One transaction: on an error nothing of it remains.\<close>

definition evaluation_tx :: "evaluation \<Rightarrow> instant \<Rightarrow> unit query" where
  "evaluation_tx e now d =
     (case upsert_demotion e now d of
        (Inl er, _) \<Rightarrow> (Inl er, d)
      | (Inr _, d1) \<Rightarrow> (case insert_events e now (el_events e) d1 of (Inl er, _) \<Rightarrow> (Inl er, d) | (Inr _, d2) \<Rightarrow> (Inr (), d2)))"

definition record_evaluation :: "schedule \<Rightarrow> evaluation \<Rightarrow> instant \<Rightarrow> 'x dbenv \<Rightarrow> (string + unit) \<times> 'x dbenv" where
  "record_evaluation \<phi> e now = ladder_call \<phi> (evaluation_tx e now)"

definition live_demotions :: "db \<Rightarrow> demotion_row list" where
  "live_demotions d = filter (\<lambda>r. list_ex (\<lambda>s. st_id s = dm_broadcast_id r \<and> st_status s = ''active'') (streams d)) (broadcast_demotion d)"

definition count_steps :: "string \<Rightarrow> (demotion_row \<Rightarrow> string) \<Rightarrow> demotion_row list \<Rightarrow> (string \<times> string \<times> int) list" where
  "count_steps which step rows =
     map (\<lambda>s. (which, s, int (length (filter (\<lambda>r. step r = s) rows)))) (remdups (map step rows))"

definition live_step_counts :: "schedule \<Rightarrow> 'x dbenv \<Rightarrow> (string + (string \<times> string \<times> int) list) \<times> 'x dbenv" where
  "live_step_counts \<phi> = ladder_call \<phi> (reads (\<lambda>d.
     count_steps ''target'' dm_target_step (live_demotions d) @ count_steps ''applied'' dm_applied_step (live_demotions d)))"

definition undelivered_statements :: "schedule \<Rightarrow> 'x dbenv \<Rightarrow> (string + int) \<times> 'x dbenv" where
  "undelivered_statements \<phi> = ladder_call \<phi> (reads (\<lambda>d.
     int (length (filter (\<lambda>e. de_delivered_at e = None \<and> de_kind e = ''applied'') (demotion_events d)))))"

section \<open>The recording gate and the drain\<close>

definition recording_refused :: string where
  "recording_refused = ''Recording is paused for this broadcast because its balance does not cover the projected cost of the rest of it. Adding funds lifts this.''"

definition recording_blocked_at :: "rung option \<Rightarrow> bool" where
  "recording_blocked_at applied = (case applied of None \<Rightarrow> False | Some step \<Rightarrow> \<not> allows_recording step)"

text \<open>Whether there is a pool is the deployment's choice.\<close>

definition recording_refusal :: "schedule \<Rightarrow> bool \<Rightarrow> string \<Rightarrow> 'x dbenv \<Rightarrow> string option \<times> 'x dbenv" where
  "recording_refusal \<phi> pool b w =
     (if \<not> pool then (None, w)
      else case demotion_state_of \<phi> b w of
        (Inl e, w1) \<Rightarrow> (None, w1)
      | (Inr s, w1) \<Rightarrow>
          (if recording_blocked_at (Option.bind s (\<lambda>s. step_parse (ds_applied_step s))) then Some recording_refused else None, w1))"

definition drain_verdict :: "nat \<Rightarrow> string + unit" where
  "drain_verdict serving =
     (if serving = 0 then Inr ()
      else Inl (show_nat serving @ '' fan-out node(s) serve this broadcast, and draining live viewers is not implemented: nothing can tell a connected viewer to move (FR-502 is unbuilt), and forgetting the node would leave them on an unmetered node. Viewers stay where they are; the ladder retries.''))"

text \<open>The drain, given the ids of the switch pool's nodes when there is a pool.\<close>

definition drain_pool :: "string list option \<Rightarrow> string \<Rightarrow> string + unit" where
  "drain_pool pool b =
     (case pool of None \<Rightarrow> Inr ()
      | Some ids \<Rightarrow> drain_verdict (length (filter (\<lambda>i. starts_with i (''bc-'' @ b @ ''-'')) ids)))"

section \<open>Lemmas\<close>

lemma ladder_call_db: "world_db (snd (ladder_call \<phi> f w)) = world_db (snd (sql \<phi> f w))"
  unfolding ladder_call_def by simp

lemma ladder_reads_step:
  assumes "ladder_call \<phi> (reads q) w = (r, w1)"
  shows "fst w1 = fst w" and "r = Inr a \<Longrightarrow> a = q (world_db w)"
proof -
  obtain x w2 where s: "sql \<phi> (reads q) w = (x, w2)" by (cases "sql \<phi> (reads q) w")
  note t = sql_reads_step [OF s]
  show "fst w1 = fst w" and "r = Inr a \<Longrightarrow> a = q (world_db w)"
    using assms s t by (cases x; auto simp: ladder_call_def)+
qed

interpretation demotion_tbl: keyed_table dm_broadcast_id "demotion_merge c" for c
  by unfold_locales (simp add: demotion_merge_def)

text \<open>What the transaction leaves: the row and the events of its broadcast, or nothing.\<close>

definition written :: "evaluation \<Rightarrow> instant \<Rightarrow> db \<Rightarrow> db" where
  "written e now d = d\<lparr>broadcast_demotion :=
      upsert dm_broadcast_id (demotion_merge (el_target_changed e)) (evaluation_row e now) (broadcast_demotion d),
    demotion_events := demotion_events d @ map (event_row e now) (el_events e)\<rparr>"

lemma insert_events_effect:
  "insert_events e now evs d = (Inr (), d') \<Longrightarrow> d' = d\<lparr>demotion_events := demotion_events d @ map (event_row e now) evs\<rparr>"
proof (induction evs arbitrary: d)
  case (Cons ev evs)
  then have "insert_events e now evs (d\<lparr>demotion_events := demotion_events d @ [event_row e now ev]\<rparr>) = (Inr (), d')"
    by (auto split: option.splits)
  from Cons.IH [OF this] show ?case by simp
qed simp

lemma evaluation_tx_cases:
  obtains (refused) er where "evaluation_tx e now d = (Inl er, d)"
  | (stored) "evaluation_tx e now d = (Inr (), written e now d)" "demotion_checks (evaluation_row e now) = None"
proof (cases "evaluation_tx e now d")
  case (Pair r d')
  show thesis
  proof (cases r)
    case (Inl er)
    then have "evaluation_tx e now d = (Inl er, d)" using Pair
      by (auto simp: evaluation_tx_def upsert_demotion_def split: option.splits sum.splits prod.splits)
    then show thesis by (rule refused)
  next
    case (Inr u)
    then have "d' = written e now d \<and> demotion_checks (evaluation_row e now) = None" using Pair insert_events_effect
      by (fastforce simp: evaluation_tx_def upsert_demotion_def written_def split: option.splits sum.splits prod.splits)
    then show thesis using stored Pair Inr by simp
  qed
qed

lemma record_evaluation_cases:
  obtains (lost) er w' where "record_evaluation \<phi> e now w = (Inl er, w')" "world_db w' = world_db w" "world_env w' = world_env w"
  | (stored) r w' where "record_evaluation \<phi> e now w = (r, w')" "world_db w' = written e now (world_db w)"
      "demotion_checks (evaluation_row e now) = None" "world_env w' = world_env w"
proof -
  obtain r w' where s: "sql \<phi> (evaluation_tx e now) w = (r, w')" by (cases "sql \<phi> (evaluation_tx e now) w")
  have env: "world_env w' = world_env w" using sql_env [of \<phi> "evaluation_tx e now" w] s by simp
  show thesis
  proof (cases rule: evaluation_tx_cases [of e now "world_db w"])
    case (refused er)
    then have "world_db w' = world_db w" using sql_db [of \<phi> "evaluation_tx e now" w] s by auto
    moreover obtain x where "r = Inl x" using sql_Inr [of \<phi> "evaluation_tx e now" w] s refused by (cases r) auto
    ultimately show thesis using s env by (intro lost [where w' = w']) (auto simp: record_evaluation_def ladder_call_def)
  next
    case stored2: stored
    show thesis
    proof (cases "world_db w' = written e now (world_db w)")
      case True
      obtain r' where "record_evaluation \<phi> e now w = (r', w')" using s by (cases r) (auto simp: record_evaluation_def ladder_call_def)
      then show thesis using True stored2 env by (intro stored [where w' = w'])
    next
      case False
      then have "world_db w' = world_db w" using sql_db [of \<phi> "evaluation_tx e now" w] s stored2 by auto
      moreover obtain x where "r = Inl x" using sql_Inr [of \<phi> "evaluation_tx e now" w] s stored2 False by (cases r) auto
      ultimately show thesis using s env by (intro lost [where w' = w']) (auto simp: record_evaluation_def ladder_call_def)
    qed
  qed
qed

lemma find_demotion_written:
  "find_demotion b (written e now d) =
     (if b = el_broadcast_id e then Some (case find_demotion b d of None \<Rightarrow> evaluation_row e now
        | Some r \<Rightarrow> demotion_merge (el_target_changed e) r (evaluation_row e now))
      else find_demotion b d)"
proof -
  have k: "dm_broadcast_id (evaluation_row e now) = el_broadcast_id e" by (simp add: evaluation_row_def)
  show ?thesis unfolding find_demotion_def written_def
    using demotion_tbl.upsert_lookup_same [of "evaluation_row e now" "el_target_changed e" "broadcast_demotion d"]
      demotion_tbl.upsert_lookup_other [of b "evaluation_row e now" "el_target_changed e" "broadcast_demotion d"]
    by (simp add: k)
qed

end
