(* ===== verification/Ladder_Loop.thy ===== *)
theory Ladder_Loop
  imports Ladder_Store
begin

text \<open>
  The ladder's loop (\<^verbatim>\<open>crates/mm-fleet/src/ladder_loop.rs\<close>): one evaluation of one broadcast (quote,
  rung, reconciliation with what is in force, audit record) and the tick that walks all live
  broadcasts in pages. The actuator is a record of operations on the world, since ending a
  broadcast changes the database; its contract is a locale, met by the recording actuator of
  the same file.

  The walk in pages is a loop that a badly behaved list of broadcasts could keep alive, so it is
  a partial function. Shown here: what one evaluation can change, whatever fails. The properties
  of whole ticks are in the next theory.
\<close>

section \<open>Actuators\<close>

record 'x ladder_actuator =
  stop_recording :: "string \<Rightarrow> 'x dbenv \<Rightarrow> (string + unit) \<times> 'x dbenv"
  drain_to_origin :: "string \<Rightarrow> 'x dbenv \<Rightarrow> (string + unit) \<times> 'x dbenv"
  end_with_slate :: "string \<Rightarrow> string \<Rightarrow> 'x dbenv \<Rightarrow> (string + unit) \<times> 'x dbenv"

definition push_call :: "string \<Rightarrow> string list dbenv \<Rightarrow> (string + unit) \<times> string list dbenv" where
  "push_call c = drives (\<lambda>calls. (Inr (), calls @ [c]))"

definition recording_actuator :: "string list ladder_actuator" where
  "recording_actuator =
     \<lparr>stop_recording = (\<lambda>b. push_call (''stop_recording:'' @ b)),
      drain_to_origin = (\<lambda>b. push_call (''drain_to_origin:'' @ b)),
      end_with_slate = (\<lambda>b _. push_call (''end_with_slate:'' @ b))\<rparr>"

section \<open>Reports and statements\<close>

record ladder_report =
  lr_evaluated :: nat
  lr_moved :: "(string \<times> rung \<times> rung) list"
  lr_applied :: "(string \<times> rung \<times> rung) list"
  lr_withheld :: "(string \<times> rung) list"
  lr_unpriceable :: "(string \<times> string) list"
  lr_actuation_failures :: "(string \<times> string) list"

definition empty_ladder_report :: ladder_report where
  "empty_ladder_report = \<lparr>lr_evaluated = 0, lr_moved = [], lr_applied = [], lr_withheld = [], lr_unpriceable = [],
     lr_actuation_failures = []\<rparr>"

fun action_text :: "rung \<Rightarrow> string" where
  "action_text HealthyStep = ''Your balance covers the projected cost, and the restrictions on this broadcast have been lifted. If recording was stopped, it does not restart on its own: start it again to resume recording.''"
| "action_text StopProvisioning = ''No additional streaming capacity will be added for this broadcast. Nothing changes for viewers who are already watching. Adding funds restores normal service.''"
| "action_text ReduceQuality = ''Recording has been stopped and streaming quality has been reduced for this broadcast. Viewers can still watch. Adding funds restores normal service.''"
| "action_text DrainToOrigin = ''Viewers are being moved back to the main server, which may briefly interrupt their playback and may reduce capacity for large audiences. The broadcast continues. Adding funds restores normal service.''"
| "action_text EndWithSlate = ''This broadcast has been ended because the balance available for it has run out. Viewers were shown a notice rather than losing the stream without explanation.''"
| "action_text Overrun = ''This broadcast has ended with an outstanding balance. No further service is affected; the amount remains payable.''"

definition statement_for :: "rung \<Rightarrow> int \<Rightarrow> int \<Rightarrow> string" where
  "statement_for step balance projected =
     (let money = ''Your balance is '' @ show_int balance @ '' and the cost projected for the rest of this broadcast is '' @
            show_int projected @ '' (in minor currency units).''
      in action_text step @ '' '' @ money)"

section \<open>Actuation\<close>

definition apply_rung :: "'x ladder_actuator \<Rightarrow> string \<Rightarrow> string \<Rightarrow> rung \<Rightarrow> 'x dbenv \<Rightarrow> (string + unit) \<times> 'x dbenv" where
  "apply_rung act b statement r w =
     (case r of
        ReduceQuality \<Rightarrow> stop_recording act b w
      | DrainToOrigin \<Rightarrow> drain_to_origin act b w
      | EndWithSlate \<Rightarrow> end_with_slate act b statement w
      | _ \<Rightarrow> (Inr (), w))"

fun actuate_rungs :: "'x ladder_actuator \<Rightarrow> bool \<Rightarrow> string \<Rightarrow> string \<Rightarrow> rung list \<Rightarrow> rung \<Rightarrow> bool \<Rightarrow> string list \<Rightarrow>
    'x dbenv \<Rightarrow> (rung \<times> string list) \<times> 'x dbenv" where
  "actuate_rungs act ending b statement [] reached blocked errors w = ((reached, errors), w)"
| "actuate_rungs act ending b statement (r # rs) reached blocked errors w =
     (case apply_rung act b statement r w of
        (Inr _, w1) \<Rightarrow>
          actuate_rungs act ending b statement rs (if \<not> blocked \<or> r = EndWithSlate then r else reached) blocked errors w1
      | (Inl e, w1) \<Rightarrow>
          (let errors' = errors @ [step_as_str r @ '': '' @ e] in
           if \<not> ending then ((reached, errors'), w1)
           else actuate_rungs act ending b statement rs reached True errors' w1))"

fun join_with :: "string \<Rightarrow> string list \<Rightarrow> string" where
  "join_with sep [] = []"
| "join_with sep [x] = x"
| "join_with sep (x # y # ys) = x @ sep @ join_with sep (y # ys)"

definition actuate :: "'x ladder_actuator \<Rightarrow> rung \<Rightarrow> rung \<Rightarrow> string \<Rightarrow> string \<Rightarrow> 'x dbenv \<Rightarrow>
    (rung \<times> string option) \<times> 'x dbenv" where
  "actuate act frm dest b statement w =
     (case actuate_rungs act (dest = EndWithSlate) b statement (filter (\<lambda>r. frm < r \<and> r \<le> dest) step_all) frm False [] w of
        ((reached, errors), w1) \<Rightarrow>
          if reached = EndWithSlate then ((reached, None), w1)
          else ((reached, if errors \<noteq> [] then Some (join_with ''; '' errors) else None), w1))"

section \<open>One broadcast\<close>

text \<open>The rung in a persisted column, healthy when there is no row or no such rung.\<close>

definition persisted_rung :: "(demotion_state \<Rightarrow> string) \<Rightarrow> demotion_state option \<Rightarrow> rung" where
  "persisted_rung col persisted =
     (case Option.bind persisted (\<lambda>s. step_parse (col s)) of None \<Rightarrow> HealthyStep | Some r \<Rightarrow> r)"

definition persisted_streak :: "demotion_state option \<Rightarrow> nat" where
  "persisted_streak persisted = (case persisted of None \<Rightarrow> 0 | Some s \<Rightarrow> i32_clamp_u32 (ds_milder_streak s))"

definition transition_of :: "ladder_policy \<Rightarrow> broadcast_billing \<Rightarrow> demotion_state option \<Rightarrow> ladder_transition" where
  "transition_of policy q persisted =
     (let target_before = persisted_rung ds_target_step persisted;
          applied_before = persisted_rung ds_applied_step persisted;
          computed = demotion_step \<lparr>balance_minor = bb_available_balance_minor q,
            projected_cost_remaining_minor = bb_projected_cost_minor q, lo_programme_is_live = True\<rparr> policy
      in next_step target_before computed (persisted_streak persisted) (is_terminal applied_before) policy)"

definition quoted_statement :: "rung \<Rightarrow> broadcast_billing \<Rightarrow> string" where
  "quoted_statement r q = statement_for r (bb_available_balance_minor q) (bb_projected_cost_minor q)"

definition change_event :: "event_kind \<Rightarrow> rung \<Rightarrow> rung \<Rightarrow> string \<Rightarrow> demotion_event" where
  "change_event k frm dest statement =
     \<lparr>ev_kind = k, ev_from_step = step_as_str frm, ev_to_step = step_as_str dest, ev_statement = statement\<rparr>"

definition reconcile :: "'x ladder_actuator \<Rightarrow> ladder_mode \<Rightarrow> string \<Rightarrow> broadcast_billing \<Rightarrow> rung \<Rightarrow> rung \<Rightarrow> 'x dbenv \<Rightarrow>
    (rung \<times> demotion_event list \<times> string list) \<times> 'x dbenv" where
  "reconcile act mode b q target applied_before w =
     (let want = cap mode target in
      if applied_before < want then
        (let statement = quoted_statement want q in
         case actuate act applied_before want b statement w of
           ((reached, failure), w1) \<Rightarrow>
             ((if applied_before < reached
               then (reached, [change_event AppliedEvent applied_before reached
                       (if reached = want then statement else quoted_statement reached q)], case failure of None \<Rightarrow> [] | Some e \<Rightarrow> [e])
               else (applied_before, [], case failure of None \<Rightarrow> [] | Some e \<Rightarrow> [e])), w1))
      else if target < applied_before then
        ((target, [change_event AppliedEvent applied_before target (quoted_statement target q)], []), w)
      else ((applied_before, [], []), w))"

definition keep_stopped :: "'x ladder_actuator \<Rightarrow> string \<Rightarrow> rung \<Rightarrow> rung \<Rightarrow> 'x dbenv \<Rightarrow> string list \<times> 'x dbenv" where
  "keep_stopped act b applied_before applied w =
     (if \<not> allows_recording applied_before \<and> \<not> allows_recording applied \<and> programme_continues applied then
        (case stop_recording act b w of
           (Inl e, w1) \<Rightarrow> ([''keeping the recording stopped failed: '' @ e], w1) | (Inr _, w1) \<Rightarrow> ([], w1))
      else ([], w))"

definition evaluate_priced :: "schedule \<Rightarrow> 'x ladder_actuator \<Rightarrow> ladder_mode \<Rightarrow> ladder_policy \<Rightarrow> instant \<Rightarrow> active_broadcast \<Rightarrow>
    broadcast_billing \<Rightarrow> demotion_state option \<Rightarrow> ladder_report \<Rightarrow> 'x dbenv \<Rightarrow> ladder_report \<times> 'x dbenv" where
  "evaluate_priced \<phi> act mode policy now bc q persisted report w =
     (let b = ab_broadcast_id bc;
          target_before = persisted_rung ds_target_step persisted;
          applied_before = persisted_rung ds_applied_step persisted;
          tr = transition_of policy q persisted;
          target = lt_step tr;
          want = cap mode target;
          decisions = (if lt_moved tr then [change_event DecisionEvent target_before target (quoted_statement target q)] else [])
      in case reconcile act mode b q target applied_before w of
        ((applied, actions, failures), w1) \<Rightarrow>
          (case keep_stopped act b applied_before applied w1 of
             (again, w2) \<Rightarrow>
               (case record_evaluation \<phi> \<lparr>el_broadcast_id = b, el_user_id = ab_user_id bc, el_target_step = step_as_str target,
                    el_applied_step = step_as_str applied, el_target_changed = lt_moved tr,
                    el_milder_streak = u32_as_i32 (lt_milder_streak tr), el_balance_minor = bb_available_balance_minor q,
                    el_projected_cost_minor = bb_projected_cost_minor q, el_events = decisions @ actions\<rparr> now w2 of
                  (r, w3) \<Rightarrow>
                    (report\<lparr>lr_moved := lr_moved report @ (if lt_moved tr then [(b, target_before, target)] else []),
                       lr_applied := lr_applied report @ (if applied \<noteq> applied_before then [(b, applied_before, applied)] else []),
                       lr_withheld := lr_withheld report @ (if want < target \<and> mode \<noteq> Observe then [(b, target)] else []),
                       lr_actuation_failures := lr_actuation_failures report @ map (Pair b) (failures @ again @
                         (case r of Inl e \<Rightarrow> [''recording the evaluation failed: '' @ e] | Inr _ \<Rightarrow> []))\<rparr>, w3))))"

definition evaluate_one :: "schedule \<Rightarrow> 'x quote \<Rightarrow> 'x ladder_actuator \<Rightarrow> ladder_mode \<Rightarrow> ladder_policy \<Rightarrow> instant \<Rightarrow>
    active_broadcast \<Rightarrow> ladder_report \<Rightarrow> 'x dbenv \<Rightarrow> ladder_report \<times> 'x dbenv" where
  "evaluate_one \<phi> quote act mode policy now bc report w =
     (let b = ab_broadcast_id bc in
      case quote b w of
        (Inl e, w1) \<Rightarrow> (report\<lparr>lr_unpriceable := lr_unpriceable report @ [(b, e)]\<rparr>, w1)
      | (Inr q, w1) \<Rightarrow>
          (case demotion_state_of \<phi> b w1 of
             (Inl e, w2) \<Rightarrow> (report\<lparr>lr_unpriceable := lr_unpriceable report @ [(b, ''reading the rung failed: '' @ e)]\<rparr>, w2)
           | (Inr persisted, w2) \<Rightarrow> evaluate_priced \<phi> act mode policy now bc q persisted report w2))"

section \<open>One tick\<close>

fun evaluate_page :: "schedule \<Rightarrow> 'x quote \<Rightarrow> 'x ladder_actuator \<Rightarrow> ladder_mode \<Rightarrow> ladder_policy \<Rightarrow> instant \<Rightarrow>
    active_broadcast list \<Rightarrow> ladder_report \<Rightarrow> 'x dbenv \<Rightarrow> ladder_report \<times> 'x dbenv" where
  "evaluate_page \<phi> quote act mode policy now [] report w = (report, w)"
| "evaluate_page \<phi> quote act mode policy now (bc # bcs) report w =
     (case evaluate_one \<phi> quote act mode policy now bc (report\<lparr>lr_evaluated := lr_evaluated report + 1\<rparr>) w of
        (report1, w1) \<Rightarrow> evaluate_page \<phi> quote act mode policy now bcs report1 w1)"

partial_function (option) tick_pages :: "schedule \<Rightarrow> 'x quote \<Rightarrow> 'x ladder_actuator \<Rightarrow> ladder_mode \<Rightarrow> ladder_policy \<Rightarrow> int \<Rightarrow>
    instant \<Rightarrow> string option \<Rightarrow> ladder_report \<Rightarrow> 'x dbenv \<Rightarrow> ((string + ladder_report) \<times> 'x dbenv) option" where
  "tick_pages \<phi> quote act mode policy page_size now after report w =
     (case live_broadcasts_after \<phi> after (max page_size 1) w of
        (Inl e, w1) \<Rightarrow> Some (Inl (''listing live broadcasts failed: '' @ e), w1)
      | (Inr page, w1) \<Rightarrow>
          if page = [] then Some (Inr report, w1)
          else (case evaluate_page \<phi> quote act mode policy now page report w1 of
                  (report1, w2) \<Rightarrow>
                    tick_pages \<phi> quote act mode policy page_size now (Some (ab_broadcast_id (last page))) report1 w2))"

definition ladder_tick :: "schedule \<Rightarrow> 'x quote \<Rightarrow> 'x ladder_actuator \<Rightarrow> ladder_mode \<Rightarrow> ladder_policy \<Rightarrow> int \<Rightarrow> instant \<Rightarrow>
    'x dbenv \<Rightarrow> ((string + ladder_report) \<times> 'x dbenv) option" where
  "ladder_tick \<phi> quote act mode policy page_size now w =
     tick_pages \<phi> quote act mode policy page_size now None empty_ladder_report w"

declare tick_pages.simps [code]

section \<open>What an actuator may change\<close>

text \<open>The ladder's tables stay, and of the broadcasts only the one the call names may change.\<close>

definition keeps_others :: "string \<Rightarrow> db \<Rightarrow> db \<Rightarrow> bool" where
  "keeps_others b d d' \<longleftrightarrow> broadcast_demotion d' = broadcast_demotion d \<and> demotion_events d' = demotion_events d
     \<and> filter (\<lambda>s. st_id s \<noteq> b) (streams d') = filter (\<lambda>s. st_id s \<noteq> b) (streams d)"

lemma keeps_others_refl [simp]: "keeps_others b d d"
  by (simp add: keeps_others_def)

lemma keeps_others_trans: "keeps_others b d d1 \<Longrightarrow> keeps_others b d1 d2 \<Longrightarrow> keeps_others b d d2"
  by (simp add: keeps_others_def)

locale ladder_actuator_contract =
  fixes act :: "'x ladder_actuator"
  assumes stop_keeps: "keeps_others b (world_db w) (world_db (snd (stop_recording act b w)))"
    and drain_keeps: "keeps_others b (world_db w) (world_db (snd (drain_to_origin act b w)))"
    and end_keeps: "keeps_others b (world_db w) (world_db (snd (end_with_slate act b statement w)))"
begin

lemma apply_rung_keeps: "keeps_others b (world_db w) (world_db (snd (apply_rung act b st r w)))"
  by (cases r) (simp_all add: apply_rung_def stop_keeps drain_keeps end_keeps)

lemma actuate_rungs_keeps:
  "keeps_others b (world_db w) (world_db (snd (actuate_rungs act ending b st rs reached blocked errors w)))"
proof (induction rs arbitrary: reached blocked errors w)
  case (Cons r rs)
  obtain x w1 where a: "apply_rung act b st r w = (x, w1)" by (cases "apply_rung act b st r w")
  then have "keeps_others b (world_db w) (world_db w1)" using apply_rung_keeps [of b w st r] by simp
  then have "keeps_others b (world_db w) (world_db (snd (actuate_rungs act ending b st rs rc bl er w1)))" for rc bl er
    using Cons.IH keeps_others_trans by blast
  then show ?case using a \<open>keeps_others b (world_db w) (world_db w1)\<close> by (cases x; cases ending) (simp_all add: Let_def)
qed simp

lemma actuate_keeps: "keeps_others b (world_db w) (world_db (snd (actuate act frm dest b st w)))"
  using actuate_rungs_keeps [of b w "dest = EndWithSlate" st "filter (\<lambda>r. frm < r \<and> r \<le> dest) step_all" frm False "[]"]
  by (auto simp: actuate_def split: prod.splits)

lemma reconcile_keeps: "keeps_others b (world_db w) (world_db (snd (reconcile act mode b q t a w)))"
  using actuate_keeps [of b w a "cap mode t" "quoted_statement (cap mode t) q"]
  by (auto simp: reconcile_def Let_def split: prod.splits)

lemma keep_stopped_keeps: "keeps_others b (world_db w) (world_db (snd (keep_stopped act b a a' w)))"
  using stop_keeps [of b w] by (auto simp: keep_stopped_def split: prod.splits sum.splits)

end

interpretation recording: ladder_actuator_contract recording_actuator
  by unfold_locales (simp_all add: recording_actuator_def push_call_def)

section \<open>What an evaluation changes\<close>

lemma actuate_rungs_reached:
  "fst (fst (actuate_rungs act ending b st rs reached blocked errors w)) \<in> insert reached (set rs)"
proof (induction rs arbitrary: reached blocked errors w)
  case (Cons r rs)
  obtain x w1 where a: "apply_rung act b st r w = (x, w1)" by (cases "apply_rung act b st r w")
  show ?case
  proof (cases x)
    case (Inl e)
    then show ?thesis using a Cons.IH [of reached True "errors @ [step_as_str r @ '': '' @ e]" w1] by (auto simp: Let_def)
  next
    case (Inr u)
    then show ?thesis using a Cons.IH [of "if \<not> blocked \<or> r = EndWithSlate then r else reached" blocked errors w1]
      by (auto split: if_splits)
  qed
qed simp

lemma actuate_reached:
  assumes "actuate act frm dest b st w = ((reached, failure), w1)"
  shows "reached = frm \<or> frm < reached \<and> reached \<le> dest"
proof -
  have "reached \<in> insert frm (set (filter (\<lambda>r. frm < r \<and> r \<le> dest) step_all))"
    using assms actuate_rungs_reached [of act "dest = EndWithSlate" b st "filter (\<lambda>r. frm < r \<and> r \<le> dest) step_all" frm False "[]" w]
    by (auto simp: actuate_def split: prod.splits if_splits)
  then show ?thesis by auto
qed

text \<open>The rung applied is at most the target, and a change of it comes with one event that says so.\<close>

lemma statement_nonempty [simp]: "quoted_statement r q \<noteq> []"
  by (simp add: quoted_statement_def statement_for_def Let_def)

lemma reconcile_applied:
  assumes "reconcile act mode b q t a w = ((a', evs, fs), w1)"
  shows "a' \<le> t" and "evs = (if a' = a then [] else [change_event AppliedEvent a a' (quoted_statement a' q)])"
proof -
  have "a' \<le> t \<and> evs = (if a' = a then [] else [change_event AppliedEvent a a' (quoted_statement a' q)])"
  proof (cases "a < cap mode t")
    case True
    obtain reached failure w2 where r: "actuate act a (cap mode t) b (quoted_statement (cap mode t) q) w = ((reached, failure), w2)"
      by (metis prod.collapse)
    from actuate_reached [OF r] cap_le [of mode t] True show ?thesis
      using assms r by (auto simp: reconcile_def Let_def split: if_splits)
  next
    case False
    then show ?thesis using assms by (auto simp: reconcile_def Let_def split: if_splits)
  qed
  then show "a' \<le> t" and "evs = (if a' = a then [] else [change_event AppliedEvent a a' (quoted_statement a' q)])" by auto
qed

lemma moved_iff: "lt_moved (next_step r c k e p) \<longleftrightarrow> lt_step (next_step r c k e p) \<noteq> r"
  by (auto simp: next_step_def Let_def)

text \<open>An evaluation in line with the row it replaces.\<close>

definition rung_at :: "(demotion_state \<Rightarrow> string) \<Rightarrow> string \<Rightarrow> db \<Rightarrow> rung" where
  "rung_at col b d = persisted_rung col (state_row b d)"

definition in_line :: "string \<Rightarrow> db \<Rightarrow> evaluation \<Rightarrow> bool" where
  "in_line b d e \<longleftrightarrow> el_broadcast_id e = b \<and> (\<exists>t a q. el_target_step e = step_as_str t \<and> el_applied_step e = step_as_str a \<and> a \<le> t
     \<and> el_events e = (if t = rung_at ds_target_step b d then []
           else [change_event DecisionEvent (rung_at ds_target_step b d) t (quoted_statement t q)])
         @ (if a = rung_at ds_applied_step b d then []
            else [change_event AppliedEvent (rung_at ds_applied_step b d) a (quoted_statement a q)]))"

lemma in_line_frame: "broadcast_demotion d' = broadcast_demotion d \<Longrightarrow> in_line b d' e = in_line b d e"
  by (simp only: in_line_def rung_at_def state_row_def find_demotion_def)

text \<open>A report only grows, and counts what it is told to count.\<close>

definition grows :: "ladder_report \<Rightarrow> ladder_report \<Rightarrow> bool" where
  "grows rep rep' \<longleftrightarrow> lr_evaluated rep' = lr_evaluated rep \<and> set (lr_unpriceable rep) \<subseteq> set (lr_unpriceable rep')
     \<and> set (lr_actuation_failures rep) \<subseteq> set (lr_actuation_failures rep')"

context ladder_actuator_contract
begin

lemma evaluate_priced_cases [consumes 1, case_names lost stored]:
  assumes p: "persisted = state_row (ab_broadcast_id bc) (world_db w)"
  obtains (lost) rep' w' er where "evaluate_priced \<phi> act mode policy now bc q persisted rep w = (rep', w')"
      "grows rep rep'" "(ab_broadcast_id bc, er) \<in> set (lr_actuation_failures rep')"
      "keeps_others (ab_broadcast_id bc) (world_db w) (world_db w')"
  | (stored) rep' w' e d1 where "evaluate_priced \<phi> act mode policy now bc q persisted rep w = (rep', w')"
      "grows rep rep'" "keeps_others (ab_broadcast_id bc) (world_db w) d1" "world_db w' = written e now d1"
      "in_line (ab_broadcast_id bc) (world_db w) e"
proof -
  let ?b = "ab_broadcast_id bc" and ?tr = "transition_of policy q persisted"
  let ?a = "persisted_rung ds_applied_step persisted" and ?t = "persisted_rung ds_target_step persisted"
  obtain a' evs fs w1 where r: "reconcile act mode ?b q (lt_step ?tr) ?a w = ((a', evs, fs), w1)"
    by (metis prod.collapse)
  obtain again w2 where k: "keep_stopped act ?b ?a a' w1 = (again, w2)" by (metis prod.collapse)
  define e where "e = \<lparr>el_broadcast_id = ?b, el_user_id = ab_user_id bc, el_target_step = step_as_str (lt_step ?tr),
     el_applied_step = step_as_str a', el_target_changed = lt_moved ?tr, el_milder_streak = u32_as_i32 (lt_milder_streak ?tr),
     el_balance_minor = bb_available_balance_minor q, el_projected_cost_minor = bb_projected_cost_minor q,
     el_events = (if lt_moved ?tr then [change_event DecisionEvent ?t (lt_step ?tr) (quoted_statement (lt_step ?tr) q)] else []) @ evs\<rparr>"
  obtain x w3 where s: "record_evaluation \<phi> e now w2 = (x, w3)" by (metis prod.collapse)
  obtain rep' where ev: "evaluate_priced \<phi> act mode policy now bc q persisted rep w = (rep', w3)" "grows rep rep'"
    "\<And>er. x = Inl er \<Longrightarrow> (?b, ''recording the evaluation failed: '' @ er) \<in> set (lr_actuation_failures rep')"
    using r k s unfolding evaluate_priced_def e_def Let_def by (auto simp: grows_def)
  have keeps: "keeps_others ?b (world_db w) (world_db w2)"
    using reconcile_keeps [of ?b w mode q "lt_step ?tr" ?a] keep_stopped_keeps [of ?b w1 ?a a'] r k
    by (auto intro: keeps_others_trans)
  have moved: "lt_moved ?tr \<longleftrightarrow> lt_step ?tr \<noteq> ?t" unfolding transition_of_def Let_def by (rule moved_iff)
  have line: "in_line ?b (world_db w) e"
    using reconcile_applied [OF r] moved unfolding in_line_def rung_at_def p [symmetric]
    by (intro conjI exI [of _ "lt_step ?tr"] exI [of _ a'] exI [of _ q]) (simp_all add: e_def)
  show thesis
  proof (cases rule: record_evaluation_cases [of \<phi> e now w2])
    case l: (lost er w')
    then show thesis using s ev keeps by (intro lost [of rep' w3 "''recording the evaluation failed: '' @ er"]) simp_all
  next
    case (stored r' w')
    then show thesis using s ev keeps line by (intro that(2) [of rep' w3 "world_db w2" e]) simp_all
  qed
qed

end

locale ladder_wiring = billing_source quote + ladder_actuator_contract act
  for quote :: "'x quote" and act :: "'x ladder_actuator"
begin

lemma evaluate_one_cases:
  obtains (lost) rep' w' er where "evaluate_one \<phi> quote act mode policy now bc rep w = (rep', w')" "grows rep rep'"
      "(ab_broadcast_id bc, er) \<in> set (lr_unpriceable rep') \<union> set (lr_actuation_failures rep')"
      "keeps_others (ab_broadcast_id bc) (world_db w) (world_db w')"
  | (stored) rep' w' e d1 where "evaluate_one \<phi> quote act mode policy now bc rep w = (rep', w')" "grows rep rep'"
      "keeps_others (ab_broadcast_id bc) (world_db w) d1" "world_db w' = written e now d1"
      "in_line (ab_broadcast_id bc) (world_db w) e"
proof -
  let ?b = "ab_broadcast_id bc"
  obtain x w1 where q: "quote ?b w = (x, w1)" by (metis prod.collapse)
  then have w1: "fst w1 = fst w" using quote_reads [of ?b w] by simp
  obtain y w2 where st: "demotion_state_of \<phi> ?b w1 = (y, w2)" by (metis prod.collapse)
  note rd = ladder_reads_step [OF st [unfolded demotion_state_of_def]]
  have w2: "fst w2 = fst w" using rd(1) w1 by simp
  consider (a) e where "x = Inl e" | (b) qu e where "x = Inr qu" "y = Inl e" | (c) qu p where "x = Inr qu" "y = Inr p"
    by (cases x; cases y) auto
  then show thesis
  proof cases
    case (a e)
    then show thesis using q w1 by (intro lost [where w' = w1 and er = e]) (auto simp: evaluate_one_def Let_def grows_def)
  next
    case (b qu e)
    then show thesis using q st w2
      by (intro lost [where w' = w2 and er = "''reading the rung failed: '' @ e"]) (auto simp: evaluate_one_def Let_def grows_def)
  next
    case (c qu p)
    have p: "p = state_row ?b (world_db w2)" using rd(2) [OF c(2)] w1 w2 by simp
    have ev: "evaluate_one \<phi> quote act mode policy now bc rep w = evaluate_priced \<phi> act mode policy now bc qu p rep w2"
      using q st c by (simp add: evaluate_one_def Let_def)
    from p show thesis
    proof (cases rule: evaluate_priced_cases [where \<phi> = \<phi> and mode = mode and policy = policy and now = now and q = qu and rep = rep])
      case l: (lost rep' w' er)
      then show thesis using w2 by (intro lost [of rep' w' er]) (simp_all add: ev)
    next
      case s: (stored rep' w' e d1)
      then show thesis using w2 by (intro stored [of rep' w' d1 e]) (simp_all add: ev)
    qed
  qed
qed

end

end
