(* ===== verification/Ladder_Audit.thy ===== *)
theory Ladder_Audit
  imports Ladder_Loop
begin

text \<open>
  Whole ticks of the demotion ladder. The audit trail explains every rung in force, over any ticks
  in any modes, whatever fails; a tick returns, and leaves no live broadcast out; and what a mode
  forbids cannot happen, stated as independence of the operations it forbids.
\<close>

section \<open>The audit trail\<close>

text \<open>The rung that a chain of transitions leads to, when each starts where the one before ended.\<close>

fun follows :: "string \<Rightarrow> (string \<times> string) list \<Rightarrow> string option" where
  "follows x [] = Some x"
| "follows x ((f, t) # es) = (if f = x then follows t es else None)"

definition trail :: "event_kind \<Rightarrow> string \<Rightarrow> db \<Rightarrow> (string \<times> string) list" where
  "trail k b d = map (\<lambda>e. (de_from_step e, de_to_step e))
     (filter (\<lambda>e. de_broadcast_id e = b \<and> de_kind e = event_kind_as_str k) (demotion_events d))"

definition in_force :: "(demotion_row \<Rightarrow> string) \<Rightarrow> string \<Rightarrow> db \<Rightarrow> string" where
  "in_force col b d = (case find_demotion b d of None \<Rightarrow> ''healthy'' | Some r \<Rightarrow> col r)"

definition explained :: "string \<Rightarrow> db \<Rightarrow> bool" where
  "explained b d \<longleftrightarrow> follows ''healthy'' (trail DecisionEvent b d) = Some (in_force dm_target_step b d)
     \<and> follows ''healthy'' (trail AppliedEvent b d) = Some (in_force dm_applied_step b d)
     \<and> (\<exists>t a. in_force dm_target_step b d = step_as_str t \<and> in_force dm_applied_step b d = step_as_str a \<and> a \<le> t)"

definition trail_ok :: "db \<Rightarrow> bool" where
  "trail_ok d \<longleftrightarrow> (\<forall>b. explained b d) \<and> list_all (\<lambda>e. de_statement e \<noteq> []) (demotion_events d)"

lemma follows_append: "follows x (xs @ ys) = Option.bind (follows x xs) (\<lambda>y. follows y ys)"
  by (induction x xs rule: follows.induct) simp_all

lemma trail_ok_frame:
  "broadcast_demotion d' = broadcast_demotion d \<Longrightarrow> demotion_events d' = demotion_events d \<Longrightarrow> trail_ok d' = trail_ok d"
  by (simp add: trail_ok_def explained_def trail_def in_force_def find_demotion_def)

lemma rung_at_eq:
  "in_force dm_target_step b d = step_as_str t \<Longrightarrow> rung_at ds_target_step b d = t"
  "in_force dm_applied_step b d = step_as_str a \<Longrightarrow> rung_at ds_applied_step b d = a"
proof -
  have h: "HealthyStep = r" if "''healthy'' = step_as_str r" for r using that by (cases r) simp_all
  show "in_force dm_target_step b d = step_as_str t \<Longrightarrow> rung_at ds_target_step b d = t"
    by (cases "find_demotion b d") (simp_all add: in_force_def rung_at_def persisted_rung_def state_row_def h step_wire.parse_as_str)
  show "in_force dm_applied_step b d = step_as_str a \<Longrightarrow> rung_at ds_applied_step b d = a"
    by (cases "find_demotion b d") (simp_all add: in_force_def rung_at_def persisted_rung_def state_row_def h step_wire.parse_as_str)
qed

lemma in_force_written:
  "in_force dm_target_step b (written e now d) = (if b = el_broadcast_id e then el_target_step e else in_force dm_target_step b d)"
  "in_force dm_applied_step b (written e now d) = (if b = el_broadcast_id e then el_applied_step e else in_force dm_applied_step b d)"
  by (simp_all add: in_force_def find_demotion_written evaluation_row_def demotion_merge_def split: option.split)

lemma trail_written:
  "trail k b (written e now d) = trail k b d @ (if b = el_broadcast_id e
     then map (\<lambda>ev. (ev_from_step ev, ev_to_step ev)) (filter (\<lambda>ev. ev_kind ev = k) (el_events e)) else [])"
proof -
  have k: "event_kind_as_str x = event_kind_as_str k \<longleftrightarrow> x = k" for x by (cases x; cases k) simp_all
  show ?thesis by (auto simp: trail_def written_def event_row_def filter_map comp_def k)
qed

lemma written_trail_ok:
  assumes ok: "trail_ok d" and line: "in_line b d e"
  shows "trail_ok (written e now d)"
proof -
  obtain t a q where e: "el_broadcast_id e = b" "el_target_step e = step_as_str t" "el_applied_step e = step_as_str a" "a \<le> t"
    "el_events e = (if t = rung_at ds_target_step b d then []
           else [change_event DecisionEvent (rung_at ds_target_step b d) t (quoted_statement t q)])
         @ (if a = rung_at ds_applied_step b d then []
            else [change_event AppliedEvent (rung_at ds_applied_step b d) a (quoted_statement a q)])"
    using line unfolding in_line_def by blast
  have b: "explained b d" using ok by (simp add: trail_ok_def)
  then obtain t0 a0 where old: "in_force dm_target_step b d = step_as_str t0" "in_force dm_applied_step b d = step_as_str a0"
    by (auto simp: explained_def)
  note evs = e(5) [unfolded rung_at_eq(1) [OF old(1)] rung_at_eq(2) [OF old(2)]]
  have new: "map (\<lambda>ev. (ev_from_step ev, ev_to_step ev)) (filter (\<lambda>ev. ev_kind ev = DecisionEvent) (el_events e))
      = (if t = t0 then [] else [(step_as_str t0, step_as_str t)])"
    "map (\<lambda>ev. (ev_from_step ev, ev_to_step ev)) (filter (\<lambda>ev. ev_kind ev = AppliedEvent) (el_events e))
      = (if a = a0 then [] else [(step_as_str a0, step_as_str a)])"
    unfolding evs by (simp_all add: change_event_def)
  have follow: "follows ''healthy'' (trail DecisionEvent b d) = Some (step_as_str t0)"
    "follows ''healthy'' (trail AppliedEvent b d) = Some (step_as_str a0)"
    using b unfolding explained_def old by blast+
  have "follows ''healthy'' (trail DecisionEvent b (written e now d)) = Some (step_as_str t)"
    unfolding trail_written e(1) if_P [OF refl] new follows_append follow by simp
  moreover have "follows ''healthy'' (trail AppliedEvent b (written e now d)) = Some (step_as_str a)"
    unfolding trail_written e(1) if_P [OF refl] new follows_append follow by simp
  ultimately have same: "explained b (written e now d)"
    unfolding explained_def in_force_written e(1-3) if_P [OF refl] using e(4) by blast
  have other: "explained b' (written e now d)" if "b' \<noteq> b" for b'
  proof -
    have "explained b' d" using ok by (simp add: trail_ok_def)
    then show ?thesis using that e(1) by (simp add: explained_def in_force_written trail_written)
  qed
  have "list_all (\<lambda>e. de_statement e \<noteq> []) (demotion_events (written e now d))"
  proof -
    have "list_all (\<lambda>e. de_statement e \<noteq> []) (demotion_events d)" using ok by (simp add: trail_ok_def)
    then show ?thesis by (simp add: written_def e(5) event_row_def change_event_def)
  qed
  then show ?thesis unfolding trail_ok_def using same other by (metis (no_types))
qed

context ladder_wiring
begin

lemma evaluate_one_trail:
  assumes ok: "trail_ok (world_db w)"
  shows "trail_ok (world_db (snd (evaluate_one \<phi> quote act mode policy now bc rep w)))"
proof (cases rule: evaluate_one_cases [of \<phi> mode policy now bc rep w])
  case (lost rep' w' er)
  then show ?thesis using trail_ok_frame [of "world_db w'" "world_db w"] ok by (simp add: keeps_others_def)
next
  case (stored rep' w' e d1)
  have k: "broadcast_demotion d1 = broadcast_demotion (world_db w)" "demotion_events d1 = demotion_events (world_db w)"
    using stored(3) by (simp_all add: keeps_others_def)
  have "trail_ok (written e now d1)"
    using ok stored(5) by (intro written_trail_ok [of d1 "ab_broadcast_id bc"]) (simp_all only: trail_ok_frame [OF k] in_line_frame [OF k(1)])
  then show ?thesis using stored(1,4) by simp
qed

end

section \<open>Pages\<close>

lemma sorted_le_last: "sorted (map f ys) \<Longrightarrow> s \<in> set ys \<Longrightarrow> f s \<le> f (last ys)"
  by (induction ys) (auto simp: last_in_set)

lemma sorted_page_split:
  assumes d: "distinct (map f ss)" and ne: "take n (sort_key f ss) \<noteq> []" and x: "x = f (last (take n (sort_key f ss)))"
  shows "filter (\<lambda>s. x < f s) (sort_key f ss) = drop n (sort_key f ss)"
    and "s \<in> set (take n (sort_key f ss)) \<Longrightarrow> f s \<le> x"
proof -
  let ?S = "sort_key f ss"
  have "sorted (map f ?S)" "distinct (map f ?S)" using d by (simp_all add: distinct_map)
  then have split: "sorted (map f (take n ?S) @ map f (drop n ?S))" "distinct (map f (take n ?S) @ map f (drop n ?S))"
    unfolding map_append [symmetric] append_take_drop_id .
  have le: "f s \<le> x" if "s \<in> set (take n ?S)" for s
    using split(1) that unfolding x sorted_append by (intro sorted_le_last) blast+
  have gt: "x < f s" if "s \<in> set (drop n ?S)" for s
  proof -
    have "x \<in> set (map f (take n ?S))" "f s \<in> set (map f (drop n ?S))" using ne that unfolding x by simp_all
    then have "x \<le> f s" "x \<noteq> f s" using split unfolding sorted_append distinct_append by blast+
    then show ?thesis by simp
  qed
  have "filter (\<lambda>s. x < f s) (take n ?S @ drop n ?S) = drop n ?S"
    unfolding filter_append using le gt by (auto simp: filter_empty_conv filter_id_conv not_less)
  then show "filter (\<lambda>s. x < f s) ?S = drop n ?S" by simp
  show "s \<in> set (take n ?S) \<Longrightarrow> f s \<le> x" by (rule le)
qed

text \<open>A broadcast is covered by a tick when its row says so, or the report names it.\<close>

definition covered :: "instant \<Rightarrow> ladder_report \<Rightarrow> db \<Rightarrow> string \<Rightarrow> bool" where
  "covered now rep d b \<longleftrightarrow> (case find_demotion b d of None \<Rightarrow> False | Some r \<Rightarrow> dm_evaluated_at r = now)
     \<or> b \<in> set (map fst (lr_unpriceable rep @ lr_actuation_failures rep))"

definition is_live :: "stream_row \<Rightarrow> bool" where
  "is_live s \<longleftrightarrow> st_status s = ''active''"

definition live_past :: "string option \<Rightarrow> db \<Rightarrow> stream_row list" where
  "live_past after d = filter (\<lambda>s. is_live s \<and> past after (st_id s)) (streams d)"

text \<open>From one report and database to another, all live broadcasts past a point are covered.\<close>

definition walked :: "instant \<Rightarrow> string option \<Rightarrow> ladder_report \<Rightarrow> db \<Rightarrow> ladder_report \<Rightarrow> db \<Rightarrow> bool" where
  "walked now after rep d rep' d' \<longleftrightarrow> lr_evaluated rep' = lr_evaluated rep + length (live_past after d)
     \<and> (\<forall>b. covered now rep d b \<or> b \<in> st_id ` set (live_past after d) \<longrightarrow> covered now rep' d' b)"

lemma covered_grows: "covered now rep d b \<Longrightarrow> grows rep rep' \<Longrightarrow> find_demotion b d' = find_demotion b d \<Longrightarrow> covered now rep' d' b"
  by (auto simp: covered_def grows_def)

lemma covered_written: "covered now rep d b \<or> b = el_broadcast_id e \<Longrightarrow> grows rep rep' \<Longrightarrow> covered now rep' (written e now d) b"
  by (auto simp: covered_def grows_def find_demotion_written evaluation_row_def demotion_merge_def split: option.splits)

lemma filter_past_others:
  assumes "filter (\<lambda>s. st_id s \<noteq> b) ss' = filter (\<lambda>s. st_id s \<noteq> b) ss" and "b \<le> x"
  shows "filter (\<lambda>s. x < st_id s) ss' = filter (\<lambda>s. x < st_id s) ss"
proof -
  have "filter (\<lambda>s. x < st_id s) l = filter (\<lambda>s. x < st_id s) (filter (\<lambda>s. st_id s \<noteq> b) l)" for l
    using assms(2) by (auto intro!: filter_cong)
  then show ?thesis using assms(1) by metis
qed

lemma live_rows_pages:
  assumes d: "distinct (map st_id (live_past after d))"
    and ne: "live_rows after limit d \<noteq> []" and x: "x = ab_broadcast_id (last (live_rows after limit d))"
  shows "bc \<in> set (live_rows after limit d) \<Longrightarrow> ab_broadcast_id bc \<le> x"
    and "past after x" and "x \<in> st_id ` set (streams d)"
    and "length (live_past after d)
      = length (live_rows after limit d) + length (filter (\<lambda>s. is_live s \<and> x < st_id s) (streams d))"
    and "s \<in> set (streams d) \<Longrightarrow> is_live s \<Longrightarrow> past after (st_id s) \<Longrightarrow>
      st_id s \<in> ab_broadcast_id ` set (live_rows after limit d) \<or> x < st_id s"
proof -
  let ?P = "live_past after d"
  let ?page = "take (nat limit) (sort_key st_id ?P)"
  have rows: "live_rows after limit d = map (\<lambda>s. \<lparr>ab_broadcast_id = st_id s, ab_user_id = st_host_user_id s\<rparr>) ?page"
    by (simp add: live_rows_def live_past_def is_live_def)
  have pne: "?page \<noteq> []" and px: "x = st_id (last ?page)" using ne x by (simp_all add: rows last_map del: take_eq_Nil)
  note split = sorted_page_split [OF d pne px]
  show "ab_broadcast_id bc \<le> x" if "bc \<in> set (live_rows after limit d)" using that split(2) by (auto simp: rows)
  have "last ?page \<in> set ?P" using last_in_set [OF pne] by (metis in_set_takeD set_sort)
  then show past: "past after x" and "x \<in> st_id ` set (streams d)" unfolding px by (auto simp: live_past_def)
  have trans: "is_live s \<and> past after (st_id s) \<and> x < st_id s \<longleftrightarrow> is_live s \<and> x < st_id s" for s
    using past by (auto simp: past_def split: option.splits)
  have "length (filter (\<lambda>s. x < st_id s) (sort_key st_id ?P)) = length (filter (\<lambda>s. x < st_id s) ?P)"
    by (simp add: filter_sort)
  moreover have "filter (\<lambda>s. x < st_id s) ?P = filter (\<lambda>s. is_live s \<and> x < st_id s) (streams d)"
    by (simp add: live_past_def trans)
  moreover have "length ?page + length (drop (nat limit) (sort_key st_id ?P)) = length ?P" by simp
  ultimately show "length ?P = length (live_rows after limit d) + length (filter (\<lambda>s. is_live s \<and> x < st_id s) (streams d))"
    unfolding rows split(1) by simp
  show "st_id s \<in> ab_broadcast_id ` set (live_rows after limit d) \<or> x < st_id s"
    if s: "s \<in> set (streams d)" "is_live s" "past after (st_id s)"
  proof (cases "s \<in> set ?page")
    case True
    then show ?thesis by (force simp: rows)
  next
    case False
    have "s \<in> set (?page @ drop (nat limit) (sort_key st_id ?P))" unfolding append_take_drop_id using s by (simp add: live_past_def)
    then have "s \<in> set (drop (nat limit) (sort_key st_id ?P))" using False unfolding set_append by blast
    then show ?thesis unfolding split(1) [symmetric] by simp
  qed
qed

context ladder_wiring
begin

lemma evaluate_one_covers:
  assumes e: "evaluate_one \<phi> quote act mode policy now bc rep w = (rep', w')"
  shows "lr_evaluated rep' = lr_evaluated rep"
    and "covered now rep (world_db w) b \<or> b = ab_broadcast_id bc \<Longrightarrow> covered now rep' (world_db w') b"
    and "ab_broadcast_id bc \<le> x \<Longrightarrow> filter (\<lambda>s. x < st_id s) (streams (world_db w')) = filter (\<lambda>s. x < st_id s) (streams (world_db w))"
proof -
  let ?b = "ab_broadcast_id bc"
  have "lr_evaluated rep' = lr_evaluated rep \<and> (covered now rep (world_db w) b \<or> b = ?b \<longrightarrow> covered now rep' (world_db w') b)
    \<and> filter (\<lambda>s. st_id s \<noteq> ?b) (streams (world_db w')) = filter (\<lambda>s. st_id s \<noteq> ?b) (streams (world_db w))"
  proof (cases rule: evaluate_one_cases [of \<phi> mode policy now bc rep w])
    case (lost rep2 w2 er)
    then have k: "rep2 = rep'" "w2 = w'" using e by simp_all
    have "covered now rep' (world_db w') ?b" using lost(3) by (force simp: k covered_def)
    moreover have "find_demotion b (world_db w') = find_demotion b (world_db w)"
      using lost(4) by (simp add: k keeps_others_def find_demotion_def)
    ultimately show ?thesis using lost(2,4) covered_grows by (auto simp: k grows_def keeps_others_def)
  next
    case (stored rep2 w2 ev d1)
    then have k: "rep2 = rep'" "w2 = w'" using e by simp_all
    have "find_demotion b d1 = find_demotion b (world_db w)" using stored(3) by (simp add: keeps_others_def find_demotion_def)
    then have "covered now rep (world_db w) b = covered now rep d1 b" by (simp add: covered_def)
    moreover have "el_broadcast_id ev = ?b" using stored(5) by (simp add: in_line_def)
    ultimately have "covered now rep (world_db w) b \<or> b = ?b \<longrightarrow> covered now rep' (world_db w') b"
      using covered_written [of now rep d1 b ev rep'] stored(2,4) by (auto simp: k)
    then show ?thesis using stored(2-4) by (simp add: k grows_def keeps_others_def written_def)
  qed
  then show "lr_evaluated rep' = lr_evaluated rep"
    and "covered now rep (world_db w) b \<or> b = ?b \<Longrightarrow> covered now rep' (world_db w') b"
    and "?b \<le> x \<Longrightarrow> filter (\<lambda>s. x < st_id s) (streams (world_db w')) = filter (\<lambda>s. x < st_id s) (streams (world_db w))"
    using filter_past_others by blast+
qed

lemma evaluate_page_covers:
  assumes "evaluate_page \<phi> quote act mode policy now page rep w = (rep', w')"
  shows "lr_evaluated rep' = lr_evaluated rep + length page
    \<and> (covered now rep (world_db w) b \<or> b \<in> ab_broadcast_id ` set page \<longrightarrow> covered now rep' (world_db w') b)
    \<and> ((\<forall>bc\<in>set page. ab_broadcast_id bc \<le> x) \<longrightarrow>
        filter (\<lambda>s. x < st_id s) (streams (world_db w')) = filter (\<lambda>s. x < st_id s) (streams (world_db w)))
    \<and> (trail_ok (world_db w) \<longrightarrow> trail_ok (world_db w'))"
  using assms
proof (induction page arbitrary: rep w)
  case (Cons bc page)
  let ?rep = "rep\<lparr>lr_evaluated := lr_evaluated rep + 1\<rparr>"
  obtain rep1 w1 where one: "evaluate_one \<phi> quote act mode policy now bc ?rep w = (rep1, w1)" by (metis prod.collapse)
  then have rest: "evaluate_page \<phi> quote act mode policy now page rep1 w1 = (rep', w')" using Cons.prems by simp
  have "covered now ?rep d b = covered now rep d b" for d by (simp add: covered_def)
  then have "covered now rep (world_db w) b \<or> b = ab_broadcast_id bc \<longrightarrow> covered now rep1 (world_db w1) b"
    using evaluate_one_covers(2) [OF one] by blast
  moreover have "trail_ok (world_db w) \<longrightarrow> trail_ok (world_db w1)"
    using evaluate_one_trail [of w \<phi> mode policy now bc ?rep] one by simp
  moreover have "lr_evaluated rep1 = lr_evaluated rep + 1" using evaluate_one_covers(1) [OF one] by simp
  ultimately show ?case using Cons.IH [OF rest] evaluate_one_covers(3) [OF one] by auto
qed simp

lemma page_walked:
  assumes d: "distinct (map st_id (filter (\<lambda>s. past after (st_id s)) (streams (world_db w))))"
    and page: "page = live_rows after limit (world_db w)" "page \<noteq> []" and x: "x = ab_broadcast_id (last page)"
    and ev: "evaluate_page \<phi> quote act mode policy now page rep w1 = (rep1, w2)" and w1: "fst w1 = fst w"
  shows "filter (\<lambda>s. past (Some x) (st_id s)) (streams (world_db w2))
      = filter (\<lambda>s. x < st_id s) (filter (\<lambda>s. past after (st_id s)) (streams (world_db w)))"
    and "x \<in> st_id ` set (filter (\<lambda>s. past after (st_id s)) (streams (world_db w)))"
    and "walked now (Some x) rep1 (world_db w2) rep' d' \<Longrightarrow> walked now after rep (world_db w) rep' d'"
proof -
  let ?d = "world_db w"
  have "live_past after ?d = filter is_live (filter (\<lambda>s. past after (st_id s)) (streams ?d))" by (simp add: live_past_def conj_commute)
  then have "distinct (map st_id (live_past after ?d))" using distinct_map_filter [OF d, of is_live] by (simp only:)
  note pg = live_rows_pages [OF this page(2) [unfolded page(1)] x [unfolded page(1)], folded page(1)]
  note here = evaluate_page_covers [OF ev, unfolded w1]
  have same: "filter (\<lambda>s. past (Some x) (st_id s)) (streams (world_db w2)) = filter (\<lambda>s. x < st_id s) (streams ?d)"
    using here [of x x] pg(1) by (simp add: past_def)
  also have "\<dots> = filter (\<lambda>s. x < st_id s) (filter (\<lambda>s. past after (st_id s)) (streams ?d))"
    unfolding filter_filter using pg(2) by (intro filter_cong refl) (auto simp: past_def split: option.splits)
  finally show "filter (\<lambda>s. past (Some x) (st_id s)) (streams (world_db w2))
      = filter (\<lambda>s. x < st_id s) (filter (\<lambda>s. past after (st_id s)) (streams ?d))" .
  show "x \<in> st_id ` set (filter (\<lambda>s. past after (st_id s)) (streams ?d))" using pg(2,3) by auto
  have later: "live_past (Some x) (world_db w2) = filter (\<lambda>s. is_live s \<and> x < st_id s) (streams ?d)"
    using arg_cong [OF same, of "filter is_live"] by (simp add: live_past_def conj_commute)
  show "walked now after rep ?d rep' d'" if wk: "walked now (Some x) rep1 (world_db w2) rep' d'"
    unfolding walked_def
  proof (intro conjI allI impI)
    show "lr_evaluated rep' = lr_evaluated rep + length (live_past after ?d)"
      using wk here [of x x] pg(4) by (simp add: walked_def later)
    fix b
    assume "covered now rep ?d b \<or> b \<in> st_id ` set (live_past after ?d)"
    then have "(covered now rep ?d b \<or> b \<in> ab_broadcast_id ` set page) \<or> b \<in> st_id ` set (live_past (Some x) (world_db w2))"
      using pg(5) unfolding later by (auto simp: live_past_def)
    then show "covered now rep' d' b" using wk here [of b x] unfolding walked_def by blast
  qed
qed

lemma tick_pages_covers:
  assumes "distinct (map st_id (filter (\<lambda>s. past after (st_id s)) (streams (world_db w))))"
  shows "\<exists>r w'. tick_pages \<phi> quote act mode policy n now after rep w = Some (r, w')
    \<and> (\<forall>rep'. r = Inr rep' \<longrightarrow> walked now after rep (world_db w) rep' (world_db w'))"
  using assms
proof (induction "length (filter (\<lambda>s. past after (st_id s)) (streams (world_db w)))" arbitrary: after rep w rule: less_induct)
  case less
  obtain r w1 where l: "live_broadcasts_after \<phi> after (max n 1) w = (r, w1)" by (metis prod.collapse)
  note rd = ladder_reads_step [OF l [unfolded live_broadcasts_after_def]]
  note unfold = tick_pages.simps [of \<phi> quote act mode policy n now after rep w, unfolded l prod.case]
  consider (err) e where "r = Inl e" | (none) "r = Inr []" | (page) page where "r = Inr page" "page \<noteq> []" by (cases r) auto
  then show ?case
  proof cases
    case err
    then show ?thesis using unfold rd(1) by simp
  next
    case none
    then have "live_rows after (max n 1) (world_db w) = []" using rd(2) by simp
    moreover have "nat (max n 1) \<noteq> 0" by simp
    ultimately have "length (sort_key st_id (live_past after (world_db w))) = 0" by (simp add: live_rows_def live_past_def is_live_def)
    then show ?thesis using unfold none rd(1) by (simp add: walked_def)
  next
    case (page page)
    define x where "x = ab_broadcast_id (last page)"
    obtain rep1 w2 where ev: "evaluate_page \<phi> quote act mode policy now page rep w1 = (rep1, w2)" by (metis prod.collapse)
    have rows: "page = live_rows after (max n 1) (world_db w)" using rd(2) page(1) by simp
    note pw = page_walked [OF less.prems rows page(2) x_def ev rd(1)]
    have "distinct (map st_id (filter (\<lambda>s. past (Some x) (st_id s)) (streams (world_db w2))))"
      unfolding pw(1) by (rule distinct_map_filter) (rule less.prems)
    moreover obtain s where "s \<in> set (filter (\<lambda>s. past after (st_id s)) (streams (world_db w)))" "\<not> x < st_id s" using pw(2) by blast
    then have "length (filter (\<lambda>s. past (Some x) (st_id s)) (streams (world_db w2))) < length (filter (\<lambda>s. past after (st_id s)) (streams (world_db w)))"
      unfolding pw(1) by (rule length_filter_less)
    ultimately obtain r' w' where ih: "tick_pages \<phi> quote act mode policy n now (Some x) rep1 w2 = Some (r', w')"
      "\<forall>rep'. r' = Inr rep' \<longrightarrow> walked now (Some x) rep1 (world_db w2) rep' (world_db w')"
      using less.hyps by blast
    have "tick_pages \<phi> quote act mode policy n now after rep w = Some (r', w')"
      unfolding unfold using page ev ih(1) by (simp add: x_def)
    then show ?thesis using ih(2) pw(3) by blast
  qed
qed

end


section \<open>Runs of the ladder\<close>

text \<open>Ticks, each with its own faults, prices, effects and mode, and whatever else happens between them
  to other tables.\<close>

datatype 'x ladder_op =
  LadderTick schedule "'x quote" "'x ladder_actuator" ladder_mode ladder_policy int instant
| Meanwhile "'x dbenv \<Rightarrow> 'x dbenv"

fun run_ladder :: "'x ladder_op \<Rightarrow> 'x dbenv \<Rightarrow> 'x dbenv" where
  "run_ladder (LadderTick \<phi> quote act mode policy n now) w =
     (case ladder_tick \<phi> quote act mode policy n now w of None \<Rightarrow> w | Some (_, w') \<Rightarrow> w')"
| "run_ladder (Meanwhile f) w = f w"

fun ladder_op_ok :: "'x ladder_op \<Rightarrow> bool" where
  "ladder_op_ok (LadderTick \<phi> quote act mode policy n now) \<longleftrightarrow> billing_source quote \<and> ladder_actuator_contract act"
| "ladder_op_ok (Meanwhile f) \<longleftrightarrow> (\<forall>w. broadcast_demotion (world_db (f w)) = broadcast_demotion (world_db w)
     \<and> demotion_events (world_db (f w)) = demotion_events (world_db w))"

lemmas tick_pages_induct = tick_pages.raw_induct [rotated, consumes 1, case_names step]

lemma tick_pages_trail:
  assumes "tick_pages \<phi> quote act mode policy n now after rep w = Some y" and "ladder_wiring quote act" and "trail_ok (world_db w)"
  shows "trail_ok (world_db (snd y))"
  using assms
proof (induction rule: tick_pages_induct)
  case (step tp \<phi> quote act mode policy n now after rep w y)
  obtain r w1 where l: "live_broadcasts_after \<phi> after (max n 1) w = (r, w1)" by (metis prod.collapse)
  note w1 = ladder_reads_step(1) [OF l [unfolded live_broadcasts_after_def]]
  consider (stop) "snd y = w1" | (page) page rep1 w2 where "evaluate_page \<phi> quote act mode policy now page rep w1 = (rep1, w2)"
      "tp \<phi> quote act mode policy n now (Some (ab_broadcast_id (last page))) rep1 w2 = Some y"
    using step(2) l by (cases r) (auto split: if_splits prod.splits)
  then show ?case
  proof cases
    case stop
    then show ?thesis using step(4) w1 by simp
  next
    case (page page rep1 w2)
    have "trail_ok (world_db w2)"
      using ladder_wiring.evaluate_page_covers [OF step(3) page(1)] step(4) w1 by simp
    then show ?thesis using step(1) [OF page(2)] step(3) by blast
  qed
qed

interpretation ladder_runs: guarded_system run_ladder ladder_op_ok "\<lambda>w. trail_ok (world_db w)"
proof
  fix e :: "'x ladder_op" and w :: "'x dbenv"
  assume ok: "ladder_op_ok e" and inv: "trail_ok (world_db w)"
  show "trail_ok (world_db (run_ladder e w))"
  proof (cases e)
    case (LadderTick \<phi> quote act mode policy n now)
    then have "ladder_wiring quote act" using ok by (simp add: ladder_wiring_def)
    then show ?thesis using tick_pages_trail inv LadderTick
      by (cases "ladder_tick \<phi> quote act mode policy n now w") (fastforce simp: ladder_tick_def)+
  next
    case (Meanwhile f)
    have "broadcast_demotion (world_db (f w)) = broadcast_demotion (world_db w)" "demotion_events (world_db (f w)) = demotion_events (world_db w)"
      using ok unfolding Meanwhile ladder_op_ok.simps by blast+
    from trail_ok_frame [OF this] show ?thesis using inv by (simp add: Meanwhile)
  qed
qed

section \<open>Ticks that differ in their actuator\<close>

lemma evaluate_page_cong:
  assumes "\<And>bc rep w. K (world_db w) \<Longrightarrow> evaluate_one \<phi> quote act' mode policy now bc rep w = evaluate_one \<phi> quote act mode policy now bc rep w"
    and "\<And>bc rep w. K (world_db w) \<Longrightarrow> K (world_db (snd (evaluate_one \<phi> quote act mode policy now bc rep w)))"
    and "K (world_db w)"
  shows "evaluate_page \<phi> quote act' mode policy now page rep w = evaluate_page \<phi> quote act mode policy now page rep w
    \<and> K (world_db (snd (evaluate_page \<phi> quote act mode policy now page rep w)))"
  using assms(3)
proof (induction page arbitrary: rep w)
  case (Cons bc page)
  let ?rep = "rep\<lparr>lr_evaluated := lr_evaluated rep + 1\<rparr>"
  obtain rep1 w1 where one: "evaluate_one \<phi> quote act mode policy now bc ?rep w = (rep1, w1)" by (metis prod.collapse)
  have "K (world_db w1)" using assms(2) [OF Cons.prems, of bc ?rep] one by simp
  then show ?case using Cons.IH [of w1 rep1] assms(1) [OF Cons.prems, of bc ?rep] one by simp
qed simp

lemma tick_pages_transfer:
  assumes "tick_pages \<phi> quote act' mode policy n now after rep w = Some y"
    and "\<And>bc rep w. K (world_db w) \<Longrightarrow> evaluate_one \<phi> quote act' mode policy now bc rep w = evaluate_one \<phi> quote act mode policy now bc rep w"
    and "\<And>bc rep w. K (world_db w) \<Longrightarrow> K (world_db (snd (evaluate_one \<phi> quote act mode policy now bc rep w)))"
    and "K (world_db w)"
  shows "tick_pages \<phi> quote act mode policy n now after rep w = Some y"
  using assms
proof (induction rule: tick_pages_induct)
  case (step tp \<phi> quote act' mode policy n now after rep w y)
  obtain r w1 where l: "live_broadcasts_after \<phi> after (max n 1) w = (r, w1)" by (metis prod.collapse)
  note w1 = ladder_reads_step(1) [OF l [unfolded live_broadcasts_after_def]]
  note cong = evaluate_page_cong [of K \<phi> quote act' mode policy now act w1, OF step(3,4)]
  have "K (world_db w1)" using step(5) w1 by simp
  note cong = cong [OF _ _ this]
  have go: "tick_pages \<phi> quote act mode policy n now after' rep1 w2 = Some y"
    if "tp \<phi> quote act' mode policy n now after' rep1 w2 = Some y" "K (world_db w2)" for after' rep1 w2
    by (rule step(1) [OF that(1)]) (use step(3,4) that(2) in blast)+
  show ?case
  proof (cases r)
    case (Inl e)
    then show ?thesis using step(2) l by (subst tick_pages.simps) simp
  next
    case (Inr page)
    obtain rep1 w2 where ev: "evaluate_page \<phi> quote act mode policy now page rep w1 = (rep1, w2)" by (metis prod.collapse)
    then show ?thesis using step(2) l Inr cong [of page rep] go
      by (subst tick_pages.simps) (auto split: if_splits)
  qed
qed

lemma tick_pages_cong:
  assumes "\<And>bc rep w. K (world_db w) \<Longrightarrow> evaluate_one \<phi> quote act' mode policy now bc rep w = evaluate_one \<phi> quote act mode policy now bc rep w"
    and "\<And>bc rep w. K (world_db w) \<Longrightarrow> K (world_db (snd (evaluate_one \<phi> quote act mode policy now bc rep w)))"
    and "K (world_db w)"
  shows "ladder_tick \<phi> quote act' mode policy n now w = ladder_tick \<phi> quote act mode policy n now w"
proof -
  let ?l = "tick_pages \<phi> quote act' mode policy n now None empty_ladder_report w"
  let ?r = "tick_pages \<phi> quote act mode policy n now None empty_ladder_report w"
  have "?r = Some y" if "?l = Some y" for y
    by (rule tick_pages_transfer [OF that, where K = K]) (use assms in blast)+
  moreover have "?l = Some y" if "?r = Some y" for y
    by (rule tick_pages_transfer [OF that, where K = K]) (use assms in \<open>auto simp del: split_paired_All\<close>)
  ultimately have "?l = ?r" by (cases ?l; cases ?r) auto
  then show ?thesis unfolding ladder_tick_def .
qed

text \<open>Without \<^const>\<open>EndWithSlate\<close> among the rungs, ending is not called.\<close>

lemma actuate_rungs_no_end:
  "EndWithSlate \<notin> set rs \<Longrightarrow> actuate_rungs (act\<lparr>end_with_slate := f\<rparr>) ending b st rs reached blocked errors w
     = actuate_rungs act ending b st rs reached blocked errors w"
proof (induction rs arbitrary: reached blocked errors w)
  case (Cons r rs)
  then have "apply_rung (act\<lparr>end_with_slate := f\<rparr>) b st r w = apply_rung act b st r w" by (cases r) (simp_all add: apply_rung_def)
  then show ?case using Cons by (auto simp: Let_def split: prod.splits sum.splits)
qed simp

lemma evaluate_one_no_end:
  assumes "mode \<noteq> Full"
  shows "evaluate_one \<phi> quote (act\<lparr>end_with_slate := f\<rparr>) mode policy now bc rep w = evaluate_one \<phi> quote act mode policy now bc rep w"
proof -
  have ne: "EndWithSlate \<notin> set (filter (\<lambda>r. a < r \<and> r \<le> cap mode t) step_all)" for a t
    using cap_degrade_le [OF assms, of t] by (auto simp: less_eq_rung_def)
  then have "actuate (act\<lparr>end_with_slate := f\<rparr>) a (cap mode t) b st w = actuate act a (cap mode t) b st w" for a t b st w
    by (simp only: actuate_def actuate_rungs_no_end [OF ne])
  then have "reconcile (act\<lparr>end_with_slate := f\<rparr>) mode b q t a w = reconcile act mode b q t a w" for b q t a w
    by (simp only: reconcile_def Let_def)
  moreover have "keep_stopped (act\<lparr>end_with_slate := f\<rparr>) b a a' w = keep_stopped act b a a' w" for b a a' w
    by (simp add: keep_stopped_def)
  ultimately show ?thesis unfolding evaluate_one_def evaluate_priced_def by (simp only:)
qed

text \<open>In observe mode, from rungs that allow recording, nothing is called.\<close>

definition all_recordable :: "db \<Rightarrow> bool" where
  "all_recordable d \<longleftrightarrow> (\<forall>b. allows_recording (rung_at ds_applied_step b d))"

lemma reconcile_observe:
  "reconcile act Observe b q t a w = ((if t < a then (t, [change_event AppliedEvent a t (quoted_statement t q)], []) else (a, [], [])), w)"
  by (simp add: reconcile_def)

lemma evaluate_one_observe:
  assumes src: "billing_source quote" and rec: "all_recordable (world_db w)"
  shows "evaluate_one \<phi> quote act' Observe policy now bc rep w = evaluate_one \<phi> quote act Observe policy now bc rep w"
proof -
  let ?b = "ab_broadcast_id bc"
  obtain x w1 where q: "quote ?b w = (x, w1)" by (metis prod.collapse)
  obtain y w2 where st: "demotion_state_of \<phi> ?b w1 = (y, w2)" by (metis prod.collapse)
  have "evaluate_priced \<phi> act' Observe policy now bc qu p rep w2 = evaluate_priced \<phi> act Observe policy now bc qu p rep w2"
    if "y = Inr p" for qu p
  proof -
    have "fst w1 = fst w" using billing_source.quote_reads [OF src, of ?b w] q by simp
    then have "p = state_row ?b (world_db w)" using ladder_reads_step(2) [OF st [unfolded demotion_state_of_def] that] by simp
    then have "allows_recording (persisted_rung ds_applied_step p)" using rec by (simp add: all_recordable_def rung_at_def)
    then show ?thesis by (simp add: evaluate_priced_def reconcile_observe keep_stopped_def Let_def)
  qed
  then show ?thesis using q st by (cases x; cases y) (simp_all add: evaluate_one_def Let_def)
qed

lemma rung_at_written:
  assumes "el_applied_step e = step_as_str a"
  shows "rung_at ds_applied_step b (written e now d) = (if b = el_broadcast_id e then a else rung_at ds_applied_step b d)"
  using assms
  by (auto simp: rung_at_def persisted_rung_def state_row_def find_demotion_written evaluation_row_def demotion_merge_def
      step_wire.parse_as_str split: option.split)

lemma recordable_milder: "allows_recording a \<Longrightarrow> allows_recording (if t < a then t else a)"
  by (auto simp: allows_recording_iff)

lemma evaluate_priced_recordable:
  assumes rec: "all_recordable (world_db w)" and p: "allows_recording (persisted_rung ds_applied_step p)"
  shows "all_recordable (world_db (snd (evaluate_priced \<phi> act Observe policy now bc q p rep w)))"
proof -
  let ?a = "persisted_rung ds_applied_step p" and ?t = "lt_step (transition_of policy q p)"
  obtain e where e: "el_applied_step e = step_as_str (if ?t < ?a then ?t else ?a)"
    and ev: "world_db (snd (evaluate_priced \<phi> act Observe policy now bc q p rep w)) = world_db (snd (record_evaluation \<phi> e now w))"
  proof -
    let ?e = "\<lambda>evs a. \<lparr>el_broadcast_id = ab_broadcast_id bc, el_user_id = ab_user_id bc, el_target_step = step_as_str ?t,
       el_applied_step = step_as_str a, el_target_changed = lt_moved (transition_of policy q p),
       el_milder_streak = u32_as_i32 (lt_milder_streak (transition_of policy q p)), el_balance_minor = bb_available_balance_minor q,
       el_projected_cost_minor = bb_projected_cost_minor q, el_events = evs\<rparr>"
    have "\<exists>evs. world_db (snd (evaluate_priced \<phi> act Observe policy now bc q p rep w))
        = world_db (snd (record_evaluation \<phi> (?e evs (if ?t < ?a then ?t else ?a)) now w))"
      using p by (auto simp: evaluate_priced_def reconcile_observe keep_stopped_def Let_def split_beta)
    then show thesis by (elim exE, intro that [of "?e _ (if ?t < ?a then ?t else ?a)"]) simp_all
  qed
  show ?thesis
  proof (cases rule: record_evaluation_cases [of \<phi> e now w])
    case (lost er w')
    then show ?thesis using rec by (simp add: ev)
  next
    case (stored r w')
    then show ?thesis using rec recordable_milder [OF p, of ?t] by (auto simp: ev all_recordable_def rung_at_written [OF e] split: if_splits)
  qed
qed

lemma evaluate_one_recordable:
  assumes src: "billing_source quote" and rec: "all_recordable (world_db w)"
  shows "all_recordable (world_db (snd (evaluate_one \<phi> quote act Observe policy now bc rep w)))"
proof -
  let ?b = "ab_broadcast_id bc"
  obtain x w1 where q: "quote ?b w = (x, w1)" by (metis prod.collapse)
  obtain y w2 where st: "demotion_state_of \<phi> ?b w1 = (y, w2)" by (metis prod.collapse)
  note rd = ladder_reads_step [OF st [unfolded demotion_state_of_def]]
  have w1: "fst w1 = fst w" using billing_source.quote_reads [OF src, of ?b w] q by simp
  then have w2: "fst w2 = fst w" using rd(1) by simp
  have "all_recordable (world_db (snd (evaluate_priced \<phi> act Observe policy now bc qu p rep w2)))" if "y = Inr p" for qu p
  proof (rule evaluate_priced_recordable)
    show "all_recordable (world_db w2)" using rec w2 by simp
    show "allows_recording (persisted_rung ds_applied_step p)"
      using rd(2) [OF that] rec w1 by (simp add: all_recordable_def rung_at_def)
  qed
  then show ?thesis using q st rec w1 w2
    by (cases x; cases y) (simp_all add: evaluate_one_def Let_def)
qed

section \<open>Properties\<close>

text \<open>A broadcaster without funds, with two broadcasts on air and one that has ended.\<close>

definition broke_db :: db where
  "broke_db = empty_db\<lparr>
     wallets := [\<lparr>wr_user_id = ''u'', wr_currency = ''eur'', wr_balance_minor = 0, wr_credit_limit_minor = 0, wr_updated_at = 0, wr_rating_blocked_at = None\<rparr>],
     rate_card := [\<lparr>rr_version = 1, rr_currency = ''eur'', rr_unit = ''egress_gb'', rr_price_minor = 5\<rparr>],
     streams := [\<lparr>st_id = ''b'', st_host_user_id = ''u'', st_status = ''active'', st_started_at = 0\<rparr>,
                 \<lparr>st_id = ''c'', st_host_user_id = ''u'', st_status = ''ended'', st_started_at = 0\<rparr>,
                 \<lparr>st_id = ''a'', st_host_user_id = ''u'', st_status = ''active'', st_started_at = 0\<rparr>]\<rparr>"

definition broke_world :: "string list dbenv" where
  "broke_world = ((broke_db, []), 0)"

definition test_policy :: ladder_policy where
  "test_policy = \<lparr>reduce_quality_below = Fin 0, drain_below = Fin 0, recover_after_evaluations = 1\<rparr>"

interpretation recorded_ladder: ladder_wiring "ladder_quote \<phi> src" recording_actuator for \<phi> src
  by unfold_locales

text \<open>C5: The audit trail explains every rung. Over any run of ticks, in any modes and sizes of page, with
  any quotes that only read and any actuator that keeps to its broadcast, whatever database calls
  fail and whatever happens in between to other tables: starting from empty tables, the applied
  events of a broadcast chain from healthy to the applied rung of its row, its decisions chain
  from healthy to the target of its row, the applied rung is never harsher than the target, and no
  event is without a statement of reasons.\<close>

theorem audit_trail_explains:
  assumes "list_all ladder_op_ok ops" and "broadcast_demotion (world_db w) = []" and "demotion_events (world_db w) = []"
  shows "let d = world_db (fold run_ladder ops w) in
      follows ''healthy'' (trail DecisionEvent b d) = Some (in_force dm_target_step b d)
    \<and> follows ''healthy'' (trail AppliedEvent b d) = Some (in_force dm_applied_step b d)
    \<and> (\<exists>t a. in_force dm_target_step b d = step_as_str t \<and> in_force dm_applied_step b d = step_as_str a \<and> a \<le> t)
    \<and> list_all (\<lambda>e. de_statement e \<noteq> []) (demotion_events d)"
proof -
  have "\<exists>t a. ''healthy'' = step_as_str t \<and> ''healthy'' = step_as_str a \<and> a \<le> t" by (intro exI [of _ HealthyStep]) simp
  then have "trail_ok (world_db w)"
    using assms(2,3) by (simp add: trail_ok_def explained_def trail_def in_force_def find_demotion_def lookup_row_def)
  from ladder_runs.allowed_run_keeps [OF assms(1) this] show ?thesis
    unfolding trail_ok_def explained_def Let_def by blast
qed

theorem audit_trail_explains_witness:
  "let d = world_db (fold run_ladder [LadderTick no_faults (ladder_quote no_faults (wallet_billing_new ''eur'')) recording_actuator Full test_policy 1 7] broke_world) in
     follows ''healthy'' (trail AppliedEvent ''a'' d) = Some ''end_with_slate''"
proof -
  let ?ops = "[LadderTick no_faults (ladder_quote no_faults (wallet_billing_new ''eur'')) recording_actuator Full test_policy 1 7]"
  have ok: "list_all ladder_op_ok ?ops"
    by (simp add: recording.ladder_actuator_contract_axioms ladder_billing.billing_source_axioms)
  have e: "broadcast_demotion (world_db broke_world) = []" "demotion_events (world_db broke_world) = []"
    by (simp_all add: broke_world_def broke_db_def empty_db_def)
  have "in_force dm_applied_step ''a'' (world_db (fold run_ladder ?ops broke_world)) = ''end_with_slate''" by code_simp
  then show ?thesis using audit_trail_explains [OF ok e, of "''a''"] by (simp only: Let_def)
qed

text \<open>C6: A tick ends, and no live broadcast escapes it. For any faults, prices and mode, any actuator that
  keeps to its broadcast and any size of page, zero and negative ones included, the tick returns;
  when it returns a report, it has evaluated each broadcast that was live at the start exactly
  once, and each of them has a row evaluated now or is named in the report with what went wrong.\<close>

theorem ladder_tick_covers:
  assumes "billing_source quote" and "ladder_actuator_contract act" and "distinct (map st_id (streams (world_db w)))"
  shows "\<exists>r w'. ladder_tick \<phi> quote act mode policy n now w = Some (r, w')
    \<and> (\<forall>rep. r = Inr rep \<longrightarrow> lr_evaluated rep = length (filter is_live (streams (world_db w)))
         \<and> list_all (\<lambda>s. covered now rep (world_db w') (st_id s)) (filter is_live (streams (world_db w))))"
proof -
  have wiring: "ladder_wiring quote act" using assms(1,2) by (rule ladder_wiring.intro)
  have "distinct (map st_id (filter (\<lambda>s. past None (st_id s)) (streams (world_db w))))" using assms(3) by (simp add: past_def)
  from ladder_wiring.tick_pages_covers [OF wiring this, of \<phi> mode policy n now empty_ladder_report]
  obtain r w' where t: "ladder_tick \<phi> quote act mode policy n now w = Some (r, w')"
    and c: "\<And>rep. r = Inr rep \<Longrightarrow> walked now None empty_ladder_report (world_db w) rep (world_db w')"
    unfolding ladder_tick_def by blast
  have "live_past None (world_db w) = filter is_live (streams (world_db w))" by (simp add: live_past_def past_def)
  then have "lr_evaluated rep = length (filter is_live (streams (world_db w)))
      \<and> list_all (\<lambda>s. covered now rep (world_db w') (st_id s)) (filter is_live (streams (world_db w)))" if "r = Inr rep" for rep
    using c [OF that] unfolding walked_def list_all_iff by (simp add: empty_ladder_report_def)
  then show ?thesis using t by blast
qed

theorem ladder_tick_covers_witness:
  "map_option (\<lambda>(r, w'). case r of Inl _ \<Rightarrow> 0 | Inr rep \<Rightarrow> lr_evaluated rep)
     (ladder_tick no_faults (ladder_quote no_faults (wallet_billing_new ''eur'')) recording_actuator Degrade test_policy (-3) 7 broke_world) = Some 2"
proof -
  have live: "length (filter is_live (streams (world_db broke_world))) = 2" by code_simp
  have d: "distinct (map st_id (streams (world_db broke_world)))" by code_simp
  let ?t = "ladder_tick no_faults (ladder_quote no_faults (wallet_billing_new ''eur'')) recording_actuator Degrade test_policy (-3) 7 broke_world"
  from ladder_tick_covers [OF ladder_billing.billing_source_axioms recording.ladder_actuator_contract_axioms d,
      of no_faults no_faults "wallet_billing_new ''eur''" Degrade test_policy "-3" 7]
  obtain r w' where t: "?t = Some (r, w')" and c: "\<forall>rep. r = Inr rep \<longrightarrow> lr_evaluated rep = 2" unfolding live by blast
  moreover have "case ?t of Some (Inr rep, w') \<Rightarrow> True | _ \<Rightarrow> False" by code_simp
  ultimately show ?thesis by (cases r) simp_all
qed

text \<open>C12: What a mode forbids does not happen. Unless the mode is full, the outcome of a tick, its report and
  everything it changes, is the same whatever ending a broadcast would do: the actuator is never
  asked to. In observe mode it is the same whatever any of the actuator's operations would do,
  provided no applied rung forbids recording to begin with.\<close>

theorem modes_bound_effects:
  assumes "billing_source quote"
  shows "(mode \<noteq> Full \<longrightarrow>
       ladder_tick \<phi> quote (act\<lparr>end_with_slate := f\<rparr>) mode policy n now w = ladder_tick \<phi> quote act mode policy n now w)
    \<and> (all_recordable (world_db w) \<longrightarrow>
       ladder_tick \<phi> quote act' Observe policy n now w = ladder_tick \<phi> quote act Observe policy n now w)"
proof (intro conjI impI)
  assume "mode \<noteq> Full"
  then show "ladder_tick \<phi> quote (act\<lparr>end_with_slate := f\<rparr>) mode policy n now w = ladder_tick \<phi> quote act mode policy n now w"
    by (intro tick_pages_cong [where K = "\<lambda>_. True"] evaluate_one_no_end TrueI)
next
  assume "all_recordable (world_db w)"
  then show "ladder_tick \<phi> quote act' Observe policy n now w = ladder_tick \<phi> quote act Observe policy n now w"
    using assms by (intro tick_pages_cong [where K = all_recordable] evaluate_one_observe evaluate_one_recordable)
qed

text \<open>The proviso is needed: in observe mode a broadcast on a rung applied earlier has its recording
  stopped again at each tick.\<close>

definition degraded_world :: "string list dbenv" where
  "degraded_world = ((world_db (fold run_ladder
     [LadderTick no_faults (ladder_quote no_faults (wallet_billing_new ''eur'')) recording_actuator Degrade test_policy 9 7] broke_world), []), 0)"

lemma observe_stops_recordings:
  "world_env (run_ladder (LadderTick no_faults (ladder_quote no_faults (wallet_billing_new ''eur'')) recording_actuator Observe test_policy 9 8)
     degraded_world) = [''stop_recording:a'', ''stop_recording:b'']"
  by code_simp

theorem modes_bound_effects_witness:
  "ladder_tick no_faults (ladder_quote no_faults (wallet_billing_new ''eur'')) (recording_actuator\<lparr>end_with_slate := (\<lambda>b s w. (Inl ''down'', w))\<rparr>)
       Degrade test_policy 9 7 broke_world
     = ladder_tick no_faults (ladder_quote no_faults (wallet_billing_new ''eur'')) recording_actuator Degrade test_policy 9 7 broke_world
   \<and> snd (fst (snd (the (ladder_tick no_faults (ladder_quote no_faults (wallet_billing_new ''eur'')) recording_actuator Degrade test_policy 9 7 broke_world))))
     = [''stop_recording:a'', ''drain_to_origin:a'', ''stop_recording:b'', ''drain_to_origin:b'']"
proof
  have "Degrade \<noteq> Full" by simp
  then show "ladder_tick no_faults (ladder_quote no_faults (wallet_billing_new ''eur'')) (recording_actuator\<lparr>end_with_slate := (\<lambda>b s w. (Inl ''down'', w))\<rparr>)
       Degrade test_policy 9 7 broke_world
     = ladder_tick no_faults (ladder_quote no_faults (wallet_billing_new ''eur'')) recording_actuator Degrade test_policy 9 7 broke_world"
    using modes_bound_effects [OF ladder_billing.billing_source_axioms] by blast
  show "snd (fst (snd (the (ladder_tick no_faults (ladder_quote no_faults (wallet_billing_new ''eur'')) recording_actuator Degrade test_policy 9 7 broke_world))))
     = [''stop_recording:a'', ''drain_to_origin:a'', ''stop_recording:b'', ''drain_to_origin:b'']" by code_simp
qed

end
