(* ===== verification/Meter_Loop.thy ===== *)
theory Meter_Loop
  imports Billing_Books
begin

text \<open>
  One turn of the meter (\<^verbatim>\<open>crates/mm-fleet/src/meter_loop.rs\<close>): poll and record, then charge when billing
  is enabled, then count the queue; what the tick publishes as metrics; what it logs, with the
  warning about a growing bill that fires on doubling.

  Shown: with billing off a tick moves no money and only adds unrated usage, whatever fails; and
  the warnings about a backlog are logarithmic in its size.
\<close>

section \<open>The tick\<close>

record meter_tick_report =
  mt_sweep :: metering_sweep
  mt_rating :: "rating_report option"
  mt_unrated_backlog :: "int option"
  mt_errors :: "string list"

definition meter_tick :: "schedule \<Rightarrow> 'x metered_node list \<Rightarrow> bool \<Rightarrow> int \<Rightarrow> instant \<Rightarrow> 'x dbenv \<Rightarrow> meter_tick_report \<times> 'x dbenv" where
  "meter_tick \<phi> nodes billing_enabled rating_batch now w =
     (case sweep_egress \<phi> nodes now w of (sweep, w1) \<Rightarrow>
      case (if billing_enabled
            then (case rate_pending \<phi> rating_batch now w1 of
                    (Inr report, w2) \<Rightarrow> ((Some report, []), w2)
                  | (Inl e, w2) \<Rightarrow> ((None, [''rating pass failed: '' @ e]), w2))
            else ((None, []), w1)) of ((rating, errors), w2) \<Rightarrow>
      case unrated_count \<phi> w2 of
        (Inr n, w3) \<Rightarrow> (\<lparr>mt_sweep = sweep, mt_rating = rating, mt_unrated_backlog = Some n, mt_errors = errors\<rparr>, w3)
      | (Inl e, w3) \<Rightarrow> (\<lparr>mt_sweep = sweep, mt_rating = rating, mt_unrated_backlog = None,
          mt_errors = errors @ [''counting the rating queue failed: '' @ e]\<rparr>, w3))"

section \<open>Metrics\<close>

definition node_kind :: "string \<Rightarrow> string" where
  "node_kind n = (if n = origin_node_id then ''origin'' else ''fleet'')"

text \<open>The gauge vector of unrated events by reason, and the increments of the counter of metered bytes.\<close>

record meter_metrics =
  mm_unrated_events :: "(string \<times> int) list"
  mm_metered_bytes :: "(string \<times> int) list"

definition publish_tick :: "meter_tick_report \<Rightarrow> bool \<Rightarrow> meter_metrics \<Rightarrow> meter_metrics" where
  "publish_tick t billing_enabled m =
     \<lparr>mm_unrated_events = (case mt_unrated_backlog t of
          None \<Rightarrow> mm_unrated_events m
        | Some backlog \<Rightarrow> [(if billing_enabled then ''billing_enabled'' else ''billing_disabled'', backlog)]),
      mm_metered_bytes = mm_metered_bytes m @ map (\<lambda>(n, bytes). (node_kind n, max bytes 0)) (ms_metered_bytes (mt_sweep t))\<rparr>"

section \<open>Log\<close>

definition backlog_warning_due :: "int \<Rightarrow> int option \<Rightarrow> bool" where
  "backlog_warning_due backlog last_warned =
     (if backlog \<le> 0 then False
      else case last_warned of None \<Rightarrow> True | Some prev \<Rightarrow> sat_mul_i64 prev 2 \<le> backlog)"

datatype log_line =
  TickError string
| NodeNotMetered "string \<times> string"
| AnomalySeen metering_anomaly
| NoPayer "string list"
| UsageRecorded nat nat
| UsageCharged nat int nat
| CannotCover "string list"
| NotPriced nat "string \<times> string"
| WithoutWallet "string list"
| BillAccumulating int

definition rating_lines :: "rating_report \<Rightarrow> log_line list" where
  "rating_lines r =
     (if 0 < rp_rated r \<or> 0 < rp_recovered r then [UsageCharged (rp_rated r) (rp_charged_minor r) (rp_recovered r)] else [])
     @ (if rp_insufficient_funds r \<noteq> [] then [CannotCover (rp_insufficient_funds r)] else [])
     @ (if rp_unpriceable r \<noteq> [] then [NotPriced (length (rp_unpriceable r)) (hd (rp_unpriceable r))] else [])
     @ (if rp_without_wallet r \<noteq> [] then [WithoutWallet (rp_without_wallet r)] else [])"

definition log_tick :: "meter_tick_report \<Rightarrow> bool \<Rightarrow> int option \<Rightarrow> log_line list \<times> int option" where
  "log_tick t billing_enabled last_warned =
     (let s = mt_sweep t;
          lines = map TickError (mt_errors t) @ map NodeNotMetered (ms_unreachable s) @ map AnomalySeen (ms_anomalies s)
            @ (if ms_unbillable s \<noteq> [] then [NoPayer (ms_unbillable s)] else [])
            @ (if 0 < ms_events_written s then [UsageRecorded (length (ms_polled s)) (ms_events_written s)] else [])
      in case mt_rating t of
           Some r \<Rightarrow> (lines @ rating_lines r, last_warned)
         | None \<Rightarrow>
             if billing_enabled then (lines, last_warned)
             else (case mt_unrated_backlog t of
                     None \<Rightarrow> (lines, last_warned)
                   | Some backlog \<Rightarrow>
                       if backlog_warning_due backlog last_warned then (lines @ [BillAccumulating backlog], Some backlog)
                       else if backlog = 0 then (lines, None)
                       else (lines, last_warned)))"

text \<open>The log of one tick after another, the last warning carried along.\<close>

fun log_ticks :: "meter_tick_report list \<Rightarrow> bool \<Rightarrow> int option \<Rightarrow> log_line list" where
  "log_ticks [] billing_enabled last_warned = []"
| "log_ticks (t # ts) billing_enabled last_warned =
     (case log_tick t billing_enabled last_warned of (lines, warned) \<Rightarrow> lines @ log_ticks ts billing_enabled warned)"

section \<open>Lemmas\<close>

text \<open>A write of the meter: no money, no prices, and unrated events added at the end.\<close>

definition only_metered :: "db \<Rightarrow> db \<Rightarrow> bool" where
  "only_metered d d' \<longleftrightarrow> wallets d' = wallets d \<and> wallet_transactions d' = wallet_transactions d
     \<and> wallet_tx_next d' = wallet_tx_next d \<and> rate_card d' = rate_card d
     \<and> (\<exists>new. usage_events d' = usage_events d @ new \<and> list_all unrated new)"

lemma only_metered_refl [simp]: "only_metered d d"
  by (simp add: only_metered_def)

lemma only_metered_trans: "only_metered d d1 \<Longrightarrow> only_metered d1 d2 \<Longrightarrow> only_metered d d2"
  by (auto simp: only_metered_def)

lemma insert_usage_only_metered: "only_metered d (snd (insert_usage n iv d))"
  by (rule insert_usage_cases [of n iv d]) (auto simp: only_metered_def unrated_def)

lemma insert_intervals_only_metered: "only_metered d (snd (insert_intervals n ivs wr d))"
proof (induction ivs arbitrary: wr d)
  case (Cons iv ivs)
  obtain r d1 where i: "insert_usage n iv d = (r, d1)" by (cases "insert_usage n iv d")
  then have "only_metered d d1" using insert_usage_only_metered [of d n iv] by simp
  then show ?case using i Cons.IH only_metered_trans by (cases r) auto
qed simp

lemma record_tx_only_metered: "only_metered d (snd (record_tx n e t ivs ps d))"
proof -
  let ?z = "\<lparr>rc_events = 0, rc_bytes = 0\<rparr>"
  obtain r d1 where i: "insert_intervals n ivs ?z d = (r, d1)" by (cases "insert_intervals n ivs ?z d")
  then have d1: "only_metered d d1" using insert_intervals_only_metered [of d n ivs ?z] by simp
  obtain r2 d2 where u: "upsert_positions n e t ps d1 = (r2, d2)" by (cases "upsert_positions n e t ps d1")
  obtain rows where "d2 = d1\<lparr>egress_baseline := rows\<rparr>" using upsert_positions_frame [of n e t ps d1] u by auto
  then have "only_metered d d2" using d1 by (simp add: only_metered_def)
  then show ?thesis using i u by (cases r; cases r2) (simp_all add: record_tx_def)
qed

lemma sweep_egress_only_metered: "only_metered (world_db w) (world_db (snd (sweep_egress \<phi> nodes now w)))"
  unfolding sweep_egress_def
  by (rule sweep_nodes_inv [where I = "only_metered (world_db w)"]) (auto intro: only_metered_trans record_tx_only_metered)

text \<open>A warning at least doubles what the last one said, so the number of warnings is bounded.\<close>

definition is_warning :: "log_line \<Rightarrow> bool" where
  "is_warning l = (case l of BillAccumulating _ \<Rightarrow> True | _ \<Rightarrow> False)"

definition accumulating :: "int \<Rightarrow> meter_tick_report \<Rightarrow> bool" where
  "accumulating m t \<longleftrightarrow> mt_rating t = None \<and> (case mt_unrated_backlog t of None \<Rightarrow> True | Some b \<Rightarrow> 0 < b \<and> b \<le> m)"

lemma not_warnings [simp]:
  "filter is_warning (map TickError es) = []" "filter is_warning (map NodeNotMetered ns) = []" "filter is_warning (map AnomalySeen as) = []"
  by (simp_all add: filter_empty_conv is_warning_def)

lemma log_tick_warns:
  assumes "accumulating m t"
  shows "length (filter is_warning (fst (log_tick t False l))) =
      (case mt_unrated_backlog t of None \<Rightarrow> 0 | Some b \<Rightarrow> if backlog_warning_due b l then 1 else 0)"
    and "snd (log_tick t False l) = (case mt_unrated_backlog t of None \<Rightarrow> l | Some b \<Rightarrow> if backlog_warning_due b l then Some b else l)"
  using assms by (auto simp: log_tick_def Let_def accumulating_def is_warning_def split: option.splits)

lemma warnings_after:
  assumes "list_all (accumulating m) ts" and "m < i64_max" and "0 < p" and "p \<le> m"
  shows "2 ^ length (filter is_warning (log_ticks ts False (Some p))) * p \<le> m"
  using assms(1,3,4)
proof (induction ts arbitrary: p)
  case (Cons t ts)
  then have acc: "accumulating m t" by simp
  note w = log_tick_warns [OF acc, of "Some p"]
  obtain lines l' where lt: "log_tick t False (Some p) = (lines, l')" by (cases "log_tick t False (Some p)")
  show ?case
  proof (cases "\<exists>b. mt_unrated_backlog t = Some b \<and> backlog_warning_due b (Some p)")
    case True
    then obtain b where b: "mt_unrated_backlog t = Some b" "backlog_warning_due b (Some p)" by blast
    then have range: "0 < b" "b \<le> m" using acc by (simp_all add: accumulating_def)
    have "2 * p \<le> b"
      using b(2) range Cons.prems(2,3) assms(2) by (auto simp: backlog_warning_due_def sat_mul_i64_def sat_i64_def i64_min_def split: if_splits)
    then have "2 ^ length (filter is_warning (log_ticks ts False (Some b))) * (2 * p) \<le> 2 ^ length (filter is_warning (log_ticks ts False (Some b))) * b"
      by (rule mult_left_mono) simp
    also have "\<dots> \<le> m" using Cons.IH [of b] Cons.prems(1) range by simp
    finally show ?thesis using lt w b by (simp add: mult.assoc mult.left_commute)
  next
    case False
    then have "l' = Some p" "length (filter is_warning lines) = 0" using w lt by (auto split: option.splits)
    then show ?thesis using lt Cons.IH [of p] Cons.prems by simp
  qed
qed simp

lemma first_warning:
  assumes "list_all (accumulating m) ts" and "m < i64_max"
  shows "filter is_warning (log_ticks ts False None) = []
    \<or> 2 ^ length (filter is_warning (log_ticks ts False None)) \<le> 2 * m"
  using assms(1)
proof (induction ts)
  case (Cons t ts)
  then have acc: "accumulating m t" by simp
  note w = log_tick_warns [OF acc, of None]
  obtain lines l' where lt: "log_tick t False None = (lines, l')" by (cases "log_tick t False None")
  show ?case
  proof (cases "mt_unrated_backlog t")
    case None
    then have "l' = None" "filter is_warning lines = []" using w lt by simp_all
    then show ?thesis using lt Cons by auto
  next
    case (Some b)
    then have b: "0 < b" "b \<le> m" "backlog_warning_due b None" using acc by (simp_all add: accumulating_def backlog_warning_due_def)
    have "1 * 2 ^ length (filter is_warning (log_ticks ts False (Some b))) \<le> b * 2 ^ length (filter is_warning (log_ticks ts False (Some b)))"
      using b(1) by (intro mult_right_mono) simp_all
    also have "\<dots> \<le> m" using warnings_after [of m ts b] Cons.prems b assms(2) by (simp add: mult.commute)
    finally show ?thesis using lt w b(3) Some by simp
  qed
qed simp

section \<open>Properties\<close>

text \<open>C17: Metering and charging are separate switches. With billing off a tick leaves every wallet, the
  ledger and the prices as they are and reports no rating, whatever the nodes answer and whatever
  database calls fail; all it does to usage is to add events at the end, none of them rated.\<close>

theorem billing_off_moves_no_money:
  "let t = fst (meter_tick \<phi> nodes False batch now w); d = world_db w; d' = world_db (snd (meter_tick \<phi> nodes False batch now w)) in
     mt_rating t = None \<and> wallets d' = wallets d \<and> wallet_transactions d' = wallet_transactions d \<and> rate_card d' = rate_card d
   \<and> (\<exists>new. usage_events d' = usage_events d @ new \<and> list_all unrated new)"
proof -
  obtain s w1 where s: "sweep_egress \<phi> nodes now w = (s, w1)" by (cases "sweep_egress \<phi> nodes now w")
  obtain r w2 where u: "unrated_count \<phi> w1 = (r, w2)" by (cases "unrated_count \<phi> w1")
  have "world_db w2 = world_db w1" using store_call_reads [of \<phi> unrated_count_rows w1] u unfolding unrated_count_def by (metis snd_conv)
  then have "only_metered (world_db w) (world_db w2)" using sweep_egress_only_metered [of w \<phi> nodes now] s by simp
  then show ?thesis using s u by (cases r) (simp_all add: meter_tick_def only_metered_def)
qed

text \<open>The warning that a bill is accumulating is logarithmic in the bill. Over any number of ticks with
  billing off, while the backlog is never empty and never above some size below the 64-bit
  maximum, twice that size is at least two to the number of warnings.\<close>

theorem backlog_warnings_logarithmic:
  assumes "list_all (accumulating m) ts" and "0 < m" and "m < i64_max"
  shows "2 ^ length (filter is_warning (log_ticks ts False None)) \<le> 2 * m"
  using first_warning [OF assms(1,3)] assms(2) by auto

definition backlog_tick :: "int \<Rightarrow> meter_tick_report" where
  "backlog_tick b = \<lparr>mt_sweep = empty_sweep, mt_rating = None, mt_unrated_backlog = Some b, mt_errors = []\<rparr>"

theorem backlog_warnings_logarithmic_witness:
  "filter is_warning (log_ticks (map backlog_tick [1, 2, 3, 4, 5, 7, 8, 8]) False None)
     = [BillAccumulating 1, BillAccumulating 2, BillAccumulating 4, BillAccumulating 8]
   \<and> 2 ^ length (filter is_warning (log_ticks (map backlog_tick [1, 2, 3, 4, 5, 7, 8, 8]) False None)) \<le> 2 * (8 :: int)"
proof
  show "filter is_warning (log_ticks (map backlog_tick [1, 2, 3, 4, 5, 7, 8, 8]) False None)
     = [BillAccumulating 1, BillAccumulating 2, BillAccumulating 4, BillAccumulating 8]" by code_simp
  have "list_all (accumulating 8) (map backlog_tick [1, 2, 3, 4, 5, 7, 8, 8])" by code_simp
  then show "2 ^ length (filter is_warning (log_ticks (map backlog_tick [1, 2, 3, 4, 5, 7, 8, 8]) False None)) \<le> 2 * (8 :: int)"
    by (rule backlog_warnings_logarithmic) (simp_all add: i64_max_def)
qed

end
