(* ===== verification/Switch_Pool.thy ===== *)
theory Switch_Pool
  imports Fleet_Types "HOL-Library.AList" "HOL-Library.Multiset"
begin

text \<open>
  Which switch a call goes to (\<^verbatim>\<open>crates/mm-api/src/switch_pool.rs\<close>), where a viewer is placed
  (\<^verbatim>\<open>proxy_viewer_offer\<close> of \<^verbatim>\<open>crates/mm-api/src/switch_proxy.rs\<close>), and the node affinity of an ad
  (\<^verbatim>\<open>crates/mm-api/src/ad_affinity.rs\<close>). A hash map is an association list in the order it is iterated;
  nothing shown depends on that order. A client is a value of any type, compared by identity.

  Shown: placement picks the same node whatever the order, the one with most room and of those the
  first by id; over any run of the pool a viewer bound to a node is routed to that node, stays
  there when it offers again, and has its ads switched back there and nowhere else.
\<close>

section \<open>The pool\<close>

record 'c pool_entry =
  pe_node :: fleet_node
  pe_client :: 'c

record 'c switch_pool =
  sp_nodes :: "(string \<times> 'c pool_entry) list"
  sp_viewers :: "(string \<times> string) list"
  sp_origin :: 'c

record 'c viewer_route =
  vr_client :: 'c
  vr_node_id :: "string option"
  vr_billable :: bool

definition pool_new :: "'c \<Rightarrow> 'c switch_pool" where
  "pool_new origin = \<lparr>sp_nodes = [], sp_viewers = [], sp_origin = origin\<rparr>"

definition origin_for :: "'c switch_pool \<Rightarrow> string \<Rightarrow> 'c" where
  "origin_for p stream = sp_origin p"

definition node_count :: "'c switch_pool \<Rightarrow> nat" where
  "node_count p = length (sp_nodes p)"

definition upsert_node :: "fleet_node \<Rightarrow> 'c \<Rightarrow> 'c switch_pool \<Rightarrow> 'c switch_pool" where
  "upsert_node n c p = p\<lparr>sp_nodes := AList.update (fn_id n) \<lparr>pe_node = n, pe_client = c\<rparr> (sp_nodes p)\<rparr>"

definition evict :: "string \<Rightarrow> 'c switch_pool \<Rightarrow> string list \<times> 'c switch_pool" where
  "evict i p =
     (let orphaned = map fst (filter (\<lambda>(v, n). n = i) (sp_viewers p))
      in (orphaned, p\<lparr>sp_nodes := AList.delete i (sp_nodes p), sp_viewers := fold AList.delete orphaned (sp_viewers p)\<rparr>))"

definition bind_viewer :: "string \<Rightarrow> string \<Rightarrow> 'c switch_pool \<Rightarrow> 'c switch_pool" where
  "bind_viewer v n p = p\<lparr>sp_viewers := AList.update v n (sp_viewers p)\<rparr>"

definition unbind_viewer :: "string \<Rightarrow> 'c switch_pool \<Rightarrow> 'c switch_pool" where
  "unbind_viewer v p = p\<lparr>sp_viewers := AList.delete v (sp_viewers p)\<rparr>"

definition node_of_viewer :: "string \<Rightarrow> 'c switch_pool \<Rightarrow> string option" where
  "node_of_viewer v p = map_of (sp_viewers p) v"

definition node_client :: "string \<Rightarrow> 'c switch_pool \<Rightarrow> 'c option" where
  "node_client i p = map_option pe_client (map_of (sp_nodes p) i)"

definition for_viewer :: "string \<Rightarrow> 'c switch_pool \<Rightarrow> 'c option" where
  "for_viewer v p = (case map_of (sp_viewers p) v of None \<Rightarrow> None | Some i \<Rightarrow> node_client i p)"

definition route_viewer :: "string \<Rightarrow> 'c switch_pool \<Rightarrow> 'c viewer_route" where
  "route_viewer v p =
     (case Option.bind (node_of_viewer v p) (\<lambda>i. map_option (Pair i) (node_client i p)) of
        Some (i, c) \<Rightarrow> \<lparr>vr_client = c, vr_node_id = Some i, vr_billable = True\<rparr>
      | None \<Rightarrow> \<lparr>vr_client = sp_origin p, vr_node_id = None, vr_billable = (node_count p = 0)\<rparr>)"

definition client_for_node :: "string option \<Rightarrow> 'c switch_pool \<Rightarrow> 'c option" where
  "client_for_node i p = (case i of None \<Rightarrow> Some (sp_origin p) | Some i \<Rightarrow> node_client i p)"

section \<open>Placement\<close>

datatype ordering = Less | Equal | Greater

definition cmp :: "'a::linorder \<Rightarrow> 'a \<Rightarrow> ordering" where
  "cmp a b = (if a < b then Less else if a = b then Equal else Greater)"

definition then_with :: "ordering \<Rightarrow> ordering \<Rightarrow> ordering" where
  "then_with a b = (case a of Equal \<Rightarrow> b | _ \<Rightarrow> a)"

text \<open>\<^verbatim>\<open>Iterator::max_by\<close>: of equal maxima the last.\<close>

fun max_by :: "('a \<Rightarrow> 'a \<Rightarrow> ordering) \<Rightarrow> 'a list \<Rightarrow> 'a option" where
  "max_by c [] = None"
| "max_by c (x # xs) = Some (fold (\<lambda>y m. if c m y = Greater then m else y) xs x)"

definition room_cmp :: "string \<times> 'c pool_entry \<Rightarrow> string \<times> 'c pool_entry \<Rightarrow> ordering" where
  "room_cmp a b = then_with (cmp (headroom (pe_node (snd a))) (headroom (pe_node (snd b)))) (cmp (fst b) (fst a))"

definition pick_placeable :: "'c switch_pool \<Rightarrow> (string \<times> 'c) option" where
  "pick_placeable p = map_option (\<lambda>(i, e). (i, pe_client e))
     (max_by room_cmp (filter (\<lambda>(i, e). is_placeable (pe_node e)) (sp_nodes p)))"

definition assign_fanout :: "string \<Rightarrow> 'c switch_pool \<Rightarrow> 'c" where
  "assign_fanout stream p = (case pick_placeable p of Some (_, c) \<Rightarrow> c | None \<Rightarrow> sp_origin p)"

definition assign_fanout_node :: "string \<Rightarrow> 'c switch_pool \<Rightarrow> (string \<times> 'c) option" where
  "assign_fanout_node stream p = pick_placeable p"

definition node_id_of :: "'c \<Rightarrow> 'c switch_pool \<Rightarrow> string option" where
  "node_id_of c p = map_option fst (find (\<lambda>(_, e). pe_client e = c) (sp_nodes p))"

definition pool_nodes :: "'c switch_pool \<Rightarrow> fleet_node list" where
  "pool_nodes p = sort_key fn_id (map (pe_node \<circ> snd) (sp_nodes p))"

text \<open>The placement of an offer: stay on the node already bound while it is in the pool.\<close>

definition place_viewer :: "string \<Rightarrow> string \<Rightarrow> 'c switch_pool \<Rightarrow> (string option \<times> 'c) \<times> 'c switch_pool" where
  "place_viewer stream v p =
     (let existing = (case node_of_viewer v p of
            Some n \<Rightarrow> map_option (Pair (Some n)) (client_for_node (Some n) p)
          | None \<Rightarrow> None);
          (node_id, client) = (case existing of
            Some pair \<Rightarrow> pair
          | None \<Rightarrow> (case assign_fanout_node stream p of
               Some (n, c) \<Rightarrow> (Some n, c) | None \<Rightarrow> (None, sp_origin p)))
      in ((node_id, client), case node_id of Some n \<Rightarrow> bind_viewer v n p | None \<Rightarrow> unbind_viewer v p))"

section \<open>Ad affinity\<close>

datatype ad_switch_error =
  NodeAffinityMismatch string "string option" "string option"
| NodeGone string

definition mismatch_reason :: "ad_switch_error \<Rightarrow> string" where
  "mismatch_reason e =
     (case e of
        NodeAffinityMismatch _ _ actual \<Rightarrow> (case actual of None \<Rightarrow> ''unplaced'' | Some _ \<Rightarrow> ''moved'')
      | NodeGone _ \<Rightarrow> ''node_gone'')"

definition resolve_switch_back :: "'c switch_pool \<Rightarrow> string \<Rightarrow> string option \<Rightarrow> ad_switch_error + 'c" where
  "resolve_switch_back p v set_up_on =
     (let current = node_of_viewer v p in
      if current \<noteq> set_up_on then Inl (NodeAffinityMismatch v set_up_on current)
      else case client_for_node set_up_on p of
             Some c \<Rightarrow> Inr c
           | None \<Rightarrow> Inl (NodeGone (case set_up_on of Some n \<Rightarrow> n | None \<Rightarrow> ''origin'')))"

section \<open>Runs\<close>

datatype 'c pool_op = RegisterNode fleet_node 'c | EvictNode string | OfferViewer string string

fun run_pool :: "'c pool_op \<Rightarrow> 'c switch_pool \<Rightarrow> 'c switch_pool" where
  "run_pool (RegisterNode n c) p = upsert_node n c p"
| "run_pool (EvictNode i) p = snd (evict i p)"
| "run_pool (OfferViewer stream v) p = snd (place_viewer stream v p)"

section \<open>Lemmas\<close>

text \<open>Every binding is to a registered node, and each map has its keys once.\<close>

definition pool_wf :: "'c switch_pool \<Rightarrow> bool" where
  "pool_wf p \<longleftrightarrow> distinct (map fst (sp_nodes p)) \<and> distinct (map fst (sp_viewers p))
     \<and> snd ` set (sp_viewers p) \<subseteq> fst ` set (sp_nodes p)"

lemma fold_delete_map_of: "map_of (fold AList.delete ks xs) = (map_of xs) |` (- set ks)"
  by (induction ks arbitrary: xs) (auto simp: delete_conv restrict_map_def fun_eq_iff)

lemma fold_delete_distinct: "distinct (map fst xs) \<Longrightarrow> distinct (map fst (fold AList.delete ks xs))"
  by (induction ks arbitrary: xs) (simp_all add: distinct_delete)

lemma pool_wf_bindings:
  assumes "distinct (map fst (sp_nodes p))" and "distinct (map fst (sp_viewers p))"
  shows "pool_wf p \<longleftrightarrow> (\<forall>v n. node_of_viewer v p = Some n \<longrightarrow> node_client n p \<noteq> None)"
  using assms by (auto simp: pool_wf_def node_of_viewer_def node_client_def map_of_eq_None_iff dest: map_of_SomeD)
    (metis image_eqI map_of_eq_Some_iff snd_conv subsetD)

text \<open>The best of a list: nothing in it has more room, or as much under a smaller id.\<close>

definition better :: "string \<times> 'c pool_entry \<Rightarrow> string \<times> 'c pool_entry \<Rightarrow> bool" where
  "better m y \<longleftrightarrow> headroom (pe_node (snd y)) < headroom (pe_node (snd m))
     \<or> headroom (pe_node (snd y)) = headroom (pe_node (snd m)) \<and> fst m \<le> fst y"

lemma room_cmp_Greater: "room_cmp m y = Greater \<longleftrightarrow> better m y \<and> \<not> better y m"
  by (auto simp: room_cmp_def then_with_def cmp_def better_def)

lemma better_total: "better m y \<or> better y m"
  by (auto simp: better_def)

lemma better_refl [simp]: "better m m"
  by (simp add: better_def)

lemma better_trans: "better a b \<Longrightarrow> better b c \<Longrightarrow> better a c"
  by (auto simp: better_def)

lemma better_same: "better a b \<Longrightarrow> better b a \<Longrightarrow> fst a = fst b"
  by (auto simp: better_def)

lemma fold_room_cmp:
  "fold (\<lambda>y m. if room_cmp m y = Greater then m else y) xs m \<in> insert m (set xs)
   \<and> (\<forall>y\<in>insert m (set xs). better (fold (\<lambda>y m. if room_cmp m y = Greater then m else y) xs m) y)"
proof (induction xs arbitrary: m)
  case (Cons x xs)
  let ?n = "if room_cmp m x = Greater then m else x"
  have n: "better ?n m" "better ?n x" "?n \<in> {m, x}" using better_total [of m x] by (auto simp: room_cmp_Greater)
  define r where "r = fold (\<lambda>y m. if room_cmp m y = Greater then m else y) xs ?n"
  have r: "r \<in> insert ?n (set xs)" "better r ?n" "\<And>y. y \<in> set xs \<Longrightarrow> better r y" using Cons.IH [of ?n] unfolding r_def by blast+
  have "better r m" "better r x" using better_trans [OF r(2)] n(1,2) by blast+
  moreover have "r \<in> insert m (set (x # xs))" using r(1) n(3) unfolding list.set by blast
  ultimately show ?case unfolding fold_simps(2) r_def [symmetric] list.set using r(3) by blast
qed simp

lemma max_by_room:
  assumes "max_by room_cmp xs = Some m"
  shows "m \<in> set xs" and "y \<in> set xs \<Longrightarrow> better m y"
proof -
  obtain x l where xs: "xs = x # l" using assms by (cases xs) auto
  have "m = fold (\<lambda>y m. if room_cmp m y = Greater then m else y) l x" using assms unfolding xs by simp
  with fold_room_cmp [of l x] show "m \<in> set xs" and "y \<in> set xs \<Longrightarrow> better m y" unfolding xs by (simp_all only: list.set)
qed

lemma max_by_None: "max_by c xs = None \<longleftrightarrow> xs = []"
  by (cases xs) simp_all

lemma pick_registered: "pick_placeable p = Some (i, c) \<Longrightarrow> node_client i p \<noteq> None"
  by (auto simp: pick_placeable_def node_client_def map_of_eq_None_iff dest!: max_by_room(1) intro: rev_image_eqI)

lemma evict_wf: "pool_wf p \<Longrightarrow> pool_wf (snd (evict i p))"
proof -
  assume wf: "pool_wf p"
  let ?o = "map fst (filter (\<lambda>(v, n). n = i) (sp_viewers p))" and ?q = "snd (evict i p)"
  have d: "distinct (map fst (sp_nodes ?q))" "distinct (map fst (sp_viewers ?q))"
    using wf by (simp_all add: evict_def Let_def pool_wf_def distinct_delete fold_delete_distinct)
  have "node_client n ?q \<noteq> None" if v: "node_of_viewer v ?q = Some n" for v n
  proof -
    have "v \<notin> set ?o" and vn: "map_of (sp_viewers p) v = Some n"
      using v by (auto simp: node_of_viewer_def evict_def Let_def fold_delete_map_of restrict_map_def split: if_splits)
    then have "n \<noteq> i" using map_of_SomeD [OF vn] by force
    moreover have "n \<in> fst ` set (sp_nodes p)" using wf map_of_SomeD [OF vn] unfolding pool_wf_def by force
    ultimately show ?thesis by (auto simp: node_client_def evict_def Let_def delete_conv map_of_eq_None_iff)
  qed
  then show ?thesis using pool_wf_bindings [OF d] by blast
qed

lemma pool_simps [simp]:
  "node_of_viewer v (upsert_node n c p) = node_of_viewer v p"
  "node_client i (upsert_node n c p) = (if i = fn_id n then Some c else node_client i p)"
  "node_of_viewer v (bind_viewer u i p) = (if v = u then Some i else node_of_viewer v p)"
  "node_client i (bind_viewer u j p) = node_client i p"
  "node_of_viewer v (unbind_viewer u p) = (if v = u then None else node_of_viewer v p)"
  "node_client i (unbind_viewer u p) = node_client i p"
  by (simp_all add: node_of_viewer_def node_client_def upsert_node_def bind_viewer_def unbind_viewer_def update_conv' delete_conv
      restrict_map_def)

lemma pool_fields [simp]:
  "sp_nodes (upsert_node n c p) = AList.update (fn_id n) \<lparr>pe_node = n, pe_client = c\<rparr> (sp_nodes p)"
  "sp_nodes (bind_viewer v i p) = sp_nodes p" "sp_nodes (unbind_viewer v p) = sp_nodes p"
  "sp_viewers (upsert_node n c p) = sp_viewers p" "sp_viewers (bind_viewer v i p) = AList.update v i (sp_viewers p)"
  "sp_viewers (unbind_viewer v p) = AList.delete v (sp_viewers p)"
  by (simp_all add: upsert_node_def bind_viewer_def unbind_viewer_def)

lemma pool_wf_keys: "pool_wf p \<Longrightarrow> distinct (map fst (sp_nodes p)) \<and> distinct (map fst (sp_viewers p))"
  by (simp add: pool_wf_def)

lemma pool_wf_binding: "pool_wf p \<Longrightarrow> node_of_viewer v p = Some n \<Longrightarrow> node_client n p \<noteq> None"
  using pool_wf_bindings pool_wf_keys by blast

lemma pool_wfI:
  assumes "pool_wf p" and "sp_nodes q = sp_nodes p \<or> (\<exists>i e. sp_nodes q = AList.update i e (sp_nodes p))"
    and "sp_viewers q = sp_viewers p \<or> (\<exists>v i. sp_viewers q = AList.update v i (sp_viewers p)) \<or> (\<exists>v. sp_viewers q = AList.delete v (sp_viewers p))"
    and "\<And>v n. node_of_viewer v q = Some n \<Longrightarrow> node_client n q \<noteq> None"
  shows "pool_wf q"
proof -
  have "distinct (map fst (sp_nodes q))" "distinct (map fst (sp_viewers q))"
    using assms(2,3) pool_wf_keys [OF assms(1)] by (auto simp: distinct_update distinct_delete)
  then show ?thesis using pool_wf_bindings assms(4) by blast
qed

lemma place_wf:
  assumes wf: "pool_wf p"
  shows "pool_wf (snd (place_viewer stream v p))"
proof -
  have "pool_wf (unbind_viewer v p)"
    using wf by (rule pool_wfI) (use pool_wf_binding [OF wf] in \<open>auto split: if_splits\<close>)
  moreover have "pool_wf (bind_viewer v n p)" if "node_client n p \<noteq> None" for n
    using wf by (rule pool_wfI) (use pool_wf_binding [OF wf] that in \<open>auto split: if_splits\<close>)
  ultimately show ?thesis using pick_registered [of p]
    by (auto simp: place_viewer_def Let_def assign_fanout_node_def client_for_node_def split: option.splits prod.splits)
qed

interpretation pool_runs: invariant_system run_pool pool_wf
proof
  fix p :: "'c switch_pool" and e
  assume wf: "pool_wf p"
  show "pool_wf (run_pool e p)"
  proof (cases e)
    case (RegisterNode n c)
    have "pool_wf (upsert_node n c p)"
      using wf by (rule pool_wfI) (use pool_wf_binding [OF wf] in \<open>auto split: if_splits\<close>)
    then show ?thesis by (simp add: RegisterNode)
  next
    case (EvictNode i)
    then show ?thesis using evict_wf [OF wf] by simp
  next
    case (OfferViewer stream v)
    then show ?thesis using place_wf [OF wf] by simp
  qed
qed

lemma pool_new_wf: "pool_wf (pool_new c)"
  by (simp add: pool_wf_def pool_new_def)

lemma run_pool_origin: "sp_origin (fold run_pool ops p) = sp_origin p"
proof (induction ops arbitrary: p)
  case (Cons e ops)
  have "sp_origin (run_pool e p) = sp_origin p"
    by (cases e) (auto simp: upsert_node_def evict_def place_viewer_def bind_viewer_def unbind_viewer_def Let_def split: prod.split option.split)
  then show ?case using Cons by simp
qed simp

lemma bound_viewer:
  assumes wf: "pool_wf p" and b: "node_of_viewer v p = Some n"
  shows "\<exists>c. node_client n p = Some c \<and> route_viewer v p = \<lparr>vr_client = c, vr_node_id = Some n, vr_billable = True\<rparr>
    \<and> resolve_switch_back p v (Some n) = Inr c
    \<and> fst (place_viewer s v p) = (Some n, c) \<and> node_of_viewer v (snd (place_viewer s v p)) = Some n"
proof -
  obtain c where "node_client n p = Some c" using pool_wf_binding [OF wf b] by blast
  then show ?thesis using b
    by (simp add: route_viewer_def resolve_switch_back_def place_viewer_def client_for_node_def Let_def)
qed

lemma unbound_viewer:
  assumes "node_of_viewer v p = None"
  shows "route_viewer v p = \<lparr>vr_client = sp_origin p, vr_node_id = None, vr_billable = (sp_nodes p = [])\<rparr>"
    and "resolve_switch_back p v (Some n) = Inl (NodeAffinityMismatch v (Some n) None)"
    and "resolve_switch_back p v None = Inr (sp_origin p)"
  using assms by (simp_all add: route_viewer_def resolve_switch_back_def client_for_node_def node_count_def)

section \<open>Properties\<close>

text \<open>Placement is the best choice and no accident of the hash map. A node is picked exactly when some
  node is placeable; it is placeable, no placeable node has more room, and of those with as much
  room it is the first by id. This determines the pick from the set of nodes alone, so the order
  in which the map is iterated does not matter.\<close>

theorem placement_best:
  assumes "distinct (map fst (sp_nodes p))"
  shows "(pick_placeable p = None \<longleftrightarrow> \<not> list_ex (\<lambda>(i, e). is_placeable (pe_node e)) (sp_nodes p))
    \<and> (pick_placeable p = Some (i, c) \<longleftrightarrow> (\<exists>e. (i, e) \<in> set (sp_nodes p) \<and> is_placeable (pe_node e) \<and> pe_client e = c
         \<and> (\<forall>j f. (j, f) \<in> set (sp_nodes p) \<and> is_placeable (pe_node f) \<longrightarrow>
              headroom (pe_node f) < headroom (pe_node e) \<or> headroom (pe_node f) = headroom (pe_node e) \<and> i \<le> j)))"
    (is "?none \<and> (_ \<longleftrightarrow> ?best)")
proof
  let ?l = "filter (\<lambda>(i, e). is_placeable (pe_node e)) (sp_nodes p)"
  show ?none by (simp add: pick_placeable_def max_by_None list_ex_iff filter_empty_conv)
  show "pick_placeable p = Some (i, c) \<longleftrightarrow> ?best"
  proof
    assume "pick_placeable p = Some (i, c)"
    then obtain e where m: "max_by room_cmp ?l = Some (i, e)" and c: "pe_client e = c" by (auto simp: pick_placeable_def)
    have "better (i, e) (j, f)" if "(j, f) \<in> set (sp_nodes p) \<and> is_placeable (pe_node f)" for j f
      using max_by_room(2) [OF m, of "(j, f)"] that by simp
    then show ?best using max_by_room(1) [OF m] c unfolding better_def by auto
  next
    assume ?best
    then obtain e where e: "(i, e) \<in> set ?l" "pe_client e = c" and b: "\<And>y. y \<in> set ?l \<Longrightarrow> better (i, e) y"
      by (fastforce simp: better_def)
    obtain m where m: "max_by room_cmp ?l = Some m" using e(1) max_by_None [of room_cmp ?l] by (metis empty_iff empty_set option.exhaust)
    have "fst m = fst (i, e)" using better_same [OF max_by_room(2) [OF m e(1)] b [OF max_by_room(1) [OF m]]] .
    moreover have "m \<in> set (sp_nodes p)" "(i, e) \<in> set (sp_nodes p)" using max_by_room(1) [OF m] e(1) by auto
    ultimately have "m = (i, e)" using assms by (metis eq_key_imp_eq_value fst_conv prod.collapse)
    then show "pick_placeable p = Some (i, c)" using m e(2) by (simp add: pick_placeable_def)
  qed
qed

definition fanout_node :: "string \<Rightarrow> nat \<Rightarrow> fleet_node" where
  "fanout_node i used = \<lparr>fn_id = i, fn_flavor = Fanout, fn_ownership = Rented, fn_state = Healthy, fn_viewer_capacity = 9, fn_viewers_current = used\<rparr>"

definition small_pool :: "nat switch_pool" where
  "small_pool = fold run_pool [RegisterNode (fanout_node ''n2'' 3) 2, RegisterNode (fanout_node ''n3'' 12) 3, RegisterNode (fanout_node ''n1'' 3) 1,
     OfferViewer ''s'' ''v''] (pool_new 0)"

theorem placement_best_witness:
  "pick_placeable small_pool = Some (''n1'', 1)
   \<and> (\<exists>e. (''n1'', e) \<in> set (sp_nodes small_pool) \<and> is_placeable (pe_node e) \<and> pe_client e = 1)"
proof -
  have "distinct (map fst (sp_nodes small_pool))" by code_simp
  from placement_best [OF this, of "''n1''" 1] have "pick_placeable small_pool = Some (''n1'', 1) \<longrightarrow>
      (\<exists>e. (''n1'', e) \<in> set (sp_nodes small_pool) \<and> is_placeable (pe_node e) \<and> pe_client e = 1)" by blast
  moreover have "pick_placeable small_pool = Some (''n1'', 1)" by code_simp
  ultimately show ?thesis by blast
qed

text \<open>C14: A viewer's calls go where the viewer is. After any run of registrations, evictions and offers: a
  viewer bound to a node is routed to the client of that node, billably; an offer keeps it there;
  an ad set up there is switched back there. A viewer bound to none is routed to the origin, and
  billably only when there are no nodes at all; an ad set up on any node is not switched back.\<close>

theorem pool_routes_to_viewer:
  "let p = fold run_pool ops (pool_new origin) in
     case node_of_viewer v p of
       Some n \<Rightarrow> (\<exists>c. node_client n p = Some c \<and> route_viewer v p = \<lparr>vr_client = c, vr_node_id = Some n, vr_billable = True\<rparr>
         \<and> resolve_switch_back p v (Some n) = Inr c
         \<and> fst (place_viewer s v p) = (Some n, c) \<and> node_of_viewer v (snd (place_viewer s v p)) = Some n)
     | None \<Rightarrow> route_viewer v p = \<lparr>vr_client = origin, vr_node_id = None, vr_billable = (sp_nodes p = [])\<rparr>
         \<and> resolve_switch_back p v (Some m) = Inl (NodeAffinityMismatch v (Some m) None)
         \<and> resolve_switch_back p v None = Inr origin"
proof -
  define p where "p = fold run_pool ops (pool_new origin)"
  have wf: "pool_wf p" unfolding p_def by (rule pool_runs.run_keeps [OF pool_new_wf])
  have o: "sp_origin p = origin" unfolding p_def run_pool_origin by (simp add: pool_new_def)
  show ?thesis unfolding p_def [symmetric] Let_def
    using bound_viewer [OF wf, of v _ s] unbound_viewer [of v p] o by (cases "node_of_viewer v p") simp_all
qed

text \<open>A viewer on the origin has no binding, so an offer repeated after nodes have appeared moves it.\<close>

lemma origin_viewer_moves:
  "let p = snd (place_viewer ''s'' ''v'' (pool_new 0)); q = upsert_node (fanout_node ''n1'' 0) 1 p in
     fst (place_viewer ''s'' ''v'' (pool_new 0)) = (None, 0 :: nat) \<and> fst (place_viewer ''s'' ''v'' q) = (Some ''n1'', 1 :: nat)"
  by code_simp

end
