(* ===== verification/Ebml_Value.thy ===== *)
theory Ebml_Value
  imports MM_Prelude "HOL-Library.Word"
begin

text \<open>
  The value codec of the EBML library the switch vendors
  (\<^verbatim>\<open>services/mm-switch/internal-ebml-fork/value.go\<close>): variable-length integers, data sizes,
  element ids, fixed-width integers, dates, strings and binaries, written to byte slices and read
  from an \<^verbatim>\<open>io.Reader\<close>.

  Bytes are \<^typ>\<open>8 word\<close> and \<^verbatim>\<open>uint64\<close> is \<^typ>\<open>64 word\<close>; \<^verbatim>\<open>int64\<close> is \<^typ>\<open>int\<close> where the code only compares
  and adds inside the range. A reader delivers the bytes it has left, one or more per call, and then
  returns its final error, \<^verbatim>\<open>io.EOF\<close> or another, on every call. \<^verbatim>\<open>make([]byte, n)\<close> panics for a
  length the allocator refuses. Floats are not modelled.
\<close>

unbundle bit_operations_syntax

section \<open>Readers and errors\<close>

type_synonym byte = "8 word"
type_synonym bytes = "8 word list"
type_synonym uint64 = "64 word"

datatype ebml_error = IoEOF | ErrUnexpectedEOF | IoError string
  | ErrInvalidType | ErrUnsupportedElementID | ErrOutOfRange
  | ErrTooManyFrames | ErrUnevenFixedLace | ErrFixedLaceUndivisible

text \<open>What a Go function returns, or that it panics.\<close>

datatype 'a go = Ok 'a | Err ebml_error | Panics

record reader =
  rd_left :: bytes
  rd_end :: ebml_error

definition read1 :: "reader \<Rightarrow> (ebml_error + byte) \<times> reader" where
  "read1 r = (case rd_left r of [] \<Rightarrow> (Inl (rd_end r), r) | b # bs \<Rightarrow> (Inr b, r\<lparr>rd_left := bs\<rparr>))"

text \<open>The switch the code puts after a read: the end of the input is unexpected, other errors pass.\<close>

definition unexpected :: "ebml_error \<Rightarrow> ebml_error" where
  "unexpected e = (if e = IoEOF then ErrUnexpectedEOF else e)"

text \<open>\<^verbatim>\<open>io.ReadFull\<close>: the end of the input is \<^verbatim>\<open>io.EOF\<close> only when nothing was read.\<close>

definition read_full :: "nat \<Rightarrow> reader \<Rightarrow> (ebml_error + bytes) \<times> reader" where
  "read_full n r =
     (if n \<le> length (rd_left r) then (Inr (take n (rd_left r)), r\<lparr>rd_left := drop n (rd_left r)\<rparr>)
      else (Inl (if rd_left r = [] then rd_end r else unexpected (rd_end r)), r\<lparr>rd_left := []\<rparr>))"

text \<open>The largest slice of bytes the runtime allocates on the 64-bit platforms the service runs on.\<close>

definition max_alloc :: int where
  "max_alloc = 2 ^ 48"

definition make_ok :: "int \<Rightarrow> bool" where
  "make_ok n \<longleftrightarrow> 0 \<le> n \<and> n \<le> max_alloc"

section \<open>Decoding\<close>

definition SizeUnknown :: uint64 where
  "SizeUnknown = 0xffffffffffffff"

definition vuint_head :: "byte \<Rightarrow> nat \<times> uint64" where
  "vuint_head b =
     (if b AND 0x80 = 0x80 then (0, ucast (b AND 0x7F))
      else if b AND 0xC0 = 0x40 then (1, ucast (b AND 0x3F))
      else if b AND 0xE0 = 0x20 then (2, ucast (b AND 0x1F))
      else if b AND 0xF0 = 0x10 then (3, ucast (b AND 0x0F))
      else if b AND 0xF8 = 0x08 then (4, ucast (b AND 0x07))
      else if b AND 0xFC = 0x04 then (5, ucast (b AND 0x03))
      else if b AND 0xFE = 0x02 then (6, ucast (b AND 0x01))
      else if b = 0x01 then (7, 0)
      else (0, 0))"

fun vuint_rest :: "nat \<Rightarrow> uint64 \<Rightarrow> nat \<Rightarrow> reader \<Rightarrow> (uint64 \<times> nat \<times> ebml_error option) \<times> reader" where
  "vuint_rest 0 v n r = ((v, n, None), r)"
| "vuint_rest (Suc vc) v n r =
     (case read1 r of
        (Inl e, r') \<Rightarrow> ((0, n, Some (unexpected e)), r')
      | (Inr b, r') \<Rightarrow> vuint_rest vc (push_bit 8 v OR ucast b) (n + 1) r')"

definition readVUInt :: "reader \<Rightarrow> (uint64 \<times> nat \<times> ebml_error option) \<times> reader" where
  "readVUInt r =
     (case read1 r of
        (Inl e, r') \<Rightarrow> ((0, 0, Some (unexpected e)), r')
      | (Inr b, r') \<Rightarrow> (let (vc, v) = vuint_head b in vuint_rest vc v 1 r'))"

definition readDataSize :: "reader \<Rightarrow> (uint64 \<times> nat \<times> ebml_error option) \<times> reader" where
  "readDataSize r =
     (let ((v, n, err), r') = readVUInt r in
      if v = drop_bit (64 - n * 7) 0xFFFFFFFFFFFFFFFF then ((SizeUnknown, n, err), r') else ((v, n, err), r'))"

definition vint_bias :: "nat \<Rightarrow> int" where
  "vint_bias n =
     (if n = 1 then 0x3F else if n = 2 then 0x1FFF else if n = 3 then 0x0FFFFF
      else if n = 4 then 0x07FFFFFF else if n = 5 then 0x03FFFFFFFF else if n = 6 then 0x01FFFFFFFFFF
      else if n = 7 then 0x00FFFFFFFFFFFF else 0x007FFFFFFFFFFFFF)"

definition readVInt :: "reader \<Rightarrow> (int \<times> nat \<times> ebml_error option) \<times> reader" where
  "readVInt r =
     (let ((u, n, err), r') = readVUInt r in
      case err of Some e \<Rightarrow> ((0, n, Some e), r') | None \<Rightarrow> ((sint u - vint_bias n, n, None), r'))"

definition readBinary :: "nat \<Rightarrow> reader \<Rightarrow> bytes go \<times> reader" where
  "readBinary n r =
     (if \<not> make_ok (int n) then (Panics, r)
      else case read_full n r of (Inr bs, r') \<Rightarrow> (Ok bs, r') | (Inl e, r') \<Rightarrow> (Err (unexpected e), r'))"

definition readString :: "nat \<Rightarrow> reader \<Rightarrow> bytes go \<times> reader" where
  "readString n r =
     (case readBinary n r of
        (Ok bs, r') \<Rightarrow> (Ok (takeWhile (\<lambda>c. c \<noteq> 0) bs), r')
      | (Err e, r') \<Rightarrow> (Err e, r')
      | (Panics, r') \<Rightarrow> (Panics, r'))"

definition readUInt :: "nat \<Rightarrow> reader \<Rightarrow> uint64 go \<times> reader" where
  "readUInt n r =
     (if \<not> make_ok (int n) then (Panics, r)
      else case read_full n r of
        (Inr bs, r') \<Rightarrow> (Ok (fold (\<lambda>b v. push_bit 8 v OR ucast b) bs 0), r')
      | (Inl e, r') \<Rightarrow> (Err (unexpected e), r'))"

text \<open>A shift by 64 or more gives zero; for \<open>n = 0\<close> the shift distance wraps around to such a one.\<close>

definition sign_extend :: "nat \<Rightarrow> uint64 \<Rightarrow> uint64" where
  "sign_extend n v =
     (if n \<noteq> 8 \<and> n \<noteq> 0 \<and> v AND push_bit (n * 8 - 1) 1 \<noteq> 0
      then fold (\<lambda>i w. w OR push_bit (i * 8) 0xFF) [n..<8] v
      else v)"

definition readInt :: "nat \<Rightarrow> reader \<Rightarrow> int go \<times> reader" where
  "readInt n r =
     (case readUInt n r of
        (Ok v, r') \<Rightarrow> (Ok (sint (sign_extend n v)), r')
      | (Err e, r') \<Rightarrow> (Err e, r')
      | (Panics, r') \<Rightarrow> (Panics, r'))"

text \<open>Instants are nanoseconds of Unix time.\<close>

definition DateEpochInUnixtime :: int where
  "DateEpochInUnixtime = 978307200"

definition readDate :: "nat \<Rightarrow> reader \<Rightarrow> int go \<times> reader" where
  "readDate n r =
     (case readInt n r of
        (Ok v, r') \<Rightarrow> (Ok (DateEpochInUnixtime * 1000000000 + v), r')
      | (Err e, r') \<Rightarrow> (Err e, r')
      | (Panics, r') \<Rightarrow> (Panics, r'))"

section \<open>Encoding\<close>

definition encodeDataSize :: "uint64 \<Rightarrow> uint64 \<Rightarrow> bytes" where
  "encodeDataSize v n =
     (if v < 0x80 - 1 \<and> n < 2 then [ucast v OR 0x80]
      else if v < 0x4000 - 1 \<and> n < 3 then [ucast (drop_bit 8 v) OR 0x40, ucast v]
      else if v < 0x200000 - 1 \<and> n < 4 then [ucast (drop_bit 16 v) OR 0x20, ucast (drop_bit 8 v), ucast v]
      else if v < 0x10000000 - 1 \<and> n < 5
      then [ucast (drop_bit 24 v) OR 0x10, ucast (drop_bit 16 v), ucast (drop_bit 8 v), ucast v]
      else if v < 0x800000000 - 1 \<and> n < 6
      then [ucast (drop_bit 32 v) OR 0x8, ucast (drop_bit 24 v), ucast (drop_bit 16 v), ucast (drop_bit 8 v), ucast v]
      else if v < 0x40000000000 - 1 \<and> n < 7
      then [ucast (drop_bit 40 v) OR 0x4, ucast (drop_bit 32 v), ucast (drop_bit 24 v), ucast (drop_bit 16 v),
            ucast (drop_bit 8 v), ucast v]
      else if v < 0x2000000000000 - 1 \<and> n < 8
      then [ucast (drop_bit 48 v) OR 0x2, ucast (drop_bit 40 v), ucast (drop_bit 32 v), ucast (drop_bit 24 v),
            ucast (drop_bit 16 v), ucast (drop_bit 8 v), ucast v]
      else if v < SizeUnknown
      then [0x1, ucast (drop_bit 48 v), ucast (drop_bit 40 v), ucast (drop_bit 32 v), ucast (drop_bit 24 v),
            ucast (drop_bit 16 v), ucast (drop_bit 8 v), ucast v]
      else [0x01, 0xff, 0xff, 0xff, 0xff, 0xff, 0xff, 0xff])"

definition encodeElementID :: "uint64 \<Rightarrow> ebml_error + bytes" where
  "encodeElementID v =
     (if v < 0x80 then Inr [ucast v OR 0x80]
      else if v < 0x4000 then Inr [ucast (drop_bit 8 v) OR 0x40, ucast v]
      else if v < 0x200000 then Inr [ucast (drop_bit 16 v) OR 0x20, ucast (drop_bit 8 v), ucast v]
      else if v < 0x10000000
      then Inr [ucast (drop_bit 24 v) OR 0x10, ucast (drop_bit 16 v), ucast (drop_bit 8 v), ucast v]
      else if v < 0x800000000
      then Inr [ucast (drop_bit 32 v) OR 0x8, ucast (drop_bit 24 v), ucast (drop_bit 16 v), ucast (drop_bit 8 v), ucast v]
      else if v < 0x40000000000
      then Inr [ucast (drop_bit 40 v) OR 0x4, ucast (drop_bit 32 v), ucast (drop_bit 24 v), ucast (drop_bit 16 v),
            ucast (drop_bit 8 v), ucast v]
      else if v < 0x2000000000000
      then Inr [ucast (drop_bit 48 v) OR 0x2, ucast (drop_bit 40 v), ucast (drop_bit 32 v), ucast (drop_bit 24 v),
            ucast (drop_bit 16 v), ucast (drop_bit 8 v), ucast v]
      else Inl ErrUnsupportedElementID)"

definition encodeVInt :: "int \<Rightarrow> ebml_error + bytes" where
  "encodeVInt v =
     (if - 0x3F \<le> v \<and> v \<le> 0x3F then Inr (encodeDataSize (word_of_int (v + 0x3F)) 1)
      else if - 0x1FFF \<le> v \<and> v \<le> 0x1FFF then Inr (encodeDataSize (word_of_int (v + 0x1FFF)) 2)
      else if - 0xFFFFF \<le> v \<and> v \<le> 0xFFFFF then Inr (encodeDataSize (word_of_int (v + 0xFFFFF)) 3)
      else if - 0x7FFFFFF \<le> v \<and> v \<le> 0x7FFFFFF then Inr (encodeDataSize (word_of_int (v + 0x7FFFFFF)) 4)
      else if - 0x3FFFFFFFF \<le> v \<and> v \<le> 0x3FFFFFFFF then Inr (encodeDataSize (word_of_int (v + 0x3FFFFFFFF)) 5)
      else if - 0x1FFFFFFFFFF \<le> v \<and> v \<le> 0x1FFFFFFFFFF then Inr (encodeDataSize (word_of_int (v + 0x1FFFFFFFFFF)) 6)
      else if - 0xFFFFFFFFFFFF \<le> v \<and> v \<le> 0xFFFFFFFFFFFF then Inr (encodeDataSize (word_of_int (v + 0xFFFFFFFFFFFF)) 7)
      else if - 0x7FFFFFFFFFFFFF \<le> v \<and> v \<le> 0x7FFFFFFFFFFFFF
      then Inr (encodeDataSize (word_of_int (v + 0x7FFFFFFFFFFFFF)) 8)
      else Inl ErrOutOfRange)"

text \<open>The dynamically typed values the encoders take. The signed types of Go are widened to
  \<^verbatim>\<open>int64\<close> and the unsigned ones to \<^verbatim>\<open>uint64\<close> before anything else happens to them.\<close>

datatype 'b go_value = GoInt int | GoUint uint64 | GoBytes bytes | GoString bytes | GoTime int | GoBlock 'b | GoOther

definition pad_zeros :: "bytes \<Rightarrow> nat \<Rightarrow> bytes" where
  "pad_zeros v n = (if n \<le> length v then v else v @ replicate (n - length v) 0)"

definition encodeBinary :: "'b go_value \<Rightarrow> nat \<Rightarrow> ebml_error + bytes" where
  "encodeBinary i n = (case i of GoBytes v \<Rightarrow> Inr (pad_zeros v n) | _ \<Rightarrow> Inl ErrInvalidType)"

definition encodeString :: "'b go_value \<Rightarrow> nat \<Rightarrow> ebml_error + bytes" where
  "encodeString i n = (case i of GoString v \<Rightarrow> Inr (pad_zeros v n) | _ \<Rightarrow> Inl ErrInvalidType)"

definition uint_bytes :: "uint64 \<Rightarrow> nat \<Rightarrow> bytes" where
  "uint_bytes v n =
     (if v < 0x100 \<and> n < 2 then [ucast v]
      else if v < 0x10000 \<and> n < 3 then [ucast (drop_bit 8 v), ucast v]
      else if v < 0x1000000 \<and> n < 4 then [ucast (drop_bit 16 v), ucast (drop_bit 8 v), ucast v]
      else if v < 0x100000000 \<and> n < 5
      then [ucast (drop_bit 24 v), ucast (drop_bit 16 v), ucast (drop_bit 8 v), ucast v]
      else if v < 0x10000000000 \<and> n < 6
      then [ucast (drop_bit 32 v), ucast (drop_bit 24 v), ucast (drop_bit 16 v), ucast (drop_bit 8 v), ucast v]
      else if v < 0x1000000000000 \<and> n < 7
      then [ucast (drop_bit 40 v), ucast (drop_bit 32 v), ucast (drop_bit 24 v), ucast (drop_bit 16 v),
            ucast (drop_bit 8 v), ucast v]
      else if v < 0x100000000000000 \<and> n < 8
      then [ucast (drop_bit 48 v), ucast (drop_bit 40 v), ucast (drop_bit 32 v), ucast (drop_bit 24 v),
            ucast (drop_bit 16 v), ucast (drop_bit 8 v), ucast v]
      else [ucast (drop_bit 56 v), ucast (drop_bit 48 v), ucast (drop_bit 40 v), ucast (drop_bit 32 v),
            ucast (drop_bit 24 v), ucast (drop_bit 16 v), ucast (drop_bit 8 v), ucast v])"

definition encodeUInt :: "'b go_value \<Rightarrow> nat \<Rightarrow> ebml_error + bytes" where
  "encodeUInt i n = (case i of GoUint v \<Rightarrow> Inr (uint_bytes v n) | _ \<Rightarrow> Inl ErrInvalidType)"

definition encodeInt :: "'b go_value \<Rightarrow> nat \<Rightarrow> ebml_error + bytes" where
  "encodeInt i n = (case i of GoInt v \<Rightarrow> encodeUInt (GoUint (word_of_int v) :: 'b go_value) n | _ \<Rightarrow> Inl ErrInvalidType)"

text \<open>\<^verbatim>\<open>Time.Sub\<close> saturates at the range of a duration.\<close>

definition encodeDate :: "'b go_value \<Rightarrow> nat \<Rightarrow> ebml_error + bytes" where
  "encodeDate i n =
     (case i of
        GoTime t \<Rightarrow> encodeInt (GoInt (sat_i64 (t - DateEpochInUnixtime * 1000000000)) :: 'b go_value) n
      | _ \<Rightarrow> Inl ErrInvalidType)"

section \<open>Big-endian bytes\<close>

text \<open>The last \<open>k\<close> bytes of a value, most significant first: what every encoder lists.\<close>

fun be_bytes :: "nat \<Rightarrow> uint64 \<Rightarrow> bytes" where
  "be_bytes 0 v = []"
| "be_bytes (Suc k) v = ucast (drop_bit (8 * k) v) # be_bytes k v"

lemma length_be_bytes [simp]: "length (be_bytes k v) = k"
  by (induction k) simp_all

lemma be_bytes_step:
  fixes v :: uint64
  shows "push_bit (8 * k) (push_bit 8 a OR ucast (ucast (drop_bit (8 * k) v) :: byte)) OR take_bit (8 * k) v
       = push_bit (8 * Suc k) a OR take_bit (8 * Suc k) v"
  by (rule bit_word_eqI) (auto simp: bit_simps add.commute)

lemma fold_be_bytes:
  "fold (\<lambda>b v. push_bit 8 v OR ucast b) (be_bytes k v) a = push_bit (8 * k) a OR take_bit (8 * k) v"
proof (induction k arbitrary: a)
  case (Suc k)
  then show ?case by (simp only: be_bytes.simps fold_simps be_bytes_step)
qed simp

lemma vuint_rest_be_bytes:
  "vuint_rest k a n \<lparr>rd_left = be_bytes k v @ rest, rd_end = e\<rparr>
     = ((push_bit (8 * k) a OR take_bit (8 * k) v, n + k, None), \<lparr>rd_left = rest, rd_end = e\<rparr>)"
proof (induction k arbitrary: a n)
  case (Suc k)
  then show ?case
    by (simp only: be_bytes.simps vuint_rest.simps read1_def append_Cons reader.simps list.case prod.case
        sum.case be_bytes_step add_Suc_right add_Suc_shift Suc_eq_plus1 [symmetric])
qed simp

section \<open>Variable-length integers\<close>

text \<open>The first byte of a variable-length integer of \<open>k + 1\<close> bytes: the marker bit and the top bits.\<close>

definition vuint_marker :: "nat \<Rightarrow> byte" where
  "vuint_marker k = word_of_nat (2 ^ (7 - k))"

lemma vuint_head_bytes:
  "list_all (\<lambda>k. list_all (\<lambda>y. vuint_head (word_of_nat y OR vuint_marker k) = (k, word_of_nat y))
     [0..<2 ^ (7 - k)]) [0..<8]"
  by code_simp

lemma vuint_head_marker:
  assumes "k < 8" and "unat x < 2 ^ (7 - k)"
  shows "vuint_head (ucast x OR vuint_marker k) = (k, x :: uint64)"
proof -
  have "x = word_of_nat (unat x)" "(ucast x :: byte) = word_of_nat (unat x)" by simp_all
  with vuint_head_bytes assms show ?thesis unfolding list_all_iff by (metis atLeastLessThan_iff set_upt zero_le)
qed

lemma or_drop_take: "push_bit k (drop_bit k v) OR take_bit k v = (v :: uint64)"
  by (rule bit_word_eqI) (auto simp: bit_simps)

text \<open>The variable-length form of \<open>k + 1\<close> bytes; a value of at most \<open>7 * (k + 1)\<close> bits is read back
  from it.\<close>

definition vuint_bytes :: "nat \<Rightarrow> uint64 \<Rightarrow> bytes" where
  "vuint_bytes k v = (ucast (drop_bit (8 * k) v) OR vuint_marker k) # be_bytes k v"

lemma length_vuint_bytes [simp]: "length (vuint_bytes k v) = Suc k"
  by (simp add: vuint_bytes_def)

lemma readVUInt_bytes:
  assumes "k < 8" and "unat v < 2 ^ (7 * Suc k)"
  shows "readVUInt \<lparr>rd_left = vuint_bytes k v @ rest, rd_end = e\<rparr> = ((v, Suc k, None), \<lparr>rd_left = rest, rd_end = e\<rparr>)"
proof -
  have "7 * Suc k = (7 - k) + 8 * k" using assms(1) by simp
  then have "unat v < 2 ^ (7 - k) * 2 ^ (8 * k)" using assms(2) by (simp only: power_add)
  then have "unat (drop_bit (8 * k) v) < 2 ^ (7 - k)"
    unfolding unat_drop_bit_eq by (simp only: drop_bit_eq_div less_mult_imp_div_less)
  from vuint_head_marker [OF assms(1) this] show ?thesis
    by (simp add: readVUInt_def read1_def vuint_bytes_def vuint_rest_be_bytes or_drop_take)
qed

lemma vuint_bytes_simps:
  "vuint_bytes 0 v = [ucast v OR 0x80]"
  "vuint_bytes 1 v = [ucast (drop_bit 8 v) OR 0x40, ucast v]"
  "vuint_bytes 2 v = [ucast (drop_bit 16 v) OR 0x20, ucast (drop_bit 8 v), ucast v]"
  "vuint_bytes 3 v = [ucast (drop_bit 24 v) OR 0x10, ucast (drop_bit 16 v), ucast (drop_bit 8 v), ucast v]"
  "vuint_bytes 4 v = [ucast (drop_bit 32 v) OR 0x8, ucast (drop_bit 24 v), ucast (drop_bit 16 v), ucast (drop_bit 8 v), ucast v]"
  "vuint_bytes 5 v = [ucast (drop_bit 40 v) OR 0x4, ucast (drop_bit 32 v), ucast (drop_bit 24 v), ucast (drop_bit 16 v),
     ucast (drop_bit 8 v), ucast v]"
  "vuint_bytes 6 v = [ucast (drop_bit 48 v) OR 0x2, ucast (drop_bit 40 v), ucast (drop_bit 32 v), ucast (drop_bit 24 v),
     ucast (drop_bit 16 v), ucast (drop_bit 8 v), ucast v]"
  "vuint_bytes 7 v = [ucast (drop_bit 56 v) OR 0x1, ucast (drop_bit 48 v), ucast (drop_bit 40 v), ucast (drop_bit 32 v),
     ucast (drop_bit 24 v), ucast (drop_bit 16 v), ucast (drop_bit 8 v), ucast v]"
  by (simp_all add: vuint_bytes_def vuint_marker_def numeral_2_eq_2 numeral_3_eq_3 numeral_eq_Suc)

lemma less_8_cases:
  assumes "k < (8 :: nat)"
  obtains "k = 0" | "k = 1" | "k = 2" | "k = 3" | "k = 4" | "k = 5" | "k = 6" | "k = 7"
  using assms by linarith

lemma encodeElementID_cases:
  obtains (unsupported) "encodeElementID v = Inl ErrUnsupportedElementID" and "2 ^ 49 \<le> unat v"
  | (bytes) k where "k < 7" and "encodeElementID v = Inr (vuint_bytes k v)" and "unat v < 2 ^ (7 * Suc k)"
proof -
  consider "2 ^ 49 \<le> unat v" | "unat v < 2 ^ 7" | "2 ^ 7 \<le> unat v" "unat v < 2 ^ 14" | "2 ^ 14 \<le> unat v" "unat v < 2 ^ 21"
    | "2 ^ 21 \<le> unat v" "unat v < 2 ^ 28" | "2 ^ 28 \<le> unat v" "unat v < 2 ^ 35" | "2 ^ 35 \<le> unat v" "unat v < 2 ^ 42"
    | "2 ^ 42 \<le> unat v" "unat v < 2 ^ 49" by linarith
  then show thesis
    using unsupported bytes [of 0] bytes [of 1] bytes [of 2] bytes [of 3] bytes [of 4] bytes [of 5] bytes [of 6]
    by cases (simp_all del: One_nat_def add: encodeElementID_def word_less_nat_alt vuint_bytes_simps)
qed

lemma top_byte_zero: "unat v < 2 ^ 56 \<Longrightarrow> ucast (drop_bit 56 v) OR 0x1 = (0x1 :: byte)"
proof -
  assume "unat v < 2 ^ 56"
  then have "unat (drop_bit 56 v) = 0" unfolding unat_drop_bit_eq by (simp add: drop_bit_eq_div)
  then show ?thesis by (simp add: unat_eq_0)
qed

lemma encodeDataSize_bytes:
  assumes "v < SizeUnknown"
  shows "\<exists>k<8. encodeDataSize v n = vuint_bytes k v \<and> unat v + 1 < 2 ^ (7 * Suc k)"
proof -
  have lt: "unat v < 2 ^ 56" using assms by (simp add: SizeUnknown_def word_less_nat_alt)
  have "\<exists>k\<in>{0, 1, 2, 3, 4, 5, 6, 7}. encodeDataSize v n = vuint_bytes k v \<and> unat v + 1 < 2 ^ (7 * Suc k)"
    unfolding encodeDataSize_def bex_simps vuint_bytes_simps using assms top_byte_zero [OF lt]
    by (simp del: One_nat_def add: SizeUnknown_def word_less_nat_alt)
  then obtain k where "k \<in> {0, 1, 2, 3, 4, 5, 6, 7}" "encodeDataSize v n = vuint_bytes k v" "unat v + 1 < 2 ^ (7 * Suc k)"
    by blast
  moreover from this(1) have "k < 8" by auto
  ultimately show ?thesis by blast
qed

lemma encodeDataSize_exact:
  assumes "j < 8" and "unat v + 1 < 2 ^ (7 * Suc j)"
  shows "encodeDataSize v (word_of_nat (Suc j)) = vuint_bytes j v"
  using assms(2)
  by (cases rule: less_8_cases [OF assms(1)])
    (simp_all del: One_nat_def add: encodeDataSize_def SizeUnknown_def word_less_nat_alt vuint_bytes_simps top_byte_zero)

lemma all_ones_size: "k < 8 \<Longrightarrow> unat (drop_bit (64 - Suc k * 7) (0xFFFFFFFFFFFFFFFF :: uint64)) = 2 ^ (7 * Suc k) - 1"
  by (erule less_8_cases) (simp_all add: unat_drop_bit_eq drop_bit_eq_div)

lemma encodeDataSize_unknown: "\<not> v < SizeUnknown \<Longrightarrow> encodeDataSize v n = vuint_bytes 7 SizeUnknown"
  by (simp add: encodeDataSize_def SizeUnknown_def word_less_nat_alt vuint_bytes_simps)

lemma readDataSize_encoded:
  "readDataSize \<lparr>rd_left = encodeDataSize v n @ rest, rd_end = e\<rparr>
     = ((min v SizeUnknown, length (encodeDataSize v n), None), \<lparr>rd_left = rest, rd_end = e\<rparr>)"
proof (cases "v < SizeUnknown")
  case True
  then obtain k where k: "k < 8" "encodeDataSize v n = vuint_bytes k v" "unat v + 1 < 2 ^ (7 * Suc k)"
    using encodeDataSize_bytes by blast
  then have "v \<noteq> drop_bit (64 - Suc k * 7) 0xFFFFFFFFFFFFFFFF" using all_ones_size [OF k(1)] by auto
  with k True show ?thesis by (simp add: readDataSize_def readVUInt_bytes min_def order.strict_implies_order)
next
  case False
  then show ?thesis
    by (simp add: encodeDataSize_unknown readDataSize_def readVUInt_bytes SizeUnknown_def min_def)
qed

end
