(* ===== verification/Ebml_Codec.thy ===== *)
theory Ebml_Codec
  imports Ebml_Value
begin

text \<open>
  The round trips of the EBML value codec: what the encoders of
  \<^verbatim>\<open>services/mm-switch/internal-ebml-fork/value.go\<close> write, its decoders read back.
\<close>

section \<open>Signed variable-length integers\<close>

lemma sint_word_of_int64: "- (2 ^ 63) \<le> x \<Longrightarrow> x < 2 ^ 63 \<Longrightarrow> sint (word_of_int x :: uint64) = x"
  by transfer (simp add: signed_take_bit_int_eq_self)

lemma vint_bias_power: "k < 8 \<Longrightarrow> 2 * vint_bias (Suc k) = 2 ^ (7 * Suc k) - 2"
  by (erule less_8_cases) (simp_all add: vint_bias_def)

lemma biased_value:
  assumes "k < 8" and "\<bar>i\<bar> \<le> vint_bias (Suc k)"
  shows "uint (word_of_int (i + vint_bias (Suc k)) :: uint64) = i + vint_bias (Suc k)"
    and "unat (word_of_int (i + vint_bias (Suc k)) :: uint64) + 1 < 2 ^ (7 * Suc k)"
proof -
  let ?x = "i + vint_bias (Suc k)"
  have le: "0 \<le> ?x" "?x \<le> 2 ^ (7 * Suc k) - 2" using assms(2) vint_bias_power [OF assms(1)] by linarith+
  have "(2 :: int) ^ (7 * Suc k) \<le> 2 ^ 56" using assms(1) by (intro power_increasing) simp_all
  then have "?x < 2 ^ LENGTH(64)" using le(2) by simp
  with le(1) show u: "uint (word_of_int ?x :: uint64) = ?x" unfolding uint_word_of_int by (rule mod_pos_pos_trivial)
  show "unat (word_of_int ?x :: uint64) + 1 < 2 ^ (7 * Suc k)"
  proof -
    have "?x + 1 < 2 ^ (7 * Suc k)" using le(2) by linarith
    then have "nat (?x + 1) < nat (2 ^ (7 * Suc k))" using le(1) by (simp only: nat_less_eq_zless)
    moreover have "nat (?x + 1) = nat ?x + 1" using le(1) by linarith
    ultimately show ?thesis unfolding unat_eq_nat_uint u by (simp only: nat_power_eq nat_numeral zero_le_numeral)
  qed
qed

lemma encodeVInt_abs:
  assumes "\<bar>v\<bar> = a"
  shows "encodeVInt v =
     (if a \<le> 0x3F then Inr (encodeDataSize (word_of_int (v + 0x3F)) 1)
      else if a \<le> 0x1FFF then Inr (encodeDataSize (word_of_int (v + 0x1FFF)) 2)
      else if a \<le> 0xFFFFF then Inr (encodeDataSize (word_of_int (v + 0xFFFFF)) 3)
      else if a \<le> 0x7FFFFFF then Inr (encodeDataSize (word_of_int (v + 0x7FFFFFF)) 4)
      else if a \<le> 0x3FFFFFFFF then Inr (encodeDataSize (word_of_int (v + 0x3FFFFFFFF)) 5)
      else if a \<le> 0x1FFFFFFFFFF then Inr (encodeDataSize (word_of_int (v + 0x1FFFFFFFFFF)) 6)
      else if a \<le> 0xFFFFFFFFFFFF then Inr (encodeDataSize (word_of_int (v + 0xFFFFFFFFFFFF)) 7)
      else if a \<le> 0x7FFFFFFFFFFFFF then Inr (encodeDataSize (word_of_int (v + 0x7FFFFFFFFFFFFF)) 8)
      else Inl ErrOutOfRange)"
proof -
  have "- c \<le> v \<and> v \<le> c \<longleftrightarrow> a \<le> c" for c using assms by linarith
  then show ?thesis by (simp only: encodeVInt_def)
qed

lemma encodeVInt_fits:
  assumes "k < 8" and "\<bar>i\<bar> \<le> vint_bias (Suc k)" and "k = 0 \<or> vint_bias k < \<bar>i\<bar>"
  shows "encodeVInt i = Inr (vuint_bytes k (word_of_int (i + vint_bias (Suc k))))"
proof -
  obtain a where a: "\<bar>i\<bar> = a" by blast
  have "encodeVInt i = Inr (encodeDataSize (word_of_int (i + vint_bias (Suc k))) (word_of_nat (Suc k)))"
    using assms(2,3) unfolding a encodeVInt_abs [OF a]
    by (cases rule: less_8_cases [OF assms(1)]) (simp_all add: vint_bias_def)
  with encodeDataSize_exact [OF assms(1) biased_value(2) [OF assms(1,2)]] show ?thesis by (simp only:)
qed

lemma encodeVInt_cases:
  obtains (out) "encodeVInt i = Inl ErrOutOfRange" and "2 ^ 55 \<le> \<bar>i\<bar>"
  | (bytes) k where "k < 8" and "encodeVInt i = Inr (vuint_bytes k (word_of_int (i + vint_bias (Suc k))))"
      and "\<bar>i\<bar> \<le> vint_bias (Suc k)"
proof (cases "\<bar>i\<bar> \<le> vint_bias 8")
  case True
  define P where "P k \<longleftrightarrow> \<bar>i\<bar> \<le> vint_bias (Suc k)" for k
  have "P 7" using True by (simp add: P_def)
  from LeastI [of P, OF this] Least_le [of P, OF this] not_less_Least [of _ P]
  obtain k where k: "P k" "k \<le> 7" "\<And>j. j < k \<Longrightarrow> \<not> P j" by blast
  have "k = 0 \<or> vint_bias k < \<bar>i\<bar>" using k(3) [of "k - 1"] by (cases k) (simp_all add: P_def)
  with k(1,2) show thesis using bytes [of k] encodeVInt_fits [of k i] unfolding P_def by fastforce
next
  case False
  obtain a where a: "\<bar>i\<bar> = a" by blast
  from False have "encodeVInt i = Inl ErrOutOfRange" "2 ^ 55 \<le> \<bar>i\<bar>"
    unfolding a encodeVInt_abs [OF a] by (simp_all add: vint_bias_def)
  then show thesis by (rule out)
qed

lemma readVInt_encoded:
  assumes "k < 8" and "\<bar>i\<bar> \<le> vint_bias (Suc k)"
  shows "readVInt \<lparr>rd_left = vuint_bytes k (word_of_int (i + vint_bias (Suc k))) @ rest, rd_end = e\<rparr>
       = ((i, Suc k, None), \<lparr>rd_left = rest, rd_end = e\<rparr>)"
proof -
  let ?x = "i + vint_bias (Suc k)"
  have "(2 :: int) ^ (7 * Suc k) \<le> 2 ^ 62" using assms(1) by (intro power_increasing) simp_all
  then have "0 \<le> ?x" "?x < 2 ^ 62" using assms(2) vint_bias_power [OF assms(1)] by linarith+
  then have "sint (word_of_int ?x :: uint64) = ?x" by (intro sint_word_of_int64) simp_all
  then show ?thesis using readVUInt_bytes [OF assms(1), of "word_of_int ?x" rest e] biased_value(2) [OF assms]
    by (simp add: readVInt_def)
qed

lemma readVInt_encodeVInt:
  "encodeVInt i = Inr bs \<Longrightarrow> readVInt \<lparr>rd_left = bs @ rest, rd_end = e\<rparr> = ((i, length bs, None), \<lparr>rd_left = rest, rd_end = e\<rparr>)"
  by (cases i rule: encodeVInt_cases) (auto simp: readVInt_encoded simp del: of_int_add)

lemma readVUInt_encodeElementID:
  "encodeElementID v = Inr bs \<Longrightarrow> readVUInt \<lparr>rd_left = bs @ rest, rd_end = e\<rparr> = ((v, length bs, None), \<lparr>rd_left = rest, rd_end = e\<rparr>)"
  by (cases v rule: encodeElementID_cases) (auto simp: readVUInt_bytes)

text \<open>C38: Variable-length integers survive a round trip, whatever follows them in the stream. A data
  size is never refused: one below the unknown size is read back, and any other is written and read as the
  unknown size. An element id or track
  number is refused exactly from \<open>2 ^ 49\<close> on and otherwise read back. A signed difference is refused
  exactly outside 55 bits and otherwise read back. The reader consumes exactly the bytes written.\<close>

theorem vint_roundtrip:
  "readDataSize \<lparr>rd_left = encodeDataSize v n @ rest, rd_end = e\<rparr>
     = ((min v SizeUnknown, length (encodeDataSize v n), None), \<lparr>rd_left = rest, rd_end = e\<rparr>)
 \<and> (case encodeElementID v of
      Inl err \<Rightarrow> err = ErrUnsupportedElementID \<and> 2 ^ 49 \<le> unat v
    | Inr bs \<Rightarrow> unat v < 2 ^ 49
        \<and> readVUInt \<lparr>rd_left = bs @ rest, rd_end = e\<rparr> = ((v, length bs, None), \<lparr>rd_left = rest, rd_end = e\<rparr>))
 \<and> (case encodeVInt i of
      Inl err \<Rightarrow> err = ErrOutOfRange \<and> 2 ^ 55 \<le> \<bar>i\<bar>
    | Inr bs \<Rightarrow> \<bar>i\<bar> < 2 ^ 55
        \<and> readVInt \<lparr>rd_left = bs @ rest, rd_end = e\<rparr> = ((i, length bs, None), \<lparr>rd_left = rest, rd_end = e\<rparr>))"
  (is "?size \<and> ?id \<and> ?vint")
proof (intro conjI)
  show ?size by (rule readDataSize_encoded)
  show ?id
  proof (cases v rule: encodeElementID_cases)
    case (bytes k)
    then have "unat v < 2 ^ 49" by (elim order.strict_trans2) (intro power_increasing, simp_all)
    with bytes show ?thesis by (simp add: readVUInt_bytes)
  qed simp
  show ?vint
  proof (cases i rule: encodeVInt_cases)
    case (bytes k)
    have "2 * vint_bias (Suc k) \<le> 2 ^ 56 - 2"
      unfolding vint_bias_power [OF bytes(1)] using bytes(1) power_increasing [of "7 * Suc k" 56 "2 :: int"] by simp
    with bytes have "\<bar>i\<bar> < 2 ^ 55" by simp
    with bytes show ?thesis by (simp del: of_int_add add: readVInt_encoded)
  qed simp
qed

section \<open>Fixed-width values\<close>

lemma be_bytes_simps:
  "be_bytes 1 v = [ucast v]"
  "be_bytes 2 v = [ucast (drop_bit 8 v), ucast v]"
  "be_bytes 3 v = [ucast (drop_bit 16 v), ucast (drop_bit 8 v), ucast v]"
  "be_bytes 4 v = [ucast (drop_bit 24 v), ucast (drop_bit 16 v), ucast (drop_bit 8 v), ucast v]"
  "be_bytes 5 v = [ucast (drop_bit 32 v), ucast (drop_bit 24 v), ucast (drop_bit 16 v), ucast (drop_bit 8 v), ucast v]"
  "be_bytes 6 v = [ucast (drop_bit 40 v), ucast (drop_bit 32 v), ucast (drop_bit 24 v), ucast (drop_bit 16 v),
     ucast (drop_bit 8 v), ucast v]"
  "be_bytes 7 v = [ucast (drop_bit 48 v), ucast (drop_bit 40 v), ucast (drop_bit 32 v), ucast (drop_bit 24 v),
     ucast (drop_bit 16 v), ucast (drop_bit 8 v), ucast v]"
  "be_bytes 8 v = [ucast (drop_bit 56 v), ucast (drop_bit 48 v), ucast (drop_bit 40 v), ucast (drop_bit 32 v),
     ucast (drop_bit 24 v), ucast (drop_bit 16 v), ucast (drop_bit 8 v), ucast v]"
  by (simp_all add: numeral_eq_Suc)

lemma uint_bytes_be:
  obtains k where "0 < k" and "k \<le> 8" and "uint_bytes v n = be_bytes k v" and "unat v < 2 ^ (8 * k)"
proof -
  have "\<exists>k\<in>{1, 2, 3, 4, 5, 6, 7, 8}. uint_bytes v n = be_bytes k v \<and> unat v < 2 ^ (8 * k)"
    unfolding uint_bytes_def bex_simps be_bytes_simps using unsigned_less [of v, where 'a = nat]
    by (simp del: One_nat_def add: word_less_nat_alt)
  then obtain k where "k \<in> {1, 2, 3, 4, 5, 6, 7, 8}" "uint_bytes v n = be_bytes k v" "unat v < 2 ^ (8 * k)" by blast
  moreover from this(1) have "0 < k" "k \<le> 8" by auto
  ultimately show thesis by (intro that)
qed

lemma readUInt_be:
  assumes "k \<le> 8" and "unat v < 2 ^ (8 * k)"
  shows "readUInt k \<lparr>rd_left = be_bytes k v @ rest, rd_end = e\<rparr> = (Ok v, \<lparr>rd_left = rest, rd_end = e\<rparr>)"
proof -
  have "take_bit (8 * k) (unat v) = unat v" using assms(2) by (simp add: take_bit_nat_eq_self)
  then have "take_bit (8 * k) v = v" by (metis unsigned_take_bit_eq word_unat_eq_iff)
  moreover have "make_ok (int k)" using assms(1) by (simp add: make_ok_def max_alloc_def)
  ultimately show ?thesis by (simp add: readUInt_def read_full_def fold_be_bytes)
qed

lemma bit_top: 
  assumes "unat v < 2 ^ Suc m"
  shows "bit v m \<longleftrightarrow> 2 ^ m \<le> unat v"
proof -
  have "unat v div 2 ^ m = (if 2 ^ m \<le> unat v then 1 else 0)"
    using assms by (auto intro!: div_nat_eqI)
  then have "bit (unat v) m \<longleftrightarrow> 2 ^ m \<le> unat v" by (simp add: bit_iff_odd)
  then show ?thesis by (simp add: bit_unsigned_iff)
qed

lemma fold_bytes_bit:
  "bit (fold (\<lambda>i w. w OR push_bit (i * 8) 0xFF) is w) j \<longleftrightarrow> bit w j \<or> (j < 64 \<and> j div 8 \<in> set is)" for w :: uint64
proof (induction "is" arbitrary: w)
  case (Cons i "is")
  have ff: "bit (push_bit (i * 8) 0xFF :: uint64) j \<longleftrightarrow> j < 64 \<and> j div 8 = i"
  proof -
    have m: "(0xFF :: uint64) = mask 8" by (simp add: mask_eq_exp_minus_1)
    have "bit (push_bit (i * 8) 0xFF :: uint64) j \<longleftrightarrow> j < 64 \<and> i * 8 \<le> j \<and> j - i * 8 < 8"
      unfolding m by (auto simp: bit_simps simp del: mask_numeral)
    also have "i * 8 \<le> j \<and> j - i * 8 < 8 \<longleftrightarrow> j div 8 = i" by linarith
    finally show ?thesis by blast
  qed
  show ?case using Cons.IH by (auto simp: bit_or_iff ff)
qed simp

lemma sign_extend_negative:
  assumes "0 < k" and "k < 8" and "bit v (8 * k - 1)" and "unat v < 2 ^ (8 * k)"
  shows "sign_extend k v = v - 2 ^ (8 * k)"
proof -
  have "bit (v AND push_bit (k * 8 - 1) 1) (8 * k - 1)"
    using assms by (simp add: bit_and_iff bit_push_bit_iff bit_exp_iff mult.commute)
  then have "v AND push_bit (k * 8 - 1) 1 \<noteq> 0" by auto
  then have "sign_extend k v = fold (\<lambda>i w. w OR push_bit (i * 8) 0xFF) [k..<8] v" using assms by (simp add: sign_extend_def)
  also have "\<dots> = v OR NOT (mask (8 * k))"
    by (rule bit_word_eqI) (auto simp: fold_bytes_bit bit_simps less_eq_div_iff_mult_less_eq mult.commute)
  also have "\<dots> = v + NOT (mask (8 * k))"
  proof (rule disjunctive_add_eq_or [symmetric])
    have "v = take_bit (8 * k) v" using assms(4) by (metis take_bit_nat_eq_self unsigned_take_bit_eq word_unat_eq_iff)
    then have "\<not> bit v j" if "8 * k \<le> j" for j using that by (metis bit_take_bit_iff not_less)
    then show "v AND NOT (mask (8 * k)) = 0" by (intro bit_word_eqI) (auto simp: bit_simps not_less)
  qed
  finally show ?thesis by (simp flip: minus_exp_eq_not_mask)
qed

lemma sign_extend_id: "k = 8 \<or> k = 0 \<or> \<not> bit v (8 * k - 1) \<Longrightarrow> sign_extend k v = v"
proof -
  assume "k = 8 \<or> k = 0 \<or> \<not> bit v (8 * k - 1)"
  moreover have "v AND push_bit (k * 8 - 1) 1 = 0" if "\<not> bit v (8 * k - 1)"
    using that by (intro bit_word_eqI) (auto simp: bit_simps mult.commute)
  ultimately show ?thesis unfolding sign_extend_def by auto
qed

lemma unat_word_of_int64: "0 \<le> x \<Longrightarrow> x < 2 ^ 64 \<Longrightarrow> unat (word_of_int x :: uint64) = nat x"
  unfolding unat_eq_nat_uint uint_word_of_int by simp

lemma sign_extend_word_of_int:
  assumes i: "- (2 ^ 63) \<le> i" "i < 2 ^ 63" and k: "0 < k" "k \<le> 8" and v: "unat (word_of_int i :: uint64) < 2 ^ (8 * k)"
  shows "sint (sign_extend k (word_of_int i)) = (if i < 2 ^ (8 * k - 1) then i else i - 2 ^ (8 * k))"
proof (cases "k = 8")
  case True
  then show ?thesis using sint_word_of_int64 [OF i] i(2) by (simp add: sign_extend_id)
next
  case False
  let ?v = "word_of_int i :: uint64"
  have s: "sint ?v = i" by (rule sint_word_of_int64 [OF i])
  have "unat ?v < 2 ^ 63" using v power_increasing [of "8 * k" 63 "2 :: nat"] k False by linarith
  then have "\<not> bit ?v 63" using bit_top [of ?v 63] by simp
  then have nonneg: "0 \<le> i" using bit_last_iff [of ?v] s by simp
  moreover have "bit ?v (8 * k - 1) \<longleftrightarrow> 2 ^ (8 * k - 1) \<le> unat ?v" using v k(1) by (intro bit_top) simp
  ultimately have b: "bit ?v (8 * k - 1) \<longleftrightarrow> \<not> i < 2 ^ (8 * k - 1)"
    using i(2) unat_word_of_int64 [of i] by (simp add: le_nat_iff not_less)
  show ?thesis
  proof (cases "bit ?v (8 * k - 1)")
    case True
    have "(2 :: int) ^ (8 * k) \<le> 2 ^ 63" using k False by (intro power_increasing) simp_all
    then have "sint (word_of_int (i - 2 ^ (8 * k)) :: uint64) = i - 2 ^ (8 * k)" using nonneg i(2) zero_less_power [of "2 :: int" "8 * k"]
      by (intro sint_word_of_int64) linarith+
    moreover have "?v - 2 ^ (8 * k) = word_of_int (i - 2 ^ (8 * k))" by (simp only: of_int_diff of_int_power of_int_numeral)
    moreover have "sign_extend k ?v = ?v - 2 ^ (8 * k)" using k(2) False by (intro sign_extend_negative [OF k(1) _ True v]) simp
    ultimately have "sint (sign_extend k ?v) = i - 2 ^ (8 * k)" by argo
    then show ?thesis using b True by argo
  next
    case no: False
    then have "sign_extend k ?v = ?v" by (intro sign_extend_id) blast
    then show ?thesis using no b s by argo
  qed
qed

text \<open>The value that comes back when a number is written in that many bytes and read as a signed one.\<close>

definition wrapped_at :: "nat \<Rightarrow> int \<Rightarrow> int" where
  "wrapped_at len i = (if i < 2 ^ (8 * len - 1) then i else i - 2 ^ (8 * len))"

lemma readInt_uint_bytes:
  assumes "in_i64 i"
  shows "readInt (length (uint_bytes (word_of_int i) n)) \<lparr>rd_left = uint_bytes (word_of_int i) n @ rest, rd_end = e\<rparr>
           = (Ok (wrapped_at (length (uint_bytes (word_of_int i) n)) i), \<lparr>rd_left = rest, rd_end = e\<rparr>)"
proof -
  obtain k where k: "0 < k" "k \<le> 8" "uint_bytes (word_of_int i) n = be_bytes k (word_of_int i)"
    "unat (word_of_int i :: uint64) < 2 ^ (8 * k)" by (rule uint_bytes_be)
  from assms have "- (2 ^ 63) \<le> i" "i < 2 ^ 63" by (simp_all add: i64_defs)
  from sign_extend_word_of_int [OF this k(1,2,4)] show ?thesis
    by (simp add: k(3) readInt_def readUInt_be [OF k(2,4)] wrapped_at_def)
qed

lemma readUInt_uint_bytes:
  "readUInt (length (uint_bytes v n)) \<lparr>rd_left = uint_bytes v n @ rest, rd_end = e\<rparr> = (Ok v, \<lparr>rd_left = rest, rd_end = e\<rparr>)"
  by (rule uint_bytes_be [of v n]) (simp add: readUInt_be)

lemma readString_padded:
  assumes "int (max n (length s)) \<le> max_alloc"
  shows "readString (length (pad_zeros s n)) \<lparr>rd_left = pad_zeros s n @ rest, rd_end = e\<rparr>
       = (Ok (takeWhile (\<lambda>c. c \<noteq> 0) s), \<lparr>rd_left = rest, rd_end = e\<rparr>)"
proof -
  have "takeWhile (\<lambda>c. c \<noteq> 0) (pad_zeros s n) = takeWhile (\<lambda>c. c \<noteq> 0) s"
    by (auto simp: pad_zeros_def takeWhile_append takeWhile_replicate takeWhile_eq_all_conv [THEN iffD2])
  moreover have "make_ok (int (length (pad_zeros s n)))" using assms
    by (auto simp: make_ok_def pad_zeros_def max_def split: if_splits)
  ultimately show ?thesis by (simp add: readString_def readBinary_def read_full_def)
qed

text \<open>C39: Fixed-width values, written at any requested width and read at the width that was written.
  An unsigned integer is read back. A string is read back up to its first zero byte, so unchanged exactly
  when it has none. A signed integer below half the range of the bytes it was written in is read back;
  any other comes back less the whole range of those bytes: the encoder picks the width an unsigned
  number needs, so a positive number whose top bit is set comes back negative. Dates, which are signed
  nanoseconds since the epoch of the format, inherit this.\<close>

theorem value_roundtrip:
  assumes "in_i64 i" and "in_i64 (t - DateEpochInUnixtime * 1000000000)" and "int (max n (length s)) \<le> max_alloc"
  shows "(\<exists>bs. encodeUInt (GoUint v :: 'b go_value) n = Inr bs
          \<and> readUInt (length bs) \<lparr>rd_left = bs @ rest, rd_end = e\<rparr> = (Ok v, \<lparr>rd_left = rest, rd_end = e\<rparr>))
       \<and> (\<exists>bs j. encodeInt (GoInt i :: 'b go_value) n = Inr bs
          \<and> readInt (length bs) \<lparr>rd_left = bs @ rest, rd_end = e\<rparr> = (Ok j, \<lparr>rd_left = rest, rd_end = e\<rparr>)
          \<and> j = (if i < 2 ^ (8 * length bs - 1) then i else i - 2 ^ (8 * length bs)))
       \<and> (\<exists>bs u. encodeDate (GoTime t :: 'b go_value) n = Inr bs
          \<and> readDate (length bs) \<lparr>rd_left = bs @ rest, rd_end = e\<rparr> = (Ok u, \<lparr>rd_left = rest, rd_end = e\<rparr>)
          \<and> u = (if t - DateEpochInUnixtime * 1000000000 < 2 ^ (8 * length bs - 1) then t else t - 2 ^ (8 * length bs)))
       \<and> (\<exists>bs. encodeString (GoString s :: 'b go_value) n = Inr bs
          \<and> readString (length bs) \<lparr>rd_left = bs @ rest, rd_end = e\<rparr> = (Ok (takeWhile (\<lambda>c. c \<noteq> 0) s), \<lparr>rd_left = rest, rd_end = e\<rparr>)
          \<and> (takeWhile (\<lambda>c. c \<noteq> 0) s = s \<longleftrightarrow> 0 \<notin> set s))"
    (is "?uint \<and> ?int \<and> ?date \<and> ?str")
proof (intro conjI)
  show ?uint by (simp add: encodeUInt_def readUInt_uint_bytes)
  show ?int using readInt_uint_bytes [OF assms(1)] by (simp add: encodeInt_def encodeUInt_def wrapped_at_def)
  from readInt_uint_bytes [OF assms(2), of n rest e] assms(2) show ?date
    by (simp add: encodeDate_def encodeInt_def encodeUInt_def readDate_def wrapped_at_def)
  have "takeWhile (\<lambda>c. c \<noteq> 0) s = s \<longleftrightarrow> 0 \<notin> set s" by (auto simp: takeWhile_eq_all_conv)
  with readString_padded [OF assms(3), of rest e] show ?str by (simp add: encodeString_def)
qed

theorem value_roundtrip_witness:
  "in_i64 128 \<and> in_i64 (1022889600 * 1000000000 - DateEpochInUnixtime * 1000000000) \<and> int (max 0 (length [0x61 :: byte])) \<le> max_alloc
 \<and> encodeInt (GoInt 128 :: unit go_value) 0 = Inr [0x80]
 \<and> fst (readInt 1 \<lparr>rd_left = [0x80], rd_end = IoEOF\<rparr>) = Ok (- 128)
 \<and> (\<exists>u. fst (readDate (length [0x9e, 0x63, 0x74, 0xe3, 0x3c, 0x00, 0x00 :: byte]) \<lparr>rd_left = [0x9e, 0x63, 0x74, 0xe3, 0x3c, 0x00, 0x00], rd_end = IoEOF\<rparr>) = Ok u
      \<and> u \<noteq> 1022889600 * 1000000000)"
proof -
  let ?t = "1022889600 * 1000000000 :: int"
  have h: "in_i64 128" "in_i64 (?t - DateEpochInUnixtime * 1000000000)" "int (max 0 (length [0x61 :: byte])) \<le> max_alloc"
    by (simp_all add: i64_defs DateEpochInUnixtime_def max_alloc_def)
  have e: "encodeInt (GoInt 128 :: unit go_value) 0 = Inr [0x80]"
    "encodeDate (GoTime ?t :: unit go_value) 0 = Inr [0x9e, 0x63, 0x74, 0xe3, 0x3c, 0x00, 0x00]"
    by code_simp+
  from value_roundtrip [where 'b = unit, OF h, of 0 "[]" IoEOF] h e show ?thesis
    by (auto simp: DateEpochInUnixtime_def)
qed

end
