(* ===== verification/Ebml_Block.thy ===== *)
theory Ebml_Block
  imports Ebml_Codec
begin

text \<open>
  Blocks of the EBML library (\<^verbatim>\<open>lacer.go\<close>, \<^verbatim>\<open>unlacer.go\<close> and \<^verbatim>\<open>block.go\<close> under
  \<^verbatim>\<open>services/mm-switch/internal-ebml-fork\<close>): the four ways of lacing frames into one block, their
  inverses, and the block header.

  An \<^verbatim>\<open>io.Writer\<close> is any function that takes bytes and a state and returns an error or none
  and a new state; \<open>buf_write\<close> is the in-memory buffer, which never fails. The sizes an unlacer
  computes are \<^verbatim>\<open>int\<close> of 64 bits: the EBML form adds up numbers the input chooses, so its sums wrap
  around; the Xiph form adds one byte per byte read and cannot reach the bound.
\<close>

section \<open>Lacers\<close>

type_synonym 'w writer = "bytes \<Rightarrow> 'w \<Rightarrow> ebml_error option \<times> 'w"

definition buf_write :: "bytes writer" where
  "buf_write b w = (None, w @ b)"

fun write_frames :: "'w writer \<Rightarrow> bytes list \<Rightarrow> 'w \<Rightarrow> ebml_error option \<times> 'w" where
  "write_frames wr [] w = (None, w)"
| "write_frames wr (b # bs) w =
     (case wr b w of (Some e, w') \<Rightarrow> (Some e, w') | (None, w') \<Rightarrow> write_frames wr bs w')"

definition noLacer_Write :: "'w writer \<Rightarrow> bytes list \<Rightarrow> 'w \<Rightarrow> ebml_error option \<times> 'w" where
  "noLacer_Write wr b w =
     (if length b = 0 then (None, w)
      else if length b \<noteq> 1 then (Some ErrTooManyFrames, w)
      else wr (b ! 0) w)"

fun xiph_size :: "nat \<Rightarrow> bytes" where
  "xiph_size n = (if 0xFF < n then 0xFF # xiph_size (n - 0xFF) else [word_of_nat n])"

declare xiph_size.simps [simp del]

definition xiphLacer_Write :: "'w writer \<Rightarrow> bytes list \<Rightarrow> 'w \<Rightarrow> ebml_error option \<times> 'w" where
  "xiphLacer_Write wr b w =
     (if length b = 0 then (None, w)
      else if 0xFF < length b then (Some ErrTooManyFrames, w)
      else
        let size = word_of_nat (length b - 1) # concat (map (\<lambda>f. xiph_size (length f)) (butlast b)) in
        case wr size w of
          (Some e, w') \<Rightarrow> (Some e, w')
        | (None, w') \<Rightarrow> write_frames wr b w')"

definition fixedLacer_Write :: "'w writer \<Rightarrow> bytes list \<Rightarrow> 'w \<Rightarrow> ebml_error option \<times> 'w" where
  "fixedLacer_Write wr b w =
     (if length b = 0 then (None, w)
      else if 0xFF < length b then (Some ErrTooManyFrames, w)
      else if list_ex (\<lambda>f. length f \<noteq> length (b ! 0)) (tl b) then (Some ErrUnevenFixedLace, w)
      else
        case wr [word_of_nat (length b - 1)] w of
          (Some e, w') \<Rightarrow> (Some e, w')
        | (None, w') \<Rightarrow> write_frames wr b w')"

text \<open>The differences of the frames between the first and the last to their predecessors.\<close>

fun ebml_diffs :: "int \<Rightarrow> bytes list \<Rightarrow> ebml_error + bytes" where
  "ebml_diffs prev [] = Inr []"
| "ebml_diffs prev (f # fs) =
     (case encodeVInt (int (length f) - prev) of
        Inl e \<Rightarrow> Inl e
      | Inr n \<Rightarrow> (case ebml_diffs (int (length f)) fs of Inl e \<Rightarrow> Inl e | Inr ns \<Rightarrow> Inr (n @ ns)))"

definition ebmlLacer_Write :: "'w writer \<Rightarrow> bytes list \<Rightarrow> 'w \<Rightarrow> ebml_error option \<times> 'w" where
  "ebmlLacer_Write wr b w =
     (if length b = 0 then (None, w)
      else if 0xFF < length b then (Some ErrTooManyFrames, w)
      else
        case encodeElementID (word_of_nat (length (b ! 0))) of
          Inl e \<Rightarrow> (Some e, w)
        | Inr n \<Rightarrow>
          (case ebml_diffs (int (length (b ! 0))) (butlast (tl b)) of
             Inl e \<Rightarrow> (Some e, w)
           | Inr ns \<Rightarrow>
             (case wr (word_of_nat (length b - 1) # n @ ns) w of
                (Some e, w') \<Rightarrow> (Some e, w')
              | (None, w') \<Rightarrow> write_frames wr b w')))"

section \<open>Unlacers\<close>

text \<open>An unlacer is the reader and the sizes of the frames it will return. \<open>unlacer_frames\<close> is the loop that
  calls its \<^verbatim>\<open>Read\<close> until it returns \<^verbatim>\<open>io.EOF\<close>, as the end of the sizes and as the end of the
  input both do.\<close>

fun unlacer_frames :: "int list \<Rightarrow> reader \<Rightarrow> bytes list go \<times> reader" where
  "unlacer_frames [] r = (Ok [], r)"
| "unlacer_frames (n # sizes) r =
     (if \<not> make_ok n then (Panics, r)
      else case read_full (nat n) r of
        (Inl e, r') \<Rightarrow> (if e = IoEOF then Ok [] else Err e, r')
      | (Inr b, r') \<Rightarrow>
        (case unlacer_frames sizes r' of
           (Ok bs, r'') \<Rightarrow> (Ok (b # bs), r'')
         | (Err e, r'') \<Rightarrow> (Err e, r'')
         | (Panics, r'') \<Rightarrow> (Panics, r'')))"

definition NewNoUnlacer :: "reader \<Rightarrow> int \<Rightarrow> (ebml_error + int list) \<times> reader" where
  "NewNoUnlacer r n = (Inr [n], r)"

text \<open>One Xiph size: bytes are added up through the first that is not 255. The loop consumes a byte of
  the reader per round.\<close>

fun xiph_read :: "int \<Rightarrow> int \<Rightarrow> bytes \<Rightarrow> ebml_error \<Rightarrow> (ebml_error + int \<times> int) \<times> bytes" where
  "xiph_read acc n [] end_err = (Inl (unexpected end_err), [])"
| "xiph_read acc n (b # bs) end_err =
     (if b \<noteq> 0xFF then (Inr (acc + uint b, n - 1), bs) else xiph_read (acc + uint b) (n - 1) bs end_err)"

fun xiph_sizes :: "nat \<Rightarrow> int \<Rightarrow> reader \<Rightarrow> (ebml_error + int list \<times> int) \<times> reader" where
  "xiph_sizes 0 n r = (Inr ([], n), r)"
| "xiph_sizes (Suc k) n r =
     (case xiph_read 0 n (rd_left r) (rd_end r) of
        (Inl e, bs) \<Rightarrow> (Inl e, r\<lparr>rd_left := bs\<rparr>)
      | (Inr (s, n'), bs) \<Rightarrow>
        (case xiph_sizes k n' (r\<lparr>rd_left := bs\<rparr>) of
           (Inl e, r') \<Rightarrow> (Inl e, r')
         | (Inr (ss, n''), r') \<Rightarrow> (Inr (s # ss, n''), r')))"

definition NewXiphUnlacer :: "reader \<Rightarrow> int \<Rightarrow> (ebml_error + int list) \<times> reader" where
  "NewXiphUnlacer r n =
     (case read1 r of
        (Inl e, r') \<Rightarrow> (Inl (unexpected e), r')
      | (Inr b, r') \<Rightarrow>
        (case xiph_sizes (unat b) (n - 1) r' of
           (Inl e, r'') \<Rightarrow> (Inl e, r'')
         | (Inr (ss, n'), r'') \<Rightarrow>
           (let final = n' - sum_list ss in
            if final \<le> 0 then (Inl ErrUnexpectedEOF, r'') else (Inr (ss @ [final]), r''))))"

definition NewFixedUnlacer :: "reader \<Rightarrow> int \<Rightarrow> (ebml_error + int list) \<times> reader" where
  "NewFixedUnlacer r n =
     (case read1 r of
        (Inl e, r') \<Rightarrow> (Inl (unexpected e), r')
      | (Inr b, r') \<Rightarrow>
        (let nFrame = uint b + 1; size0 = (n - 1) sdiv nFrame in
         if size0 * nFrame + 1 \<noteq> n then (Inl ErrFixedLaceUndivisible, r')
         else (Inr (replicate (nat nFrame) size0), r')))"

text \<open>The sizes between the first and the last, what is left of \<open>n\<close>, and the last size so far, from
  which each size is subtracted.\<close>

fun ebml_sizes :: "nat \<Rightarrow> int \<Rightarrow> int \<Rightarrow> int \<Rightarrow> reader \<Rightarrow> (ebml_error + int list \<times> int \<times> int) \<times> reader" where
  "ebml_sizes 0 n64 n final r = (Inr ([], n, final), r)"
| "ebml_sizes (Suc k) n64 n final r =
     (case readVInt r of
        ((d, nRead, Some e), r') \<Rightarrow> (Inl e, r')
      | ((d, nRead, None), r') \<Rightarrow>
        (let n64' = wrap_i64 (n64 + d) in
         if n64' \<le> 0 then (Inl ErrUnexpectedEOF, r')
         else case ebml_sizes k n64' (n - int nRead) (wrap_i64 (final - n64')) r' of
             (Inl e, r'') \<Rightarrow> (Inl e, r'')
           | (Inr (ss, n', final'), r'') \<Rightarrow> (Inr (n64' # ss, n', final'), r'')))"

text \<open>With a single frame its size is the last one: the first size is stored, subtracted and
  replaced by what is left.\<close>

definition NewEBMLUnlacer :: "reader \<Rightarrow> int \<Rightarrow> (ebml_error + int list) \<times> reader" where
  "NewEBMLUnlacer r n =
     (case read1 r of
        (Inl e, r') \<Rightarrow> (Inl (unexpected e), r')
      | (Inr b, r') \<Rightarrow>
        (case readVUInt r' of
           ((un64, nRead, Some e), r'') \<Rightarrow> (Inl e, r'')
         | ((un64, nRead, None), r'') \<Rightarrow>
           (let n64 = sint un64; single = unat b = 0 in
            case ebml_sizes (unat b - 1) n64 (n - 1 - int nRead) (if single then n64 - n64 else - n64) r'' of
              (Inl e, r3) \<Rightarrow> (Inl e, r3)
            | (Inr (ss, n', final), r3) \<Rightarrow>
              (let final' = wrap_i64 (final + n') in
               if final' \<le> 0 then (Inl ErrUnexpectedEOF, r3)
               else (Inr ((if single then [] else [n64]) @ ss @ [final']), r3)))))"

section \<open>Blocks\<close>

text \<open>The four lacing modes. The source has them as constants of an unsigned byte; a byte that is none of them,
  which only a caller of the encoder could make up, is not represented.\<close>

datatype lacing_mode = LacingNo | LacingXiph | LacingFixed | LacingEBML

definition lacing_byte :: "lacing_mode \<Rightarrow> byte" where
  "lacing_byte l = (case l of LacingNo \<Rightarrow> 0 | LacingXiph \<Rightarrow> 1 | LacingFixed \<Rightarrow> 2 | LacingEBML \<Rightarrow> 3)"

definition lacing_of_byte :: "byte \<Rightarrow> lacing_mode" where
  "lacing_of_byte b = (if b = 0 then LacingNo else if b = 1 then LacingXiph else if b = 2 then LacingFixed else LacingEBML)"

record block =
  TrackNumber :: uint64
  Timecode :: "16 word"
  Keyframe :: bool
  Invisible :: bool
  Lacing :: lacing_mode
  Discardable :: bool
  Data :: "bytes list"

definition packFlags :: "block \<Rightarrow> byte" where
  "packFlags b =
     (if Keyframe b then 0x80 else 0) OR (if Invisible b then 0x08 else 0) OR (if Discardable b then 0x01 else 0)
     OR push_bit 1 (lacing_byte (Lacing b))"

definition new_unlacer :: "lacing_mode \<Rightarrow> reader \<Rightarrow> int \<Rightarrow> (ebml_error + int list) \<times> reader" where
  "new_unlacer l =
     (case l of LacingNo \<Rightarrow> NewNoUnlacer | LacingXiph \<Rightarrow> NewXiphUnlacer | LacingEBML \<Rightarrow> NewEBMLUnlacer
      | LacingFixed \<Rightarrow> NewFixedUnlacer)"

definition UnmarshalBlock :: "reader \<Rightarrow> int \<Rightarrow> block go \<times> reader" where
  "UnmarshalBlock r n =
     (case readVUInt r of
        ((track, nRead, Some e), r1) \<Rightarrow> (Err e, r1)
      | ((track, nRead, None), r1) \<Rightarrow>
        (case readInt 2 r1 of
           (Err e, r2) \<Rightarrow> (Err e, r2)
         | (Panics, r2) \<Rightarrow> (Panics, r2)
         | (Ok t, r2) \<Rightarrow>
           (case read1 r2 of
              (Inl e, r3) \<Rightarrow> (Err (unexpected e), r3)
            | (Inr f, r3) \<Rightarrow>
              (let n' = n - int nRead - 2 - 1 in
               if n' < 0 then (Err ErrUnexpectedEOF, r3)
               else
                 let l = lacing_of_byte (drop_bit 1 (f AND 0x06)) in
                 case new_unlacer l r3 n' of
                   (Inl e, r4) \<Rightarrow> (Err e, r4)
                 | (Inr sizes, r4) \<Rightarrow>
                   (case unlacer_frames sizes r4 of
                      (Err e, r5) \<Rightarrow> (Err e, r5)
                    | (Panics, r5) \<Rightarrow> (Panics, r5)
                    | (Ok frames, r5) \<Rightarrow>
                      (Ok \<lparr>TrackNumber = track, Timecode = word_of_int t, Keyframe = (f AND 0x80 \<noteq> 0),
                           Invisible = (f AND 0x08 \<noteq> 0), Lacing = l, Discardable = (f AND 0x01 \<noteq> 0), Data = frames\<rparr>,
                       r5))))))"

definition lacer_Write :: "lacing_mode \<Rightarrow> 'w writer \<Rightarrow> bytes list \<Rightarrow> 'w \<Rightarrow> ebml_error option \<times> 'w" where
  "lacer_Write l =
     (case l of LacingNo \<Rightarrow> noLacer_Write | LacingXiph \<Rightarrow> xiphLacer_Write | LacingEBML \<Rightarrow> ebmlLacer_Write
      | LacingFixed \<Rightarrow> fixedLacer_Write)"

definition MarshalBlock :: "'w writer \<Rightarrow> block \<Rightarrow> 'w \<Rightarrow> ebml_error option \<times> 'w" where
  "MarshalBlock wr b w =
     (case encodeElementID (TrackNumber b) of
        Inl e \<Rightarrow> (Some e, w)
      | Inr n \<Rightarrow>
        (case write_frames wr [n, [ucast (signed_drop_bit 8 (Timecode b)), ucast (Timecode b)], [packFlags b]] w of
           (Some e, w') \<Rightarrow> (Some e, w')
         | (None, w') \<Rightarrow> lacer_Write (Lacing b) wr (Data b) w'))"

definition encodeBlock :: "block go_value \<Rightarrow> nat \<Rightarrow> ebml_error + bytes" where
  "encodeBlock i n =
     (case i of
        GoBlock b \<Rightarrow> (case MarshalBlock buf_write b [] of (Some e, _) \<Rightarrow> Inl e | (None, w) \<Rightarrow> Inr w)
      | _ \<Rightarrow> Inl ErrInvalidType)"

definition readBlock :: "nat \<Rightarrow> reader \<Rightarrow> block go \<times> reader" where
  "readBlock n r = UnmarshalBlock r (int n)"

section \<open>Writing to a buffer\<close>

text \<open>What a lacer writes, as a function of the frames.\<close>

definition laced :: "lacing_mode \<Rightarrow> bytes list \<Rightarrow> ebml_error + bytes" where
  "laced l fs =
     (let count = word_of_nat (length fs - 1) in
      if fs = [] then Inr []
      else case l of
        LacingNo \<Rightarrow> if length fs = 1 then Inr (concat fs) else Inl ErrTooManyFrames
      | LacingXiph \<Rightarrow> if 0xFF < length fs then Inl ErrTooManyFrames
          else Inr (count # concat (map (\<lambda>f. xiph_size (length f)) (butlast fs)) @ concat fs)
      | LacingFixed \<Rightarrow> if 0xFF < length fs then Inl ErrTooManyFrames
          else if list_ex (\<lambda>f. length f \<noteq> length (hd fs)) (tl fs) then Inl ErrUnevenFixedLace
          else Inr (count # concat fs)
      | LacingEBML \<Rightarrow> if 0xFF < length fs then Inl ErrTooManyFrames
          else case encodeElementID (word_of_nat (length (hd fs))) of Inl e \<Rightarrow> Inl e
          | Inr n \<Rightarrow> (case ebml_diffs (int (length (hd fs))) (butlast (tl fs)) of Inl e \<Rightarrow> Inl e
            | Inr ns \<Rightarrow> Inr (count # n @ ns @ concat fs)))"

lemma write_frames_buf [simp]: "write_frames buf_write fs w = (None, w @ concat fs)"
  by (induction fs arbitrary: w) (simp_all add: buf_write_def)

lemma lacer_Write_buf:
  "lacer_Write l buf_write fs w = (case laced l fs of Inl e \<Rightarrow> (Some e, w) | Inr bs \<Rightarrow> (None, w @ bs))"
  by (cases l; cases fs)
    (simp_all add: lacer_Write_def laced_def noLacer_Write_def xiphLacer_Write_def fixedLacer_Write_def
      ebmlLacer_Write_def buf_write_def Let_def split: sum.splits)

definition header_bytes :: "block \<Rightarrow> nat \<Rightarrow> bytes" where
  "header_bytes b k = vuint_bytes k (TrackNumber b)
     @ [ucast (signed_drop_bit 8 (Timecode b)), ucast (Timecode b), packFlags b]"

lemma MarshalBlock_buf:
  assumes "MarshalBlock buf_write b [] = (None, w)"
  obtains k body where "k < 7" and "unat (TrackNumber b) < 2 ^ (7 * Suc k)" and "laced (Lacing b) (Data b) = Inr body"
    and "w = header_bytes b k @ body"
  using assms
  by (cases "TrackNumber b" rule: encodeElementID_cases)
    (auto simp: MarshalBlock_def lacer_Write_buf header_bytes_def simp del: write_frames.simps split: sum.splits)

section \<open>The header is read back\<close>

lemma timecode_bytes: "[ucast (signed_drop_bit 8 t), ucast t] = be_bytes 2 (ucast (t :: 16 word))"
proof -
  have "(ucast (signed_drop_bit 8 t) :: byte) = ucast (drop_bit 8 (ucast t :: uint64))"
    by (rule bit_word_eqI) (auto simp: bit_simps)
  moreover have "(ucast t :: byte) = ucast (ucast t :: uint64)" by (rule bit_word_eqI) (auto simp: bit_simps)
  ultimately show ?thesis by (simp add: be_bytes_simps)
qed

lemma timecode_back: "word_of_int (sint (sign_extend 2 (ucast t))) = (t :: 16 word)"
proof -
  have low: "bit (fold (\<lambda>i w. w OR push_bit (i * 8) 0xFF) is w) n \<longleftrightarrow> bit w n"
    if "n < 16" "list_all (\<lambda>i. 2 \<le> i) is" for "is" n and w :: uint64
    using that by (induction "is" arbitrary: w) (auto simp: bit_or_iff bit_push_bit_iff)
  have "bit (sign_extend 2 v) n \<longleftrightarrow> bit v n" if "n < 16" for n v
    using low [OF that, of "[2..<8]" v] unfolding sign_extend_def list_all_iff by (cases "v AND push_bit (2 * 8 - 1) 1 \<noteq> 0") simp_all
  then have "scast (sign_extend 2 (ucast t)) = t"
    by (intro bit_word_eqI) (simp add: bit_signed_iff bit_unsigned_iff min_def)
  then show ?thesis by simp
qed

lemma readInt_timecode:
  "readInt 2 \<lparr>rd_left = ucast (signed_drop_bit 8 t) # ucast t # rest, rd_end = e\<rparr>
     = (Ok (sint (sign_extend 2 (ucast (t :: 16 word)))), \<lparr>rd_left = rest, rd_end = e\<rparr>)"
proof -
  have "unat (ucast t :: uint64) < 2 ^ (8 * 2)" using unsigned_less [of t, where 'a = nat]
    by (simp add: unsigned_ucast_eq le_less_trans [OF take_bit_nat_less_eq_self])
  from readUInt_be [OF _ this, of rest e] show ?thesis by (simp add: readInt_def timecode_bytes [symmetric])
qed

lemma packFlags_back:
  "(packFlags b AND 0x80 \<noteq> 0 \<longleftrightarrow> Keyframe b) \<and> (packFlags b AND 0x08 \<noteq> 0 \<longleftrightarrow> Invisible b)
 \<and> (packFlags b AND 0x01 \<noteq> 0 \<longleftrightarrow> Discardable b) \<and> lacing_of_byte (drop_bit 1 (packFlags b AND 0x06)) = Lacing b"
  by (cases "Lacing b") (simp_all add: packFlags_def lacing_byte_def lacing_of_byte_def)

text \<open>After a header the block is whatever the unlacer makes of the body.\<close>

lemma UnmarshalBlock_header:
  assumes "k < 7" and "unat (TrackNumber b) < 2 ^ (7 * Suc k)" and "0 \<le> n"
  shows "UnmarshalBlock \<lparr>rd_left = header_bytes b k @ body, rd_end = e\<rparr> (int (length (header_bytes b k)) + n)
       = (case new_unlacer (Lacing b) \<lparr>rd_left = body, rd_end = e\<rparr> n of
            (Inl err, r) \<Rightarrow> (Err err, r)
          | (Inr sizes, r) \<Rightarrow>
            (case unlacer_frames sizes r of
               (Err err, r') \<Rightarrow> (Err err, r')
             | (Panics, r') \<Rightarrow> (Panics, r')
             | (Ok frames, r') \<Rightarrow> (Ok (b\<lparr>Data := frames\<rparr>), r')))"
proof -
  have "readVUInt \<lparr>rd_left = header_bytes b k @ body, rd_end = e\<rparr>
      = ((TrackNumber b, Suc k, None),
         \<lparr>rd_left = ucast (signed_drop_bit 8 (Timecode b)) # ucast (Timecode b) # packFlags b # body, rd_end = e\<rparr>)"
    unfolding header_bytes_def append.assoc using assms(1,2) by (simp add: readVUInt_bytes)
  moreover have "int (length (header_bytes b k)) + n - int (Suc k) - 2 - 1 = n" by (simp add: header_bytes_def)
  moreover have "\<not> n < 0" using assms(3) by linarith
  moreover have "\<lparr>TrackNumber = TrackNumber b, Timecode = word_of_int (sint (sign_extend 2 (ucast (Timecode b)))),
      Keyframe = (packFlags b AND 0x80 \<noteq> 0), Invisible = (packFlags b AND 0x08 \<noteq> 0), Lacing = Lacing b,
      Discardable = (packFlags b AND 0x01 \<noteq> 0), Data = fs\<rparr> = b\<lparr>Data := fs\<rparr>" for fs
    unfolding timecode_back using packFlags_back [of b] by simp
  ultimately show ?thesis
    by (simp only: UnmarshalBlock_def readInt_timecode packFlags_back read1_def Let_def prod.case option.case go.case sum.case
        list.case reader.simps if_False)
qed

section \<open>Frames are read back\<close>

lemma unlacer_frames_back:
  "list_all (\<lambda>f. int (length f) \<le> max_alloc) fs \<Longrightarrow>
   unlacer_frames (map (\<lambda>f. int (length f)) fs) \<lparr>rd_left = concat fs @ rest, rd_end = e\<rparr> = (Ok fs, \<lparr>rd_left = rest, rd_end = e\<rparr>)"
  by (induction fs) (simp_all add: make_ok_def read_full_def)

lemma unlacer_frames_sizes:
  "unlacer_frames sizes r = (Ok fs, r') \<Longrightarrow>
   length fs \<le> length sizes \<and> map (\<lambda>f. int (length f)) fs = take (length fs) sizes"
  by (induction sizes r arbitrary: fs r' rule: unlacer_frames.induct)
    (auto simp: read_full_def make_ok_def split: if_splits sum.splits prod.splits go.splits)

section \<open>Xiph lacing\<close>

text \<open>The lacer writes a positive multiple of 255 without the zero byte that ends it.\<close>

definition xiph_unfinished :: "nat \<Rightarrow> bool" where
  "xiph_unfinished s \<longleftrightarrow> 0 < s \<and> 255 dvd s"

lemma length_xiph_size: "length (xiph_size s) + (if xiph_unfinished s then 1 else 0) = s div 255 + 1"
proof (induction s rule: xiph_size.induct)
  case (1 n)
  show ?case
  proof (cases "255 < n")
    case True
    then have "xiph_unfinished (n - 255) \<longleftrightarrow> xiph_unfinished n" "n div 255 = Suc ((n - 255) div 255)"
      by (auto simp: xiph_unfinished_def le_div_geq dvd_minus_self)
    with 1 True show ?thesis by (simp add: xiph_size.simps [of n])
  next
    case False
    then have "n < 255 \<or> n = 255" by linarith
    with False show ?thesis by (auto simp: xiph_size.simps [of n] xiph_unfinished_def nat_dvd_not_less)
  qed
qed

lemma xiph_read_back:
  "\<not> xiph_unfinished s \<Longrightarrow>
   xiph_read acc n (xiph_size s @ rest) e = (Inr (acc + int s, n - int (length (xiph_size s))), rest)"
proof (induction s arbitrary: acc n rule: xiph_size.induct)
  case (1 s)
  show ?case
  proof (cases "255 < s")
    case True
    then have "\<not> xiph_unfinished (s - 255)" using 1(2) by (auto simp: xiph_unfinished_def dvd_minus_self)
    with 1(1) True show ?thesis by (simp add: xiph_size.simps [of s])
  next
    case False
    with 1(2) have "s < 255" by (cases "s = 255") (auto simp: xiph_unfinished_def)
    then have "uint (word_of_nat s :: byte) = int s" by (simp add: unsigned_of_nat take_bit_nat_eq_self)
    moreover from this \<open>s < 255\<close> have "(word_of_nat s :: byte) \<noteq> 0xFF" by auto
    ultimately show ?thesis using False by (simp add: xiph_size.simps [of s])
  qed
qed

text \<open>Whatever the bytes are, a size \<open>s\<close> is read from \<open>s div 255 + 1\<close> of them.\<close>

lemma xiph_read_consumes:
  "xiph_read acc n bs e = (Inr (s, n'), bs') \<Longrightarrow> acc \<le> s \<and> n' = n - ((s - acc) div 255 + 1)"
proof (induction acc n bs e rule: xiph_read.induct)
  case (2 acc n b bs e)
  show ?case
  proof (cases "b = 0xFF")
    case True
    have u: "uint (0xFF :: byte) = 255" by simp
    from True 2(2) have "xiph_read (acc + uint b) (n - 1) bs e = (Inr (s, n'), bs')" by simp
    from 2(1) [OF _ this] have "acc + 255 \<le> s" "n' = n - 1 - ((s - (acc + 255)) div 255 + 1)"
      unfolding True u by simp_all
    moreover have "(s - (acc + 255)) div 255 = (s - acc) div 255 - 1" by linarith
    ultimately show ?thesis by simp
  next
    case False
    then have "uint b \<noteq> uint (0xFF :: byte)" using word_uint_eq_iff [of b "0xFF"] by blast
    then have "uint b < 255" using uint_bounded [of b] by simp
    moreover have "0 \<le> uint b" by simp
    ultimately show ?thesis using 2(2) False by auto
  qed
qed simp

lemma xiph_sizes_back:
  assumes "list_all (\<lambda>f. \<not> xiph_unfinished (length f)) fs"
  shows "xiph_sizes (length fs) n \<lparr>rd_left = concat (map (\<lambda>f. xiph_size (length f)) fs) @ rest, rd_end = e\<rparr>
       = (Inr (map (\<lambda>f. int (length f)) fs, n - int (length (concat (map (\<lambda>f. xiph_size (length f)) fs)))),
          \<lparr>rd_left = rest, rd_end = e\<rparr>)"
  using assms by (induction fs arbitrary: n) (simp_all add: xiph_read_back)

lemma xiph_sizes_consume:
  "xiph_sizes k n r = (Inr (ss, n'), r') \<Longrightarrow>
   length ss = k \<and> list_all (\<lambda>s. 0 \<le> s) ss \<and> n' = n - sum_list (map (\<lambda>s. s div 255 + 1) ss)"
proof (induction k n r arbitrary: ss n' r' rule: xiph_sizes.induct)
  case (2 k n r)
  then obtain s m bs ss' where s: "xiph_read 0 n (rd_left r) (rd_end r) = (Inr (s, m), bs)" "ss = s # ss'"
    "xiph_sizes k m (r\<lparr>rd_left := bs\<rparr>) = (Inr (ss', n'), r')"
    by (auto split: prod.splits sum.splits)
  from 2(1) [OF s(1) [symmetric] refl refl s(3)] xiph_read_consumes [OF s(1)] s(2) show ?case by simp
qed simp

lemma sum_lengths: "sum_list (map (\<lambda>f. int (length f)) fs) = int (length (concat fs))"
  by (induction fs) simp_all

lemma length_xiph_sizes:
  "int (length (concat (map (\<lambda>f. xiph_size (length f)) fs))) + int (length (filter (\<lambda>f. xiph_unfinished (length f)) fs))
     = sum_list (map (\<lambda>s. s div 255 + 1) (map (\<lambda>f. int (length f)) fs))"
proof (induction fs)
  case (Cons f fs)
  have "int (length (xiph_size (length f))) + (if xiph_unfinished (length f) then 1 else 0) = int (length f) div 255 + 1"
    using length_xiph_size [of "length f"] by (auto simp: zdiv_int split: if_splits)
  with Cons show ?case by (auto split: if_splits)
qed simp

lemma laced_count:
  assumes "fs \<noteq> []" and "length fs \<le> 0xFF"
  shows "unat (word_of_nat (length fs - 1) :: byte) = length fs - 1"
  using assms by (simp add: unsigned_of_nat take_bit_nat_eq_self)

text \<open>The unlacer takes the frames for what they are exactly when no size is unfinished and the last
  frame is not empty.\<close>

lemma NewXiphUnlacer_back:
  assumes "laced LacingXiph fs = Inr body" and "fs \<noteq> []"
    and "list_all (\<lambda>f. \<not> xiph_unfinished (length f)) (butlast fs)" and "last fs \<noteq> []"
  shows "NewXiphUnlacer \<lparr>rd_left = body @ rest, rd_end = e\<rparr> (int (length body))
       = (Inr (map (\<lambda>f. int (length f)) fs), \<lparr>rd_left = concat fs @ rest, rd_end = e\<rparr>)"
proof -
  obtain gs f where fs: "fs = gs @ [f]" using assms(2) by (cases fs rule: rev_cases) simp_all
  let ?sizes = "concat (map (\<lambda>f. xiph_size (length f)) gs)"
  from assms(1,2) have "length fs \<le> 0xFF" and body: "body = word_of_nat (length gs) # ?sizes @ concat fs"
    by (auto simp: laced_def fs Let_def split: if_splits)
  then have "unat (word_of_nat (length gs) :: byte) = length gs" using laced_count [OF assms(2)] fs by simp
  then show ?thesis using assms(3,4)
    by (simp add: NewXiphUnlacer_def read1_def body fs xiph_sizes_back sum_lengths)
qed

lemma NewXiphUnlacer_only:
  assumes "laced LacingXiph fs = Inr body" and "fs \<noteq> []"
    and "NewXiphUnlacer r (int (length body)) = (Inr (map (\<lambda>f. int (length f)) fs), r')"
  shows "list_all (\<lambda>f. \<not> xiph_unfinished (length f)) (butlast fs) \<and> last fs \<noteq> []"
proof -
  obtain gs f where fs: "fs = gs @ [f]" using assms(2) by (cases fs rule: rev_cases) simp_all
  let ?sizes = "concat (map (\<lambda>f. xiph_size (length f)) gs)"
  from assms(1,2) have n: "int (length body) = 1 + int (length ?sizes) + int (length (concat gs)) + int (length f)"
    by (auto simp: laced_def fs Let_def split: if_splits)
  from assms(3) obtain ss n' r1 r2 k where ss: "xiph_sizes k (int (length body) - 1) r1 = (Inr (ss, n'), r2)"
    and final: "0 < n' - sum_list ss" "map (\<lambda>f. int (length f)) fs = ss @ [n' - sum_list ss]"
    by (auto simp: NewXiphUnlacer_def Let_def split: prod.splits sum.splits if_splits)
  then have "ss = map (\<lambda>f. int (length f)) gs" "int (length f) = n' - int (length (concat gs))"
    unfolding fs by (auto simp: sum_lengths)
  with xiph_sizes_consume [OF ss] length_xiph_sizes [of gs] n
  have "length (filter (\<lambda>f. xiph_unfinished (length f)) gs) = 0" by (simp only: sum_lengths) linarith
  then show ?thesis using final(1) \<open>int (length f) = _\<close> \<open>ss = _\<close>
    by (auto simp: fs sum_lengths list_all_iff filter_empty_conv)
qed

section \<open>Fixed-size and EBML lacing\<close>

lemma NewFixedUnlacer_back:
  assumes "laced LacingFixed fs = Inr body" and "fs \<noteq> []"
  shows "NewFixedUnlacer \<lparr>rd_left = body @ rest, rd_end = e\<rparr> (int (length body))
       = (Inr (map (\<lambda>f. int (length f)) fs), \<lparr>rd_left = concat fs @ rest, rd_end = e\<rparr>)"
proof -
  let ?L = "length (hd fs)" and ?m = "length fs"
  from assms have m: "?m \<le> 0xFF" and body: "body = word_of_nat (?m - 1) # concat fs" and eq: "list_all (\<lambda>f. length f = ?L) fs"
    by (auto simp: laced_def Let_def list_ex_iff list_all_iff neq_Nil_conv split: if_splits)
  have count: "uint (word_of_nat (?m - 1) :: byte) + 1 = int ?m"
    using laced_count [OF assms(2) m] assms(2) by (simp add: uint_nat Suc_leI of_nat_diff)
  have sizes: "map (\<lambda>f. int (length f)) fs = replicate ?m (int ?L)"
    using eq by (simp add: list_all_iff map_replicate_const [symmetric] replicate_length_same)
  then have n: "int (length body) = int ?L * int ?m + 1"
    using sum_lengths [of fs] by (simp add: body sum_list_replicate mult.commute)
  moreover have "(int ?L * int ?m) sdiv int ?m = int ?L" using assms(2) by (simp add: signed_divide_int_def sgn_mult abs_mult)
  ultimately show ?thesis using assms(2) unfolding NewFixedUnlacer_def read1_def sizes n
    by (simp add: body count Let_def del: One_nat_def)
qed

lemma ebml_sizes_back:
  assumes "ebml_diffs prev fs = Inr ns" and "list_all (\<lambda>f. f \<noteq> [] \<and> int (length f) \<le> max_alloc) fs"
    and "0 \<le> prev" and "prev \<le> max_alloc" and "final \<le> 0" and "i64_min \<le> final - int (length (concat fs))"
  shows "ebml_sizes (length fs) prev n final \<lparr>rd_left = ns @ rest, rd_end = e\<rparr>
       = (Inr (map (\<lambda>f. int (length f)) fs, n - int (length ns), final - int (length (concat fs))),
          \<lparr>rd_left = rest, rd_end = e\<rparr>)"
  using assms
proof (induction fs arbitrary: prev n final ns)
  case (Cons f fs)
  then obtain d ds where d: "encodeVInt (int (length f) - prev) = Inr d" "ebml_diffs (int (length f)) fs = Inr ds" "ns = d @ ds"
    by (auto split: sum.splits)
  from Cons.prems have w: "wrap_i64 (prev + (int (length f) - prev)) = int (length f)"
    "wrap_i64 (final - int (length f)) = final - int (length f)"
    by (simp_all add: in_i64_def i64_max_def i64_min_def max_alloc_def)
  from Cons.prems have "ebml_sizes (length fs) (int (length f)) (n - int (length d)) (final - int (length f)) \<lparr>rd_left = ds @ rest, rd_end = e\<rparr>
      = (Inr (map (\<lambda>f. int (length f)) fs, n - int (length d) - int (length ds), final - int (length f) - int (length (concat fs))),
          \<lparr>rd_left = rest, rd_end = e\<rparr>)"
    by (intro Cons.IH d(2)) simp_all
  then show ?case using Cons.prems(2) readVInt_encodeVInt [OF d(1), of "ds @ rest" e] w
    by (simp add: d(3) Let_def)
qed simp

lemma ebml_sizes_positive:
  "ebml_sizes k n64 n final r = (Inr (ss, n', final'), r') \<Longrightarrow> length ss = k \<and> list_all (\<lambda>s. 0 < s) ss"
  by (induction k n64 n final r arbitrary: ss n' final' r' rule: ebml_sizes.induct)
    (auto simp: Let_def split: prod.splits sum.splits option.splits if_splits)

lemma sint_length: "int n \<le> max_alloc \<Longrightarrow> sint (word_of_nat n :: uint64) = int n"
  using sint_word_of_int64 [of "int n"] by (simp add: max_alloc_def)

lemma length_concat_bound:
  "list_all (\<lambda>f. int (length f) \<le> max_alloc) fs \<Longrightarrow> int (length (concat fs)) \<le> int (length fs) * max_alloc"
  by (induction fs) (auto simp: algebra_simps)

lemma NewEBMLUnlacer_back:
  assumes "laced LacingEBML fs = Inr body" and "fs \<noteq> []" and "list_all (\<lambda>f. f \<noteq> []) (butlast (tl fs))" and "last fs \<noteq> []"
    and small: "list_all (\<lambda>f. int (length f) \<le> max_alloc) fs"
  shows "NewEBMLUnlacer \<lparr>rd_left = body @ rest, rd_end = e\<rparr> (int (length body))
       = (Inr (map (\<lambda>f. int (length f)) fs), \<lparr>rd_left = concat fs @ rest, rd_end = e\<rparr>)"
proof -
  obtain f fs' where fs: "fs = f # fs'" using assms(2) by (cases fs) simp_all
  from assms(1) obtain n ns where m: "length fs \<le> 0xFF"
    and n: "encodeElementID (word_of_nat (length f)) = Inr n" "ebml_diffs (int (length f)) (butlast fs') = Inr ns"
    and body: "body = word_of_nat (length fs - 1) # n @ ns @ concat fs"
    by (auto simp: laced_def fs Let_def split: if_splits sum.splits)
  have count: "unat (word_of_nat (length fs - 1) :: byte) = length fs'" using laced_count [OF assms(2) m] fs by simp
  have f: "sint (word_of_nat (length f) :: uint64) = int (length f)" using small fs by (simp add: sint_length)
  have total: "int (length (concat fs)) \<le> 0xFF * max_alloc"
    using length_concat_bound [OF small] by (rule order_trans) (use m in \<open>simp add: max_alloc_def\<close>)
  show ?thesis
  proof (cases fs' rule: rev_cases)
    case Nil
    with total assms(4) n(2) show ?thesis
      by (simp add: NewEBMLUnlacer_def read1_def body count readVUInt_encodeElementID [OF n(1)] fs in_i64_def i64_defs max_alloc_def Let_def)
  next
    case (snoc gs g)
    have "list_all (\<lambda>f. f \<noteq> [] \<and> int (length f) \<le> max_alloc) gs" "int (length f) \<le> max_alloc"
      using assms(3) small fs snoc by (auto simp: list_all_iff butlast_append)
    moreover have "i64_min \<le> - int (length f) - int (length (concat gs))"
      using total fs snoc by (simp add: i64_min_def max_alloc_def)
    ultimately have "ebml_sizes (length gs) (int (length f)) k (- int (length f)) \<lparr>rd_left = ns @ concat fs @ rest, rd_end = e\<rparr>
        = (Inr (map (\<lambda>f. int (length f)) gs, k - int (length ns), - int (length f) - int (length (concat gs))),
           \<lparr>rd_left = concat fs @ rest, rd_end = e\<rparr>)" for k
      using n(2) snoc by (intro ebml_sizes_back) simp_all
    moreover have "wrap_i64 (int (length g)) = int (length g)" using total fs snoc by (simp add: in_i64_def i64_defs max_alloc_def)
    ultimately show ?thesis using assms(4)
      by (simp add: NewEBMLUnlacer_def read1_def body count readVUInt_encodeElementID [OF n(1)] f snoc Let_def del: One_nat_def)
        (simp add: fs snoc)
  qed
qed

lemma NewEBMLUnlacer_sizes:
  assumes "NewEBMLUnlacer r n = (Inr sizes, r')"
  obtains z where "sizes = [z]" and "0 < z"
  | s0 ss z where "sizes = s0 # ss @ [z]" and "list_all (\<lambda>s. 0 < s) ss" and "0 < z"
  using assms
  by (auto simp: NewEBMLUnlacer_def Let_def dest!: ebml_sizes_positive split: prod.splits sum.splits option.splits if_splits)

lemma NewEBMLUnlacer_only:
  assumes "NewEBMLUnlacer r n = (Inr (map (\<lambda>f. int (length f)) fs), r')"
  shows "list_all (\<lambda>f. f \<noteq> []) (butlast (tl fs)) \<and> last fs \<noteq> []"
  using assms
  by (cases rule: NewEBMLUnlacer_sizes)
    (auto simp: map_eq_Cons_conv map_eq_append_conv list_all_iff butlast_append)

section \<open>Blocks are read back\<close>

text \<open>The frames a lacing mode carries faithfully.\<close>

definition lace_ok :: "lacing_mode \<Rightarrow> bytes list \<Rightarrow> bool" where
  "lace_ok l fs \<longleftrightarrow> fs \<noteq> [] \<and>
     (case l of
        LacingNo \<Rightarrow> True
      | LacingFixed \<Rightarrow> True
      | LacingXiph \<Rightarrow> list_all (\<lambda>f. \<not> xiph_unfinished (length f)) (butlast fs) \<and> last fs \<noteq> []
      | LacingEBML \<Rightarrow> list_all (\<lambda>f. f \<noteq> []) (butlast (tl fs)) \<and> last fs \<noteq> [])"

lemma new_unlacer_back:
  assumes "laced l fs = Inr body" and "lace_ok l fs" and "list_all (\<lambda>f. int (length f) \<le> max_alloc) fs"
  shows "new_unlacer l \<lparr>rd_left = body @ rest, rd_end = e\<rparr> (int (length body))
       = (Inr (map (\<lambda>f. int (length f)) fs), \<lparr>rd_left = concat fs @ rest, rd_end = e\<rparr>)"
proof (cases l)
  case LacingNo
  with assms show ?thesis
    by (cases fs) (auto simp: new_unlacer_def lace_ok_def laced_def NewNoUnlacer_def Let_def split: if_splits)
qed (use assms NewXiphUnlacer_back [of fs body rest e] NewFixedUnlacer_back [of fs body rest e]
    NewEBMLUnlacer_back [of fs body rest e] in \<open>simp_all add: new_unlacer_def lace_ok_def\<close>)

lemma new_unlacer_count:
  assumes "l \<noteq> LacingNo" and "new_unlacer l \<lparr>rd_left = body, rd_end = e\<rparr> n = (Inr sizes, r)"
  shows "body \<noteq> [] \<and> length sizes = unat (hd body) + 1"
proof (cases body)
  case Nil
  with assms show ?thesis
    by (cases l) (simp_all add: new_unlacer_def NewXiphUnlacer_def NewFixedUnlacer_def NewEBMLUnlacer_def read1_def)
next
  case (Cons c cs)
  have "nat (uint c + 1) = unat c + 1" by (simp add: nat_add_distrib)
  with Cons assms show ?thesis
    by (cases l) (auto simp: new_unlacer_def NewXiphUnlacer_def NewFixedUnlacer_def NewEBMLUnlacer_def read1_def Let_def
        dest!: xiph_sizes_consume ebml_sizes_positive split: prod.splits sum.splits option.splits if_splits)
qed

lemma laced_head:
  assumes "laced l fs = Inr body" and "fs \<noteq> []" and "l \<noteq> LacingNo"
  shows "body \<noteq> [] \<and> unat (hd body) + 1 = length fs"
proof -
  from assms have "length fs \<le> 0xFF" "body \<noteq> []" "hd body = word_of_nat (length fs - 1)"
    by (cases l; auto simp: laced_def Let_def split: if_splits sum.splits)+
  with laced_count [OF assms(2)] assms(2) show ?thesis by (cases fs) simp_all
qed

lemma new_unlacer_only:
  assumes "laced l fs = Inr body" and new: "new_unlacer l \<lparr>rd_left = body, rd_end = e\<rparr> (int (length body)) = (Inr sizes, r)"
    and frames: "unlacer_frames sizes r = (Ok fs, r')"
  shows "lace_ok l fs"
proof (cases "l = LacingNo")
  case True
  have "fs \<noteq> []"
  proof
    assume "fs = []"
    then have "sizes = [0]" using new assms(1) True by (simp add: new_unlacer_def NewNoUnlacer_def laced_def)
    then show False using frames \<open>fs = []\<close> by (simp add: make_ok_def max_alloc_def read_full_def)
  qed
  then show ?thesis using True by (simp add: lace_ok_def)
next
  case False
  from new_unlacer_count [OF False new] have c: "body \<noteq> []" "length sizes = unat (hd body) + 1" by blast+
  then have fs: "fs \<noteq> []" using assms(1) by (auto simp: laced_def)
  then have "length fs = length sizes" using laced_head [OF assms(1)] c False by simp
  then have "sizes = map (\<lambda>f. int (length f)) fs" using unlacer_frames_sizes [OF frames] by simp
  with new fs assms(1) False show ?thesis
    using NewXiphUnlacer_only [of fs body] NewEBMLUnlacer_only [of _ _ fs]
    by (cases l) (auto simp: new_unlacer_def lace_ok_def)
qed

lemma data_update_same: "b\<lparr>Data := fs\<rparr> = b \<longleftrightarrow> fs = Data b"
  by (cases b) auto

text \<open>C11: A block written to a buffer and read back is the same block exactly when its lacing mode carries
  its frames: there is at least one; under Xiph lacing no frame but the last has a length that is
  a positive multiple of 255, and the last is not empty; under EBML lacing only the first of several
  frames may be empty. Track number, time code and flags always survive, and what follows the block is
  left unread. Otherwise reading returns an error or a different block. (No slice of Go is longer
  than the allocation limit the theorem assumes.)\<close>

theorem block_roundtrip:
  assumes "MarshalBlock buf_write b [] = (None, w)" and "list_all (\<lambda>f. int (length f) \<le> max_alloc) (Data b)"
  shows "if lace_ok (Lacing b) (Data b)
         then UnmarshalBlock \<lparr>rd_left = w @ rest, rd_end = e\<rparr> (int (length w)) = (Ok b, \<lparr>rd_left = rest, rd_end = e\<rparr>)
         else fst (UnmarshalBlock \<lparr>rd_left = w, rd_end = e\<rparr> (int (length w))) \<noteq> Ok b"
proof -
  obtain k body where k: "k < 7" "unat (TrackNumber b) < 2 ^ (7 * Suc k)" and body: "laced (Lacing b) (Data b) = Inr body"
    and w: "w = header_bytes b k @ body" using MarshalBlock_buf [OF assms(1)] by blast
  have n: "int (length w) = int (length (header_bytes b k)) + int (length body)" by (simp add: w)
  show ?thesis
  proof (cases "lace_ok (Lacing b) (Data b)")
    case True
    then show ?thesis
      unfolding n using UnmarshalBlock_header [OF k, of "int (length body)" "body @ rest" e]
      by (simp add: w new_unlacer_back [OF body True assms(2)] unlacer_frames_back [OF assms(2)])
  next
    case False
    then show ?thesis
      unfolding n w using UnmarshalBlock_header [OF k, of "int (length body)" body e] new_unlacer_only [OF body]
      by (auto simp: data_update_same split: prod.splits sum.splits go.splits)
  qed
qed

text \<open>A frame of 255 bytes and another, laced by Xiph, are not read back; laced by EBML they are.\<close>

definition sample_block :: "lacing_mode \<Rightarrow> block" where
  "sample_block l = \<lparr>TrackNumber = 1, Timecode = - 2, Keyframe = True, Invisible = False, Lacing = l, Discardable = False,
     Data = [replicate 255 7, [9]]\<rparr>"

theorem block_roundtrip_witness:
  "fst (UnmarshalBlock \<lparr>rd_left = snd (MarshalBlock buf_write (sample_block LacingXiph) []), rd_end = IoEOF\<rparr>
      (int (length (snd (MarshalBlock buf_write (sample_block LacingXiph) []))))) \<noteq> Ok (sample_block LacingXiph)
 \<and> fst (UnmarshalBlock \<lparr>rd_left = snd (MarshalBlock buf_write (sample_block LacingEBML) []), rd_end = IoEOF\<rparr>
      (int (length (snd (MarshalBlock buf_write (sample_block LacingEBML) []))))) = Ok (sample_block LacingEBML)"
proof -
  have "fst (MarshalBlock buf_write (sample_block LacingXiph) []) = None" "fst (MarshalBlock buf_write (sample_block LacingEBML) []) = None"
    "list_all (\<lambda>f. int (length f) \<le> max_alloc) (Data (sample_block LacingXiph))"
    "list_all (\<lambda>f. int (length f) \<le> max_alloc) (Data (sample_block LacingEBML))"
    "\<not> lace_ok (Lacing (sample_block LacingXiph)) (Data (sample_block LacingXiph))"
    "lace_ok (Lacing (sample_block LacingEBML)) (Data (sample_block LacingEBML))"
    by code_simp+
  then show ?thesis
    using block_roundtrip [of "sample_block LacingXiph" _ "[]" IoEOF] block_roundtrip [of "sample_block LacingEBML" _ "[]" IoEOF]
    by (metis append_Nil2 fst_conv prod.collapse)
qed

section \<open>What reading consumes\<close>

lemma read1_consumes: "read1 r = (Inr b, r') \<Longrightarrow> length (rd_left r) = Suc (length (rd_left r'))"
  by (auto simp: read1_def split: list.splits)

lemma vuint_rest_consumes:
  "vuint_rest k v n r = ((v', n', None), r') \<Longrightarrow> length (rd_left r) + n = n' + length (rd_left r')"
  by (induction k v n r rule: vuint_rest.induct) (auto dest: read1_consumes split: prod.splits sum.splits)

lemma readVUInt_consumes: "readVUInt r = ((v, n, None), r') \<Longrightarrow> length (rd_left r) = n + length (rd_left r')"
  by (auto simp: readVUInt_def dest!: read1_consumes vuint_rest_consumes split: prod.splits sum.splits)

lemma readVInt_consumes: "readVInt r = ((v, n, None), r') \<Longrightarrow> length (rd_left r) = n + length (rd_left r')"
  by (auto simp: readVInt_def dest!: readVUInt_consumes split: prod.splits option.splits)

lemma readInt_consumes: "readInt n r = (Ok v, r') \<Longrightarrow> length (rd_left r) = n + length (rd_left r')"
  by (auto simp: readInt_def readUInt_def read_full_def split: if_splits prod.splits sum.splits go.splits)

lemma xiph_read_length:
  "xiph_read acc n bs e = (Inr (s, n'), bs') \<Longrightarrow> int (length bs) = int (length bs') + (n - n')"
  by (induction acc n bs e rule: xiph_read.induct) (auto split: if_splits)

lemma xiph_sizes_length:
  "xiph_sizes k n r = (Inr (ss, n'), r') \<Longrightarrow> int (length (rd_left r)) = int (length (rd_left r')) + (n - n')"
  by (induction k n r arbitrary: ss n' r' rule: xiph_sizes.induct)
    (fastforce dest: xiph_read_length split: prod.splits sum.splits)+

lemma ebml_sizes_length:
  "ebml_sizes k n64 n final r = (Inr (ss, n', final'), r') \<Longrightarrow> int (length (rd_left r)) = int (length (rd_left r')) + (n - n')"
  by (induction k n64 n final r arbitrary: ss n' final' r' rule: ebml_sizes.induct)
    (fastforce simp: Let_def dest: readVInt_consumes split: prod.splits sum.splits option.splits if_splits)+

lemma unlacer_frames_consume:
  "unlacer_frames sizes r = (Ok fs, r') \<Longrightarrow>
   rd_left r' = [] \<or> list_all make_ok sizes \<and> int (length (rd_left r)) = sum_list sizes + int (length (rd_left r'))"
  by (induction sizes r arbitrary: fs r' rule: unlacer_frames.induct)
    (fastforce simp: read_full_def make_ok_def split: if_splits sum.splits prod.splits go.splits)+

text \<open>The last size of an EBML lace is what is left, up to a multiple of \<open>2 ^ 64\<close>.\<close>

lemma wrap_i64_dvd: "2 ^ 64 dvd wrap_i64 x - x"
  unfolding wrap_i64_def by (simp add: minus_mult_div_eq_mod [symmetric] algebra_simps)

lemma ebml_sizes_final:
  "ebml_sizes k n64 n final r = (Inr (ss, n', final'), r') \<Longrightarrow> 2 ^ 64 dvd final' - (final - sum_list ss)"
proof (induction k n64 n final r arbitrary: ss n' final' r' rule: ebml_sizes.induct)
  case (2 k n64 n final r)
  then obtain d nRead r1 ss' where v: "readVInt r = ((d, nRead, None), r1)" and s: "\<not> wrap_i64 (n64 + d) \<le> 0"
    "ss = wrap_i64 (n64 + d) # ss'"
    "ebml_sizes k (wrap_i64 (n64 + d)) (n - int nRead) (wrap_i64 (final - wrap_i64 (n64 + d))) r1 = (Inr (ss', n', final'), r')"
    by (auto simp: Let_def split: prod.splits sum.splits option.splits if_splits)
  let ?s = "wrap_i64 (n64 + d)"
  have "2 ^ 64 dvd final' - (wrap_i64 (final - ?s) - sum_list ss')"
    by (rule 2(1) [OF v [symmetric] refl refl refl refl s(1,3)])
  from dvd_add [OF this wrap_i64_dvd [of "final - ?s"]] show ?case by (simp add: s(2) algebra_simps)
qed simp

lemma readVUInt_at_most_8: "readVUInt r = ((v, n, None), r') \<Longrightarrow> n \<le> 8"
proof -
  assume "readVUInt r = ((v, n, None), r')"
  then obtain b r1 k a where b: "vuint_head b = (k, a)" "vuint_rest k a 1 r1 = ((v, n, None), r')"
    by (auto simp: readVUInt_def split: prod.splits sum.splits)
  have "vuint_rest k a m r1 = ((v, n, None), r') \<Longrightarrow> n = m + k" for k a m r1
    by (induction k a m r1 rule: vuint_rest.induct) (auto split: prod.splits sum.splits)
  moreover have "k \<le> 7" using b(1) by (auto simp: vuint_head_def split: if_splits)
  ultimately show ?thesis using b(2) by fastforce
qed

lemma ebml_sizes_at_most:
  "ebml_sizes k n64 n final r = (Inr (ss, n', final'), r') \<Longrightarrow> n - 8 * int k \<le> n' \<and> n' \<le> n"
  by (induction k n64 n final r arbitrary: ss n' final' r' rule: ebml_sizes.induct)
    (fastforce simp: Let_def readVInt_def dest!: readVUInt_at_most_8 split: prod.splits sum.splits option.splits if_splits)+

lemma sum_sizes_bound: "list_all make_ok sizes \<Longrightarrow> 0 \<le> sum_list sizes \<and> sum_list sizes \<le> int (length sizes) * max_alloc"
  by (induction sizes) (auto simp: make_ok_def algebra_simps)

lemma NewEBMLUnlacer_framed:
  assumes "NewEBMLUnlacer r n = (Inr sizes, r')" and "list_all make_ok sizes" and "0 \<le> n" and "in_i64 n"
  shows "int (length (rd_left r)) = int (length (rd_left r')) + (n - sum_list sizes)"
proof -
  obtain b r1 u nRead r2 ss n' final where b: "read1 r = (Inr b, r1)" and u: "readVUInt r1 = ((u, nRead, None), r2)"
    and ss: "ebml_sizes (unat b - 1) (sint u) (n - 1 - int nRead) (if unat b = 0 then 0 else - sint u) r2 = (Inr (ss, n', final), r')"
    and sizes: "sizes = (if unat b = 0 then [] else [sint u]) @ ss @ [wrap_i64 (final + n')]"
    using assms(1) by (auto simp: NewEBMLUnlacer_def Let_def split: prod.splits sum.splits option.splits if_splits)
  have used: "int (length (rd_left r)) = int (length (rd_left r')) + (n - n')"
    using read1_consumes [OF b] readVUInt_consumes [OF u] ebml_sizes_length [OF ss] by simp
  have "unat b < 256" using unsigned_less [of b, where 'a = nat] by simp
  then have len: "length sizes \<le> 256" using ebml_sizes_positive [OF ss] sizes by (auto split: if_splits)
  have n': "- 4096 \<le> n'" "n' \<le> n"
    using ebml_sizes_at_most [OF ss] readVUInt_at_most_8 [OF u] assms(3) \<open>unat b < 256\<close> by linarith+
  have "2 ^ 64 dvd sum_list sizes - n'"
    using dvd_add [OF ebml_sizes_final [OF ss] wrap_i64_dvd [of "final + n'"]] sizes by (simp add: algebra_simps split: if_splits)
  moreover have "\<bar>sum_list sizes - n'\<bar> < 2 ^ 64"
  proof -
    have "int (length sizes) * max_alloc \<le> 256 * max_alloc" using len by (simp add: max_alloc_def)
    then have "0 \<le> sum_list sizes" "sum_list sizes \<le> 2 ^ 56"
      using sum_sizes_bound [OF assms(2)] by (simp_all add: max_alloc_def)
    then show ?thesis using n' assms(4) by (simp add: i64_defs)
  qed
  ultimately have "sum_list sizes = n'" using dvd_imp_le_int [of "sum_list sizes - n'" "2 ^ 64"] by force
  with used show ?thesis by simp
qed

lemma new_unlacer_framed:
  assumes "new_unlacer l r n = (Inr sizes, r')" and "list_all make_ok sizes" and "0 \<le> n" and "in_i64 n"
  shows "int (length (rd_left r)) = int (length (rd_left r')) + (n - sum_list sizes)"
proof (cases l)
  case LacingXiph
  with assms(1) show ?thesis
    by (fastforce simp: new_unlacer_def NewXiphUnlacer_def Let_def dest!: read1_consumes xiph_sizes_length
        split: prod.splits sum.splits if_splits)
next
  case LacingFixed
  with assms(1) show ?thesis
    by (auto simp: new_unlacer_def NewFixedUnlacer_def Let_def sum_list_replicate mult.commute dest!: read1_consumes
        split: prod.splits sum.splits if_splits)
qed (use assms NewEBMLUnlacer_framed in \<open>auto simp: new_unlacer_def NewNoUnlacer_def\<close>)

text \<open>C15: Reading a block keeps the framing of the stream, for any input. A block that is returned has
  consumed exactly the bytes its element announced, or the input has ended: whatever the lacing
  and however the sizes were chosen, the next element starts where it should.\<close>

theorem block_reading_framed:
  assumes "UnmarshalBlock r n = (Ok b, r')" and "in_i64 n"
  shows "rd_left r' = [] \<or> int (length (rd_left r)) = n + int (length (rd_left r'))"
proof -
  obtain track nRead r1 t r2 f r3 l sizes r4 where "readVUInt r = ((track, nRead, None), r1)" "readInt 2 r1 = (Ok t, r2)"
    "read1 r2 = (Inr f, r3)" and n: "0 \<le> n - int nRead - 3" and new: "new_unlacer l r3 (n - int nRead - 3) = (Inr sizes, r4)"
    and frames: "unlacer_frames sizes r4 = (Ok (Data b), r')"
    using assms(1)
    by (auto simp: UnmarshalBlock_def Let_def split: prod.splits sum.splits option.splits go.splits if_splits)
  then have head: "length (rd_left r) = nRead + 3 + length (rd_left r3)"
    by (auto dest!: readVUInt_consumes readInt_consumes read1_consumes)
  have "in_i64 (n - int nRead - 3)" using n assms(2) by (auto simp: i64_defs)
  with new_unlacer_framed [OF new _ n] unlacer_frames_consume [OF frames] head show ?thesis by linarith
qed

theorem block_reading_framed_witness:
  "let r = \<lparr>rd_left = [0x81, 0, 5, 0x86, 1, 0x82, 7, 8, 9, 0xEC, 0x80], rd_end = IoEOF\<rparr> in
   fst (UnmarshalBlock r 9) = Ok \<lparr>TrackNumber = 1, Timecode = 5, Keyframe = True, Invisible = False, Lacing = LacingEBML,
     Discardable = False, Data = [[7, 8], [9]]\<rparr>
 \<and> int (length (rd_left r)) = 9 + int (length (rd_left (snd (UnmarshalBlock r 9))))"
proof -
  let ?r = "\<lparr>rd_left = [0x81, 0, 5, 0x86, 1, 0x82, 7, 8, 9, 0xEC, 0x80], rd_end = IoEOF\<rparr>"
  let ?b = "\<lparr>TrackNumber = 1, Timecode = 5, Keyframe = True, Invisible = False, Lacing = LacingEBML, Discardable = False,
    Data = [[7, 8], [9]]\<rparr>"
  have r: "UnmarshalBlock ?r 9 = (Ok ?b, \<lparr>rd_left = [0xEC, 0x80], rd_end = IoEOF\<rparr>)" by code_simp
  have "in_i64 9" by (simp add: i64_defs)
  from block_reading_framed [OF r this] show ?thesis by (simp add: r)
qed

section \<open>Panics\<close>

lemma unlacer_frames_no_panic: "list_all make_ok sizes \<Longrightarrow> fst (unlacer_frames sizes r) \<noteq> Panics"
  by (induction sizes r rule: unlacer_frames.induct) (auto split: prod.splits sum.splits go.splits)

lemma sum_list_parts: "list_all (\<lambda>s. 0 \<le> s) (ss :: int list) \<Longrightarrow> 0 \<le> sum_list ss \<and> list_all (\<lambda>s. s \<le> sum_list ss) ss"
  by (induction ss) (auto simp: list_all_iff)

lemma NewXiphUnlacer_sizes:
  assumes "NewXiphUnlacer r n = (Inr sizes, r')" and "n \<le> max_alloc"
  shows "list_all make_ok sizes"
proof -
  obtain k ss n' r1 where ss: "xiph_sizes k (n - 1) r1 = (Inr (ss, n'), r')" and sizes: "sizes = ss @ [n' - sum_list ss]"
    and pos: "0 < n' - sum_list ss"
    using assms(1) by (auto simp: NewXiphUnlacer_def Let_def split: prod.splits sum.splits if_splits)
  from xiph_sizes_consume [OF ss] have nonneg: "list_all (\<lambda>s. 0 \<le> s) ss" and n': "n' = n - 1 - sum_list (map (\<lambda>s. s div 255 + 1) ss)"
    by blast+
  have "0 \<le> sum_list (map (\<lambda>s. s div 255 + 1) ss)"
    using nonneg by (intro sum_list_nonneg) (auto simp: list_all_iff pos_imp_zdiv_nonneg_iff add_nonneg_nonneg)
  with n' assms(2) have "n' \<le> max_alloc" by linarith
  with sum_list_parts [OF nonneg] pos nonneg show ?thesis unfolding sizes list_all_iff make_ok_def
    by (auto dest!: bspec)
qed

lemma NewFixedUnlacer_sizes:
  assumes "NewFixedUnlacer r n = (Inr sizes, r')" and "0 < n" and "n \<le> max_alloc"
  shows "list_all make_ok sizes"
proof -
  obtain b :: byte where b: "sizes = replicate (nat (uint b + 1)) ((n - 1) sdiv (uint b + 1))"
    "(n - 1) sdiv (uint b + 1) * (uint b + 1) + 1 = n"
    using assms(1) by (auto simp: NewFixedUnlacer_def Let_def split: prod.splits sum.splits if_splits)
  obtain m where m: "sizes = replicate (nat m) ((n - 1) sdiv m)" "(n - 1) sdiv m * m + 1 = n" "0 < m"
    using b that [of "uint b + 1"] uint_nonnegative [of b] by (metis zle_add1_eq_le add.commute zless_add1_eq le_less)
  from m(2) assms(2) have "0 \<le> (n - 1) sdiv m * m" by linarith
  then have "0 \<le> (n - 1) sdiv m" using m(3) by (simp add: zero_le_mult_iff)
  moreover from this m(3) have "(n - 1) sdiv m * 1 \<le> (n - 1) sdiv m * m" by (intro mult_left_mono) simp_all
  ultimately show ?thesis using m(2) assms(3) by (auto simp: m(1) list_all_iff make_ok_def)
qed

lemma new_unlacer_sizes:
  assumes "new_unlacer l r n = (Inr sizes, r')" and "0 \<le> n" and "n \<le> max_alloc" and "l \<noteq> LacingEBML" and "\<not> (l = LacingFixed \<and> n = 0)"
  shows "list_all make_ok sizes"
  using assms by (cases l) (auto simp: new_unlacer_def NewNoUnlacer_def make_ok_def NewXiphUnlacer_sizes NewFixedUnlacer_sizes)

text \<open>An unsigned variable-length integer has at most 56 bits, so it is not negative as a size.\<close>

lemma vuint_head_bits:
  assumes "vuint_head b = (k, a)"
  shows "k \<le> 7 \<and> (bit a i \<longrightarrow> i + 8 * k < 63)"
proof -
  have m: "(0x7F :: byte) = mask 7" "(0x3F :: byte) = mask 6" "(0x1F :: byte) = mask 5" "(0x0F :: byte) = mask 4"
    "(0x07 :: byte) = mask 3" "(0x03 :: byte) = mask 2" "(0x01 :: byte) = mask 1"
    by (simp_all add: mask_eq_exp_minus_1)
  have "bit (ucast (b AND mask n) :: uint64) i \<Longrightarrow> i < n" for n by (simp add: bit_simps)
  then show ?thesis using assms unfolding vuint_head_def m by (force split: if_splits)
qed

lemma vuint_rest_bits:
  "vuint_rest k a m r = ((v, n, None), r') \<Longrightarrow> k \<le> 7 \<Longrightarrow> (\<And>i. bit a i \<Longrightarrow> i + 8 * k < 63) \<Longrightarrow> \<not> bit v 63"
proof (induction k a m r rule: vuint_rest.induct)
  case (2 vc a m r)
  from 2(2) obtain b r1 where b: "read1 r = (Inr b, r1)" "vuint_rest vc (push_bit 8 a OR ucast b) (m + 1) r1 = ((v, n, None), r')"
    by (auto split: prod.splits sum.splits)
  have "i + 8 * vc < 63" if "bit (push_bit 8 a OR ucast b) i" for i
    using that 2(3) 2(4) [of "i - 8"] bit_imp_le_length [of b i] by (auto simp: bit_simps)
  then show ?case using 2(1) [OF b(1) [symmetric] refl b(2)] 2(3) by simp
qed fastforce

lemma readVUInt_sint: "readVUInt r = ((v, n, None), r') \<Longrightarrow> 0 \<le> sint v"
proof -
  assume "readVUInt r = ((v, n, None), r')"
  then obtain b r1 k a where b: "vuint_head b = (k, a)" "vuint_rest k a 1 r1 = ((v, n, None), r')"
    by (auto simp: readVUInt_def split: prod.splits sum.splits)
  have "\<not> bit v 63" by (rule vuint_rest_bits [OF b(2)]) (use vuint_head_bits [OF b(1)] in auto)
  then show ?thesis using bit_last_iff [of v] by simp
qed

text \<open>The sizes an EBML lace is read with are not negative and add up to what is left, up to a
  multiple of \<open>2 ^ 64\<close>; a size that cannot be allocated makes that multiple positive.\<close>

lemma NewEBMLUnlacer_wraps:
  assumes "NewEBMLUnlacer r n = (Inr sizes, r')" and "\<not> list_all make_ok sizes" and "n \<le> max_alloc"
  shows "list_all (\<lambda>s. 0 \<le> s) sizes
     \<and> (\<exists>m>0. sum_list sizes = n - (int (length (rd_left r)) - int (length (rd_left r'))) + m * 2 ^ 64)"
proof
  obtain b r1 u nRead r2 ss n' final where b: "read1 r = (Inr b, r1)" and u: "readVUInt r1 = ((u, nRead, None), r2)"
    and ss: "ebml_sizes (unat b - 1) (sint u) (n - 1 - int nRead) (if unat b = 0 then 0 else - sint u) r2 = (Inr (ss, n', final), r')"
    and sizes: "sizes = (if unat b = 0 then [] else [sint u]) @ ss @ [wrap_i64 (final + n')]" "0 < wrap_i64 (final + n')"
    using assms(1) by (auto simp: NewEBMLUnlacer_def Let_def split: prod.splits sum.splits option.splits if_splits)
  have used: "int (length (rd_left r)) = int (length (rd_left r')) + (n - n')"
    using read1_consumes [OF b] readVUInt_consumes [OF u] ebml_sizes_length [OF ss] by simp
  show nonneg: "list_all (\<lambda>s. 0 \<le> s) sizes"
    using ebml_sizes_positive [OF ss] readVUInt_sint [OF u] sizes by (auto simp: list_all_iff)
  have "2 ^ 64 dvd sum_list sizes - n'"
    using dvd_add [OF ebml_sizes_final [OF ss] wrap_i64_dvd [of "final + n'"]] sizes(1) by (simp add: algebra_simps split: if_splits)
  then obtain m where m: "sum_list sizes = n' + m * 2 ^ 64" by (auto simp: dvd_def algebra_simps)
  obtain s where "s \<in> set sizes" "max_alloc < s"
    using assms(2) nonneg unfolding list_all_iff make_ok_def by (auto simp: not_le)
  with sum_list_parts [OF nonneg] have "max_alloc < sum_list sizes" unfolding list_all_iff by force
  moreover have "n' \<le> n" using ebml_sizes_at_most [OF ss] by linarith
  ultimately have "0 < m * 2 ^ 64" using m assms(3) by linarith
  then have "0 < m" by simp
  with m used show "\<exists>m>0. sum_list sizes = n - (int (length (rd_left r)) - int (length (rd_left r'))) + m * 2 ^ 64"
    by (intro exI [of _ m]) simp
qed

text \<open>C37: Reading a block of at most \<open>2 ^ 48\<close> bytes panics in two situations only. Either its flags
  announce EBML lacing, and the frame sizes, none negative, add up to what is left of the element plus a
  positive multiple of \<open>2 ^ 64\<close>: the sum of the differences the input chooses has wrapped
  around. Or they announce fixed-size lacing and the element ends right after its header, when the
  single frame gets the size minus one. Both happen.\<close>

theorem block_reading_panics:
  assumes "UnmarshalBlock r n = (Panics, r')" and "n \<le> max_alloc"
  shows "\<exists>track k r1 l. readVUInt r = ((track, k, None), r1) \<and> l = lacing_of_byte (drop_bit 1 (rd_left r1 ! 2 AND 0x06))
       \<and> (l = LacingEBML \<and> (\<exists>r3 sizes r4 m. rd_left r3 = drop 3 (rd_left r1)
              \<and> NewEBMLUnlacer r3 (n - int k - 3) = (Inr sizes, r4) \<and> list_all (\<lambda>s. 0 \<le> s) sizes \<and> 0 < m
              \<and> sum_list sizes = n - int k - 3 - (int (length (rd_left r3)) - int (length (rd_left r4))) + m * 2 ^ 64)
          \<or> l = LacingFixed \<and> n = int k + 3)"
proof -
  obtain track k r1 t r2 f r3 l sizes r4 where v: "readVUInt r = ((track, k, None), r1)" and t: "readInt 2 r1 = (Ok t, r2)"
    and f: "read1 r2 = (Inr f, r3)" and n: "0 \<le> n - int k - 3" and l: "l = lacing_of_byte (drop_bit 1 (f AND 0x06))"
    and new: "new_unlacer l r3 (n - int k - 3) = (Inr sizes, r4)" and frames: "fst (unlacer_frames sizes r4) = Panics"
    using assms(1)
    by (auto simp: UnmarshalBlock_def Let_def split: prod.splits sum.splits option.splits go.splits if_splits)
      (auto simp: readInt_def readUInt_def make_ok_def max_alloc_def split: prod.splits sum.splits go.splits if_splits)
  have r3: "rd_left r2 = drop 2 (rd_left r1)" "rd_left r2 = f # rd_left r3" using t f
    by (auto simp: readInt_def readUInt_def read1_def read_full_def split: prod.splits sum.splits go.splits if_splits list.splits)
  then have d: "drop 2 (rd_left r1) = f # rd_left r3" by simp
  have "drop 1 (drop 2 (rd_left r1)) = drop 3 (rd_left r1)" by (simp add: numeral_3_eq_3)
  then have f': "rd_left r1 ! 2 = f" "rd_left r3 = drop 3 (rd_left r1)" by (simp_all add: d nth_via_drop [OF d])
  have bad: "\<not> list_all make_ok sizes" using unlacer_frames_no_panic [of sizes r4] frames by blast
  show ?thesis
  proof (cases "l = LacingEBML")
    case True
    then have "NewEBMLUnlacer r3 (n - int k - 3) = (Inr sizes, r4)" using new by (simp add: new_unlacer_def)
    from this NewEBMLUnlacer_wraps [OF this bad] assms(2) show ?thesis using v l True f' by fastforce
  next
    case False
    then have "l = LacingFixed \<and> n - int k - 3 = 0"
      using new_unlacer_sizes [OF new n] bad n assms(2) by linarith
    then show ?thesis using v l f' by force
  qed
qed

definition overflowing_lace :: bytes where
  "overflowing_lace = [0x81, 0, 0, 0x06, 22] @ [0x01, 0xff, 0xff, 0xff, 0xff, 0xff, 0xff, 0xfe]
     @ concat (replicate 21 [0x01, 0xff, 0xff, 0xff, 0xff, 0xff, 0xff, 0xfe])"

lemma overflowing_lace_panics:
  "fst (UnmarshalBlock \<lparr>rd_left = overflowing_lace, rd_end = IoEOF\<rparr> 181) = Panics" "length overflowing_lace = 181"
  by code_simp+

theorem block_reading_panics_witness:
  "fst (UnmarshalBlock \<lparr>rd_left = overflowing_lace, rd_end = IoEOF\<rparr> 181) = Panics
 \<and> fst (UnmarshalBlock \<lparr>rd_left = [0x81, 0, 0, 0x04, 0], rd_end = IoEOF\<rparr> 4) = Panics
 \<and> (\<exists>track k r1. readVUInt \<lparr>rd_left = [0x81, 0, 0, 0x04, 0], rd_end = IoEOF\<rparr> = ((track, k, None), r1) \<and> k = 1)"
proof -
  let ?r = "\<lparr>rd_left = [0x81, 0, 0, 0x04, 0], rd_end = IoEOF\<rparr>"
  have f: "fst (UnmarshalBlock ?r 4) = Panics" by code_simp
  then have p: "UnmarshalBlock ?r 4 = (Panics, snd (UnmarshalBlock ?r 4))" by (metis prod.collapse)
  have "4 \<le> max_alloc" by (simp add: max_alloc_def)
  from block_reading_panics [OF p this] obtain track k r1 where k: "readVUInt ?r = ((track, k, None), r1)" 
    "lacing_of_byte (drop_bit 1 (rd_left r1 ! 2 AND 0x06)) = LacingEBML \<or> 4 = int k + 3" by auto
  have "readVUInt ?r = ((1, 1, None), \<lparr>rd_left = [0, 0, 0x04, 0], rd_end = IoEOF\<rparr>)" by code_simp
  with k f overflowing_lace_panics(1) show ?thesis by (auto simp: lacing_of_byte_def)
qed

end
