(* ===== verification/Ad_Decision.thy ===== *)
theory Ad_Decision
  imports MM_Float Database
begin

text \<open>
  Which ad a viewer gets and what is recorded about it: the rules, the decision engine and the
  impression service of \<^verbatim>\<open>crates/mm-ads/src\<close> (\<^verbatim>\<open>creative.rs\<close>, \<^verbatim>\<open>rules.rs\<close>, \<^verbatim>\<open>decision.rs\<close>,
  \<^verbatim>\<open>impression.rs\<close>, \<^verbatim>\<open>enforcement.rs\<close>) over their tables (\<^verbatim>\<open>V010__advertising.sql\<close>).

  The clock and the random numbers are arguments: the instant and the number a rule sees are
  functions of the rule, since every rule reads its own. The MAC of a completion proof is an argument.
\<close>

section \<open>Slots, rules and their configuration\<close>

datatype ad_slot = PreRoll | MidRoll | PostRoll | AnySlot

fun ad_slot_as_str :: "ad_slot \<Rightarrow> string" where
  "ad_slot_as_str PreRoll = ''pre_roll''"
| "ad_slot_as_str MidRoll = ''mid_roll''"
| "ad_slot_as_str PostRoll = ''post_roll''"
| "ad_slot_as_str AnySlot = ''any''"

definition ad_slot_from_str :: "string \<Rightarrow> ad_slot option" where
  "ad_slot_from_str s =
     (if s = ''pre_roll'' then Some PreRoll else if s = ''mid_roll'' then Some MidRoll
      else if s = ''post_roll'' then Some PostRoll else if s = ''any'' then Some AnySlot else None)"

datatype rule_type = Always | TimeInterval | ViewerCountMin | ViewerCountMax | CategoryMatch | TimeOfDay | Probability

fun rule_type_as_str :: "rule_type \<Rightarrow> string" where
  "rule_type_as_str Always = ''always''"
| "rule_type_as_str TimeInterval = ''time_interval''"
| "rule_type_as_str ViewerCountMin = ''viewer_count_min''"
| "rule_type_as_str ViewerCountMax = ''viewer_count_max''"
| "rule_type_as_str CategoryMatch = ''category_match''"
| "rule_type_as_str TimeOfDay = ''time_of_day''"
| "rule_type_as_str Probability = ''probability''"

definition rule_type_from_str :: "string \<Rightarrow> rule_type option" where
  "rule_type_from_str s =
     (if s = ''always'' then Some Always else if s = ''time_interval'' then Some TimeInterval
      else if s = ''viewer_count_min'' then Some ViewerCountMin else if s = ''viewer_count_max'' then Some ViewerCountMax
      else if s = ''category_match'' then Some CategoryMatch else if s = ''time_of_day'' then Some TimeOfDay
      else if s = ''probability'' then Some Probability else None)"

text \<open>JSON values as \<^verbatim>\<open>serde_json\<close> holds them; indexing anything but an object, or a missing key,
  gives null.\<close>

datatype json = JNull | JBool bool | JPos nat | JNeg int | JFloat f64 | JStr string | JArr "json list"
  | JObj "(string \<times> json) list"

definition json_at :: "json \<Rightarrow> string \<Rightarrow> json" where
  "json_at v k = (case v of JObj m \<Rightarrow> (case map_of m k of Some x \<Rightarrow> x | None \<Rightarrow> JNull) | _ \<Rightarrow> JNull)"

definition as_u64 :: "json \<Rightarrow> nat option" where
  "as_u64 v = (case v of JPos n \<Rightarrow> Some n | _ \<Rightarrow> None)"

definition as_f64 :: "json \<Rightarrow> f64 option" where
  "as_f64 v = (case v of JPos n \<Rightarrow> Some (f64_of_int (int n)) | JNeg i \<Rightarrow> Some (f64_of_int i) | JFloat x \<Rightarrow> Some x | _ \<Rightarrow> None)"

definition unwrap_or :: "'a option \<Rightarrow> 'a \<Rightarrow> 'a" where
  "unwrap_or x d = (case x of Some y \<Rightarrow> y | None \<Rightarrow> d)"

definition json_strings :: "json \<Rightarrow> string list" where
  "json_strings v = (case v of JArr xs \<Rightarrow> List.map_filter (\<lambda>x. case x of JStr s \<Rightarrow> Some s | _ \<Rightarrow> None) xs | _ \<Rightarrow> [])"

record ad_rule =
  ar_id :: string
  ar_ad_id :: string
  ar_rule_type :: string
  ar_rule_config :: json
  ar_priority :: int
  ar_active :: bool
  ar_created_at :: instant

record rule_context =
  rc_viewer_count :: nat
  rc_stream_duration_secs :: nat
  rc_categories :: "string list"
  rc_last_ad_at :: "instant option"

text \<open>What a rule sees of the world when it is evaluated.\<close>

record rule_world =
  rw_now :: "ad_rule \<Rightarrow> instant"
  rw_random :: "ad_rule \<Rightarrow> f64"

definition as_u64_cast :: "int \<Rightarrow> nat" where
  "as_u64_cast x = nat (x mod 18446744073709551616)"

definition utc_hour :: "instant \<Rightarrow> nat" where
  "utc_hour t = nat (t div 3600000000000 mod 24)"

definition evaluate_rule :: "rule_world \<Rightarrow> ad_rule \<Rightarrow> rule_context \<Rightarrow> bool" where
  "evaluate_rule rw rule ctx =
     (if \<not> ar_active rule then False
      else case rule_type_from_str (ar_rule_type rule) of
        None \<Rightarrow> False
      | Some Always \<Rightarrow> True
      | Some TimeInterval \<Rightarrow>
          let interval = unwrap_or (as_u64 (json_at (ar_rule_config rule) ''interval_secs'')) 1200 in
          (case rc_last_ad_at ctx of
             Some last_at \<Rightarrow> interval \<le> as_u64_cast (num_seconds (rw_now rw rule - last_at))
           | None \<Rightarrow> True)
      | Some ViewerCountMin \<Rightarrow>
          wrap_u32 (unwrap_or (as_u64 (json_at (ar_rule_config rule) ''min_viewers'')) 0) \<le> rc_viewer_count ctx
      | Some ViewerCountMax \<Rightarrow>
          rc_viewer_count ctx \<le> (case as_u64 (json_at (ar_rule_config rule) ''max_viewers'') of
            Some m \<Rightarrow> wrap_u32 m | None \<Rightarrow> u32_max)
      | Some CategoryMatch \<Rightarrow>
          let rule_cats = json_strings (json_at (ar_rule_config rule) ''categories'') in
          list_ex (\<lambda>c. c \<in> set rule_cats) (rc_categories ctx)
      | Some TimeOfDay \<Rightarrow>
          let start = wrap_u32 (unwrap_or (as_u64 (json_at (ar_rule_config rule) ''start_hour_utc'')) 0);
              end_hour = wrap_u32 (unwrap_or (as_u64 (json_at (ar_rule_config rule) ''end_hour_utc'')) 24);
              now_hour = utc_hour (rw_now rw rule) in
          if start \<le> end_hour then start \<le> now_hour \<and> now_hour < end_hour
          else start \<le> now_hour \<or> now_hour < end_hour
      | Some Probability \<Rightarrow>
          let prob = unwrap_or (as_f64 (json_at (ar_rule_config rule) ''probability'')) (Fin 1) in
          f64_gt prob (rw_random rw rule))"

definition evaluate_rules :: "rule_world \<Rightarrow> ad_rule list \<Rightarrow> rule_context \<Rightarrow> bool" where
  "evaluate_rules rw rules ctx = list_ex (\<lambda>r. evaluate_rule rw r ctx) rules"

section \<open>Tables\<close>

record ad_creative =
  ac_id :: string
  ac_owner_type :: string
  ac_owner_id :: string
  ac_title :: string
  ac_placement :: string
  ac_duration_secs :: int
  ac_storage_key :: string
  ac_storage_backend :: string
  ac_cdn_url :: "string option"
  ac_mime_type :: string
  ac_file_size_bytes :: int
  ac_click_through_url :: "string option"
  ac_categories :: json
  ac_status :: string
  ac_created_at :: instant
  ac_updated_at :: instant

record ad_impression =
  im_id :: string
  im_token :: string
  im_ad_id :: string
  im_stream_id :: string
  im_viewer :: string
  im_slot :: string
  im_owner_type :: string
  im_decided_at :: instant
  im_started_at :: "instant option"
  im_completed_at :: "instant option"
  im_skipped_at :: "instant option"
  im_clicked_at :: "instant option"
  im_error_at :: "instant option"
  im_watch_duration_secs :: "int option"
  im_quartile_reached :: int
  im_viewport_visible :: "bool option"
  im_audio_audible :: "bool option"
  im_sfu_revoked_at :: "instant option"
  im_sfu_restored_at :: "instant option"

record ads_db =
  adb_creatives :: "ad_creative list"
  adb_rules :: "ad_rule list"
  adb_impressions :: "ad_impression list"

type_synonym 'x adsenv = "(ads_db, 'x) env"

section \<open>Creatives and rules\<close>

definition list_ready_for_slot :: "string \<Rightarrow> string option \<Rightarrow> string \<Rightarrow> ads_db \<Rightarrow> ad_creative list" where
  "list_ready_for_slot owner_type owner_id placement d =
     sort_key (\<lambda>a. - ac_created_at a) (filter (\<lambda>a. ac_owner_type a = owner_type
       \<and> (case owner_id of Some i \<Rightarrow> ac_owner_id a = i | None \<Rightarrow> True)
       \<and> ac_status a = ''ready'' \<and> (ac_placement a = placement \<or> ac_placement a = ''any'')) (adb_creatives d))"

definition list_rules :: "string \<Rightarrow> ads_db \<Rightarrow> ad_rule list" where
  "list_rules ad_id d = sort_key (\<lambda>r. - ar_priority r) (filter (\<lambda>r. ar_ad_id r = ad_id \<and> ar_active r) (adb_rules d))"

definition delete_rules :: "string \<Rightarrow> (ads_db, unit) stmt" where
  "delete_rules ad_id d = (Inr (), d\<lparr>adb_rules := filter (\<lambda>r. ar_ad_id r \<noteq> ad_id) (adb_rules d)\<rparr>)"

definition insert_rule :: "string \<Rightarrow> instant \<Rightarrow> ad_rule \<Rightarrow> (ads_db, unit) stmt" where
  "insert_rule ad_id now r d =
     (if ar_id r \<in> ar_id ` set (adb_rules d) then (Inl (Violates ''mm_ad_rules_pkey''), d)
      else if ad_id \<notin> ac_id ` set (adb_creatives d) then (Inl (Violates ''mm_ad_rules_ad_id_fkey''), d)
      else if rule_type_from_str (ar_rule_type r) = None then (Inl (Violates ''mm_ad_rules_rule_type_check''), d)
      else (Inr (), d\<lparr>adb_rules := adb_rules d @ [r\<lparr>ar_ad_id := ad_id, ar_created_at := now\<rparr>]\<rparr>))"

fun insert_rules :: "schedule \<Rightarrow> string \<Rightarrow> instant \<Rightarrow> ad_rule list \<Rightarrow> 'x adsenv \<Rightarrow> (sql_error + unit) \<times> 'x adsenv" where
  "insert_rules \<phi> ad_id now [] w = (Inr (), w)"
| "insert_rules \<phi> ad_id now (r # rs) w =
     (case sql \<phi> (insert_rule ad_id now r) w of
        (Inl e, w') \<Rightarrow> (Inl e, w')
      | (Inr _, w') \<Rightarrow> insert_rules \<phi> ad_id now rs w')"

definition set_rules :: "schedule \<Rightarrow> string \<Rightarrow> instant \<Rightarrow> ad_rule list \<Rightarrow> 'x adsenv \<Rightarrow> (sql_error + unit) \<times> 'x adsenv" where
  "set_rules \<phi> ad_id now rules w =
     (case sql \<phi> (delete_rules ad_id) w of
        (Inl e, w') \<Rightarrow> (Inl e, w')
      | (Inr _, w') \<Rightarrow> insert_rules \<phi> ad_id now rules w')"

section \<open>Impressions\<close>

datatype ad_event = DecisionEv | ImpressionEv | Quartile25 | Quartile50 | Quartile75 | Completed | Skipped | Clicked | ErrorEv

fun ad_event_as_str :: "ad_event \<Rightarrow> string" where
  "ad_event_as_str DecisionEv = ''decision''"
| "ad_event_as_str ImpressionEv = ''impression''"
| "ad_event_as_str Quartile25 = ''quartile_25''"
| "ad_event_as_str Quartile50 = ''quartile_50''"
| "ad_event_as_str Quartile75 = ''quartile_75''"
| "ad_event_as_str Completed = ''completed''"
| "ad_event_as_str Skipped = ''skipped''"
| "ad_event_as_str Clicked = ''clicked''"
| "ad_event_as_str ErrorEv = ''error''"

definition ad_event_from_str :: "string \<Rightarrow> ad_event option" where
  "ad_event_from_str s =
     (if s = ''decision'' then Some DecisionEv else if s = ''impression'' then Some ImpressionEv
      else if s = ''quartile_25'' then Some Quartile25 else if s = ''quartile_50'' then Some Quartile50
      else if s = ''quartile_75'' then Some Quartile75 else if s = ''completed'' then Some Completed
      else if s = ''skipped'' then Some Skipped else if s = ''clicked'' then Some Clicked
      else if s = ''error'' then Some ErrorEv else None)"

fun quartile_number :: "ad_event \<Rightarrow> int option" where
  "quartile_number Quartile25 = Some 1"
| "quartile_number Quartile50 = Some 2"
| "quartile_number Quartile75 = Some 3"
| "quartile_number Completed = Some 4"
| "quartile_number _ = None"

definition decision_row :: "string \<Rightarrow> string \<Rightarrow> string \<Rightarrow> string \<Rightarrow> string \<Rightarrow> string \<Rightarrow> string \<Rightarrow> instant \<Rightarrow> ad_impression" where
  "decision_row i token ad_id stream_id viewer slot owner_type now =
     \<lparr>im_id = i, im_token = token, im_ad_id = ad_id, im_stream_id = stream_id, im_viewer = viewer, im_slot = slot,
      im_owner_type = owner_type, im_decided_at = now, im_started_at = None, im_completed_at = None, im_skipped_at = None,
      im_clicked_at = None, im_error_at = None, im_watch_duration_secs = None, im_quartile_reached = 0,
      im_viewport_visible = None, im_audio_audible = None, im_sfu_revoked_at = None, im_sfu_restored_at = None\<rparr>"

definition insert_impression :: "ad_impression \<Rightarrow> (ads_db, unit) stmt" where
  "insert_impression r d =
     (if im_id r \<in> im_id ` set (adb_impressions d) then (Inl (Violates ''mm_ad_impressions_pkey''), d)
      else if im_token r \<in> im_token ` set (adb_impressions d) then (Inl (Violates ''mm_ad_impressions_impression_token_key''), d)
      else if im_ad_id r \<notin> ac_id ` set (adb_creatives d) then (Inl (Violates ''mm_ad_impressions_ad_id_fkey''), d)
      else (Inr (), d\<lparr>adb_impressions := adb_impressions d @ [r]\<rparr>))"

definition record_decision ::
  "schedule \<Rightarrow> string \<Rightarrow> string \<Rightarrow> string \<Rightarrow> string \<Rightarrow> string \<Rightarrow> string \<Rightarrow> string \<Rightarrow> instant \<Rightarrow> 'x adsenv \<Rightarrow> (sql_error + string) \<times> 'x adsenv" where
  "record_decision \<phi> i token ad_id stream_id viewer slot owner_type now w =
     (case sql \<phi> (insert_impression (decision_row i token ad_id stream_id viewer slot owner_type now)) w of
        (Inl e, w') \<Rightarrow> (Inl e, w')
      | (Inr _, w') \<Rightarrow> (Inr i, w'))"

definition update_impressions :: "string \<Rightarrow> (ad_impression \<Rightarrow> ad_impression) \<Rightarrow> (ads_db, unit) stmt" where
  "update_impressions token f d =
     (Inr (), d\<lparr>adb_impressions := map (\<lambda>r. if im_token r = token then f r else r) (adb_impressions d)\<rparr>)"

definition event_update :: "ad_event \<Rightarrow> instant \<Rightarrow> (ad_impression \<Rightarrow> ad_impression) option" where
  "event_update ev now =
     (case ev of
        ImpressionEv \<Rightarrow> Some (\<lambda>r. if im_started_at r = None then r\<lparr>im_started_at := Some now\<rparr> else r)
      | Completed \<Rightarrow> Some (\<lambda>r. r\<lparr>im_completed_at := Some now, im_quartile_reached := 4\<rparr>)
      | Skipped \<Rightarrow> Some (\<lambda>r. r\<lparr>im_skipped_at := Some now\<rparr>)
      | Clicked \<Rightarrow> Some (\<lambda>r. r\<lparr>im_clicked_at := Some now\<rparr>)
      | ErrorEv \<Rightarrow> Some (\<lambda>r. r\<lparr>im_error_at := Some now\<rparr>)
      | DecisionEv \<Rightarrow> None
      | _ \<Rightarrow> (case quartile_number ev of
               Some q \<Rightarrow> Some (\<lambda>r. r\<lparr>im_quartile_reached := max (im_quartile_reached r) q\<rparr>)
             | None \<Rightarrow> None))"

definition update_event :: "schedule \<Rightarrow> string \<Rightarrow> ad_event \<Rightarrow> instant \<Rightarrow> 'x adsenv \<Rightarrow> (sql_error + unit) \<times> 'x adsenv" where
  "update_event \<phi> token ev now w =
     (case event_update ev now of None \<Rightarrow> (Inr (), w) | Some f \<Rightarrow> sql \<phi> (update_impressions token f) w)"

definition record_sfu_revoked :: "schedule \<Rightarrow> string \<Rightarrow> instant \<Rightarrow> 'x adsenv \<Rightarrow> (sql_error + unit) \<times> 'x adsenv" where
  "record_sfu_revoked \<phi> token now = sql \<phi> (update_impressions token (\<lambda>r. r\<lparr>im_sfu_revoked_at := Some now\<rparr>))"

definition record_sfu_restored :: "schedule \<Rightarrow> string \<Rightarrow> instant \<Rightarrow> 'x adsenv \<Rightarrow> (sql_error + unit) \<times> 'x adsenv" where
  "record_sfu_restored \<phi> token now = sql \<phi> (update_impressions token (\<lambda>r. r\<lparr>im_sfu_restored_at := Some now\<rparr>))"

definition get_by_token :: "schedule \<Rightarrow> string \<Rightarrow> 'x adsenv \<Rightarrow> (sql_error + ad_impression option) \<times> 'x adsenv" where
  "get_by_token \<phi> token = sql \<phi> (reads (\<lambda>d. find (\<lambda>r. im_token r = token) (adb_impressions d)))"

definition active_breaks :: "string \<Rightarrow> string \<Rightarrow> instant \<Rightarrow> ads_db \<Rightarrow> nat" where
  "active_breaks stream_id viewer now d =
     length (filter (\<lambda>r. im_stream_id r = stream_id \<and> im_viewer r = viewer \<and> im_completed_at r = None
       \<and> im_skipped_at r = None \<and> im_error_at r = None \<and> now - secs 300 < im_decided_at r) (adb_impressions d))"

definition has_active_ad_break :: "schedule \<Rightarrow> string \<Rightarrow> string \<Rightarrow> instant \<Rightarrow> 'x adsenv \<Rightarrow> (sql_error + bool) \<times> 'x adsenv" where
  "has_active_ad_break \<phi> stream_id viewer now w =
     (case sql \<phi> (reads (active_breaks stream_id viewer now)) w of
        (Inl e, w') \<Rightarrow> (Inl e, w')
      | (Inr n, w') \<Rightarrow> (Inr (0 < n), w'))"

section \<open>The decision engine\<close>

record ad_config =
  cfg_platform_ads_enabled :: bool
  cfg_streamer_ads_enabled :: bool
  cfg_skip_after_secs :: nat
  cfg_public_url :: string

record stream_ad_context =
  sc_viewer_count :: nat
  sc_stream_duration_secs :: nat
  sc_categories :: "string list"
  sc_last_ad_at :: "instant option"
  sc_host_user_id :: string

definition rule_context_of :: "stream_ad_context \<Rightarrow> rule_context" where
  "rule_context_of ctx = \<lparr>rc_viewer_count = sc_viewer_count ctx, rc_stream_duration_secs = sc_stream_duration_secs ctx,
     rc_categories = sc_categories ctx, rc_last_ad_at = sc_last_ad_at ctx\<rparr>"

text \<open>What a decision draws at random: the index of a platform ad, the ids of the row and the
  impression, the nonce and the secret of the challenge.\<close>

record decision_draws =
  dd_index :: "nat \<Rightarrow> nat"
  dd_row_id :: string
  dd_token :: string
  dd_nonce :: string
  dd_viewer_secret :: string

record served_ad =
  sa_ad_id :: string
  sa_title :: string
  sa_media_url :: string
  sa_duration_secs :: int
  sa_click_through_url :: "string option"
  sa_owner_type :: string
  sa_impression_token :: string
  sa_challenge :: string
  sa_viewer_secret :: string
  sa_slot :: string
  sa_enforcement :: string
  sa_skip_after_secs :: nat

datatype ad_decision = ServeAd served_ad | NoAd string

definition build_decision ::
  "schedule \<Rightarrow> ad_config \<Rightarrow> decision_draws \<Rightarrow> instant \<Rightarrow> ad_creative \<Rightarrow> string \<Rightarrow> string \<Rightarrow> string \<Rightarrow> bool \<Rightarrow> 'x adsenv \<Rightarrow>
   ad_decision \<times> 'x adsenv" where
  "build_decision \<phi> cfg dd now ad stream_id viewer slot is_live w =
     (let (_, w') = record_decision \<phi> (dd_row_id dd) (dd_token dd) (ac_id ad) stream_id viewer slot (ac_owner_type ad) now w;
          media_url = (case ac_cdn_url ad of Some u \<Rightarrow> u
            | None \<Rightarrow> cfg_public_url cfg @ ''/_mm/client/v1/ads/'' @ ac_id ad @ ''/media'')
      in (ServeAd \<lparr>sa_ad_id = ac_id ad, sa_title = ac_title ad, sa_media_url = media_url, sa_duration_secs = ac_duration_secs ad,
            sa_click_through_url = ac_click_through_url ad, sa_owner_type = ac_owner_type ad, sa_impression_token = dd_token dd,
            sa_challenge = dd_nonce dd, sa_viewer_secret = dd_viewer_secret dd, sa_slot = slot,
            sa_enforcement = (if is_live then ''sfu_permission_revoked'' else ''client_reported''),
            sa_skip_after_secs = cfg_skip_after_secs cfg\<rparr>, w'))"

text \<open>The loop over the streamer's ads: the first whose rules could be read and are empty or match.\<close>

fun first_matching :: "schedule \<Rightarrow> rule_world \<Rightarrow> rule_context \<Rightarrow> ad_creative list \<Rightarrow> 'x adsenv \<Rightarrow> ad_creative option \<times> 'x adsenv" where
  "first_matching \<phi> rw ctx [] w = (None, w)"
| "first_matching \<phi> rw ctx (ad # ads) w =
     (case sql \<phi> (reads (list_rules (ac_id ad))) w of
        (Inr rules, w') \<Rightarrow>
          if rules = [] \<or> evaluate_rules rw rules ctx then (Some ad, w') else first_matching \<phi> rw ctx ads w'
      | (Inl _, w') \<Rightarrow> first_matching \<phi> rw ctx ads w')"

definition platform_ad :: "schedule \<Rightarrow> ad_config \<Rightarrow> decision_draws \<Rightarrow> string \<Rightarrow> 'x adsenv \<Rightarrow> ad_creative option \<times> 'x adsenv" where
  "platform_ad \<phi> cfg dd slot w =
     (if cfg_platform_ads_enabled cfg then
        case sql \<phi> (reads (list_ready_for_slot ''platform'' None slot)) w of
          (Inr ads, w') \<Rightarrow> (if ads \<noteq> [] then Some (ads ! dd_index dd (length ads)) else None, w')
        | (Inl _, w') \<Rightarrow> (None, w')
      else (None, w))"

definition streamer_ad ::
  "schedule \<Rightarrow> ad_config \<Rightarrow> rule_world \<Rightarrow> stream_ad_context \<Rightarrow> string \<Rightarrow> 'x adsenv \<Rightarrow> ad_creative option \<times> 'x adsenv" where
  "streamer_ad \<phi> cfg rw ctx slot w =
     (if cfg_streamer_ads_enabled cfg then
        case sql \<phi> (reads (list_ready_for_slot ''creator'' (Some (sc_host_user_id ctx)) slot)) w of
          (Inr ads, w') \<Rightarrow> first_matching \<phi> rw (rule_context_of ctx) ads w'
        | (Inl _, w') \<Rightarrow> (None, w')
      else (None, w))"

definition decide ::
  "schedule \<Rightarrow> ad_config \<Rightarrow> rule_world \<Rightarrow> decision_draws \<Rightarrow> instant \<Rightarrow> string \<Rightarrow> string \<Rightarrow> ad_slot \<Rightarrow> stream_ad_context \<Rightarrow> bool \<Rightarrow>
   'x adsenv \<Rightarrow> ad_decision \<times> 'x adsenv" where
  "decide \<phi> cfg rw dd now stream_id viewer slot ctx is_live w =
     (let slot_str = ad_slot_as_str slot in
      case platform_ad \<phi> cfg dd slot_str w of
        (Some ad, w') \<Rightarrow> build_decision \<phi> cfg dd now ad stream_id viewer slot_str is_live w'
      | (None, w') \<Rightarrow>
        (case streamer_ad \<phi> cfg rw ctx slot_str w' of
           (Some ad, w'') \<Rightarrow> build_decision \<phi> cfg dd now ad stream_id viewer slot_str is_live w''
         | (None, w'') \<Rightarrow> (NoAd ''no matching ad'', w'')))"

section \<open>What is served\<close>

definition fits_slot :: "ad_slot \<Rightarrow> ad_creative \<Rightarrow> bool" where
  "fits_slot slot a \<longleftrightarrow> ac_status a = ''ready'' \<and> (ac_placement a = ad_slot_as_str slot \<or> ac_placement a = ''any'')"

definition rules_allow :: "rule_world \<Rightarrow> rule_context \<Rightarrow> ads_db \<Rightarrow> ad_creative \<Rightarrow> bool" where
  "rules_allow rw ctx d a \<longleftrightarrow>
     (let rules = filter (\<lambda>r. ar_ad_id r = ac_id a \<and> ar_active r) (adb_rules d) in
      rules = [] \<or> list_ex (\<lambda>r. evaluate_rule rw r ctx) rules)"

definition eligible :: "ad_config \<Rightarrow> rule_world \<Rightarrow> stream_ad_context \<Rightarrow> ad_slot \<Rightarrow> ads_db \<Rightarrow> ad_creative \<Rightarrow> bool" where
  "eligible cfg rw ctx slot d a \<longleftrightarrow> a \<in> set (adb_creatives d) \<and> fits_slot slot a
     \<and> (cfg_platform_ads_enabled cfg \<and> ac_owner_type a = ''platform''
        \<or> cfg_streamer_ads_enabled cfg \<and> ac_owner_type a = ''creator'' \<and> ac_owner_id a = sc_host_user_id ctx
          \<and> rules_allow rw (rule_context_of ctx) d a)"

lemma rules_allow_listed: "rules_allow rw ctx d a \<longleftrightarrow> list_rules (ac_id a) d = [] \<or> evaluate_rules rw (list_rules (ac_id a) d) ctx"
proof -
  have "sort_key f xs = [] \<longleftrightarrow> xs = []" for f :: "ad_rule \<Rightarrow> int" and xs by (metis length_0_conv length_sort)
  then show ?thesis by (simp add: rules_allow_def list_rules_def evaluate_rules_def list_ex_iff)
qed

lemma in_ready_list:
  "a \<in> set (list_ready_for_slot ow oi (ad_slot_as_str slot) d) \<longleftrightarrow> a \<in> set (adb_creatives d) \<and> fits_slot slot a
     \<and> ac_owner_type a = ow \<and> (case oi of Some i \<Rightarrow> ac_owner_id a = i | None \<Rightarrow> True)"
  by (auto simp: list_ready_for_slot_def fits_slot_def)

lemma first_matching_some:
  "first_matching \<phi> rw ctx ads w = (Some a, w') \<Longrightarrow> world_db w' = world_db w \<and> a \<in> set ads \<and> rules_allow rw ctx (world_db w) a"
proof (induction \<phi> rw ctx ads w rule: first_matching.induct)
  case (2 \<phi> rw ctx ad ads w)
  obtain res w1 where r: "sql \<phi> (reads (list_rules (ac_id ad))) w = (res, w1)" by (cases "sql \<phi> (reads (list_rules (ac_id ad))) w")
  then have d: "world_db w1 = world_db w" using sql_reads_db [of \<phi> "list_rules (ac_id ad)" w] by simp
  show ?case
  proof (cases res)
    case (Inl e)
    with 2(1) [OF r [symmetric] Inl] 2(3) r d show ?thesis by auto
  next
    case (Inr rules)
    then have "rules = list_rules (ac_id ad) (world_db w)" using r sql_reads_Inr [of \<phi> "list_rules (ac_id ad)" w rules] by simp
    with 2(2) [OF r [symmetric] Inr] 2(3) r d Inr show ?thesis
      by (auto simp: rules_allow_listed split: if_splits)
  qed
qed simp

lemma first_matching_none:
  "first_matching \<phi> rw ctx ads w = (None, w') \<Longrightarrow> world_db w' = world_db w"
proof (induction \<phi> rw ctx ads w rule: first_matching.induct)
  case (2 \<phi> rw ctx ad ads w)
  obtain res w1 where r: "sql \<phi> (reads (list_rules (ac_id ad))) w = (res, w1)" by (cases "sql \<phi> (reads (list_rules (ac_id ad))) w")
  then have "world_db w1 = world_db w" using sql_reads_db [of \<phi> "list_rules (ac_id ad)" w] by simp
  with 2(1) [OF r [symmetric]] 2(2) [OF r [symmetric]] 2(3) r show ?case
    by (cases res) (auto split: if_splits)
qed simp

lemma first_matching_no_faults:
  "fst (first_matching no_faults rw ctx ads w) = None \<longleftrightarrow> \<not> list_ex (rules_allow rw ctx (world_db w)) ads"
  by (induction ads arbitrary: w) (auto simp: reads_def rules_allow_listed)

lemma platform_ad_sound:
  assumes "platform_ad \<phi> cfg dd (ad_slot_as_str slot) w = (res, w')" and "\<And>n. 0 < n \<Longrightarrow> dd_index dd n < n"
  shows "world_db w' = world_db w \<and> (case res of None \<Rightarrow> True | Some a \<Rightarrow> ac_owner_type a = ''platform'' \<and> eligible cfg rw ctx slot (world_db w) a)"
proof -
  let ?q = "list_ready_for_slot ''platform'' None (ad_slot_as_str slot)"
  obtain r w1 where q: "sql \<phi> (reads ?q) w = (r, w1)" by (cases "sql \<phi> (reads ?q) w")
  then have d: "world_db w1 = world_db w" and r: "\<And>ads. r = Inr ads \<Longrightarrow> ads = ?q (world_db w)"
    using sql_reads_db [of \<phi> ?q w] sql_reads_Inr [of \<phi> ?q w] by simp_all
  have "ads ! dd_index dd (length ads) \<in> set ads" if "ads \<noteq> []" for ads :: "ad_creative list"
    using that assms(2) by (intro nth_mem) simp
  from this [of "?q (world_db w)"] show ?thesis using assms(1) q d r
    by (cases r) (auto simp: platform_ad_def eligible_def in_ready_list split: if_splits)
qed

lemma streamer_ad_sound:
  assumes "streamer_ad \<phi> cfg rw ctx (ad_slot_as_str slot) w = (res, w')"
  shows "world_db w' = world_db w \<and> (case res of None \<Rightarrow> True | Some a \<Rightarrow> eligible cfg rw ctx slot (world_db w) a)"
proof -
  let ?q = "list_ready_for_slot ''creator'' (Some (sc_host_user_id ctx)) (ad_slot_as_str slot)"
  obtain r w1 where q: "sql \<phi> (reads ?q) w = (r, w1)" by (cases "sql \<phi> (reads ?q) w")
  then have d: "world_db w1 = world_db w" and r: "\<And>ads. r = Inr ads \<Longrightarrow> ads = ?q (world_db w)"
    using sql_reads_db [of \<phi> ?q w] sql_reads_Inr [of \<phi> ?q w] by simp_all
  show ?thesis using assms q d r
    by (cases res; cases r) (auto simp: streamer_ad_def eligible_def in_ready_list
        dest!: first_matching_some first_matching_none split: if_splits)
qed

lemma build_decision_effect:
  assumes "build_decision \<phi> cfg dd now ad stream_id viewer slot is_live w = (res, w')"
  shows "\<exists>s. res = ServeAd s \<and> sa_ad_id s = ac_id ad \<and> sa_owner_type s = ac_owner_type ad \<and> sa_impression_token s = dd_token dd
    \<and> (world_db w' = world_db w
       \<or> world_db w' = (world_db w)\<lparr>adb_impressions := adb_impressions (world_db w)
           @ [decision_row (dd_row_id dd) (dd_token dd) (ac_id ad) stream_id viewer slot (ac_owner_type ad) now]\<rparr>)"
proof -
  let ?row = "decision_row (dd_row_id dd) (dd_token dd) (ac_id ad) stream_id viewer slot (ac_owner_type ad) now"
  have "w' = snd (sql \<phi> (insert_impression ?row) w)"
    using assms by (auto simp: build_decision_def record_decision_def Let_def split: prod.splits sum.splits)
  then have "world_db w' = world_db w \<or> world_db w' = snd (insert_impression ?row (world_db w))"
    using sql_db [of \<phi> "insert_impression ?row" w] by simp
  then show ?thesis using assms
    by (auto simp: build_decision_def insert_impression_def Let_def split: prod.splits if_splits)
qed

lemma platform_ad_none:
  assumes "platform_ad no_faults cfg dd (ad_slot_as_str slot) w = (None, w')"
  shows "\<not> list_ex (\<lambda>b. eligible cfg rw ctx slot (world_db w) b \<and> ac_owner_type b = ''platform'') (adb_creatives (world_db w))"
proof -
  have "cfg_platform_ads_enabled cfg \<Longrightarrow> list_ready_for_slot ''platform'' None (ad_slot_as_str slot) (world_db w) = []"
    using assms by (auto simp: platform_ad_def reads_def split: if_splits)
  then show ?thesis using in_ready_list [of _ "''platform''" None slot "world_db w"] by (auto simp: list_ex_iff eligible_def)
qed

lemma streamer_ad_none:
  assumes "streamer_ad no_faults cfg rw ctx (ad_slot_as_str slot) w = (None, w')"
  shows "\<not> list_ex (\<lambda>b. eligible cfg rw ctx slot (world_db w) b \<and> ac_owner_type b \<noteq> ''platform'') (adb_creatives (world_db w))"
proof -
  let ?ads = "list_ready_for_slot ''creator'' (Some (sc_host_user_id ctx)) (ad_slot_as_str slot) (world_db w)"
  have "\<not> list_ex (rules_allow rw (rule_context_of ctx) (world_db w)) ?ads" if "cfg_streamer_ads_enabled cfg"
    using assms that first_matching_no_faults [of rw "rule_context_of ctx" ?ads "(fst w, Suc (snd w))"]
    by (simp add: streamer_ad_def reads_def)
  then show ?thesis
    using in_ready_list [of _ "''creator''" "Some (sc_host_user_id ctx)" slot "world_db w"] by (auto simp: list_ex_iff eligible_def)
qed

text \<open>C18: What the decision engine serves and records, whatever fails. An ad that is served is a ready
  creative for the slot: a platform ad when those are on, or an ad of the stream's own host when those
  are on and its active rules are none or one of them matches. Serving appends at most the one
  impression row for the token it hands out; serving nothing changes nothing. When no statement
  fails, nothing is served exactly when no ad is eligible, and a platform ad is served whenever
  one is eligible. Eligibility does not look at the viewer: the check for subscribers with an ad-free
  perk that the documentation of \<^verbatim>\<open>decide\<close> lists first, and that the API promises, is not in the code.\<close>

theorem decide_serves_eligible:
  assumes "\<And>n. 0 < n \<Longrightarrow> dd_index dd n < n" and "decide \<phi> cfg rw dd now stream_id viewer slot ctx is_live w = (res, w')"
  shows "(case res of
            NoAd reason \<Rightarrow> world_db w' = world_db w \<and> (\<phi> = no_faults \<longrightarrow> \<not> list_ex (eligible cfg rw ctx slot (world_db w)) (adb_creatives (world_db w)))
          | ServeAd s \<Rightarrow> (\<exists>a. eligible cfg rw ctx slot (world_db w) a \<and> sa_ad_id s = ac_id a \<and> sa_owner_type s = ac_owner_type a
              \<and> sa_impression_token s = dd_token dd
              \<and> (\<phi> = no_faults \<longrightarrow> ac_owner_type a = ''platform'' \<or>
                   \<not> list_ex (\<lambda>b. eligible cfg rw ctx slot (world_db w) b \<and> ac_owner_type b = ''platform'') (adb_creatives (world_db w)))
              \<and> (world_db w' = world_db w
                 \<or> world_db w' = (world_db w)\<lparr>adb_impressions := adb_impressions (world_db w)
                     @ [decision_row (dd_row_id dd) (dd_token dd) (ac_id a) stream_id viewer (ad_slot_as_str slot) (ac_owner_type a) now]\<rparr>)))"
proof -
  let ?slot = "ad_slot_as_str slot"
  obtain p w1 where p: "platform_ad \<phi> cfg dd ?slot w = (p, w1)" by (cases "platform_ad \<phi> cfg dd ?slot w")
  obtain q w2 where q: "streamer_ad \<phi> cfg rw ctx ?slot w1 = (q, w2)" by (cases "streamer_ad \<phi> cfg rw ctx ?slot w1")
  note ps = platform_ad_sound [OF p assms(1), where rw = rw and ctx = ctx]
  note qs = streamer_ad_sound [OF q]
  have serve: ?thesis
    if b: "build_decision \<phi> cfg dd now a stream_id viewer ?slot is_live wx = (res, w')" and "world_db wx = world_db w"
      "eligible cfg rw ctx slot (world_db w) a"
      "\<phi> = no_faults \<Longrightarrow> ac_owner_type a = ''platform'' \<or>
         \<not> list_ex (\<lambda>b. eligible cfg rw ctx slot (world_db w) b \<and> ac_owner_type b = ''platform'') (adb_creatives (world_db w))" for a wx
  proof -
    from build_decision_effect [OF b] obtain s where "res = ServeAd s" "sa_ad_id s = ac_id a" "sa_owner_type s = ac_owner_type a"
      "sa_impression_token s = dd_token dd" "world_db w' = world_db wx \<or> world_db w' = (world_db wx)\<lparr>adb_impressions := adb_impressions (world_db wx)
           @ [decision_row (dd_row_id dd) (dd_token dd) (ac_id a) stream_id viewer ?slot (ac_owner_type a) now]\<rparr>" by blast
    with that(2-4) show ?thesis unfolding \<open>res = ServeAd s\<close> ad_decision.case by (intro exI [of _ a]) simp
  qed
  show ?thesis
  proof (cases p)
    case (Some a)
    with assms(2) p have "build_decision \<phi> cfg dd now a stream_id viewer ?slot is_live w1 = (res, w')" by (simp add: decide_def)
    then show ?thesis by (rule serve) (use ps Some in auto)
  next
    case None
    note p_none = platform_ad_none [of cfg dd slot w w1]
    show ?thesis
    proof (cases q)
      case (Some a)
      with assms(2) p q None have "build_decision \<phi> cfg dd now a stream_id viewer ?slot is_live w2 = (res, w')" by (simp add: decide_def)
      then show ?thesis by (rule serve) (use ps qs Some None p p_none in auto)
    next
      case q_none: None
      with assms(2) p q None have "res = NoAd ''no matching ad''" "w' = w2" by (simp_all add: decide_def)
      with ps qs None q_none p q p_none streamer_ad_none [of cfg rw ctx slot w1 w2] show ?thesis by (auto simp: list_ex_iff)
    qed
  qed
qed

definition house_ad :: "string \<Rightarrow> string \<Rightarrow> string \<Rightarrow> ad_creative" where
  "house_ad i owner_type owner_id = \<lparr>ac_id = i, ac_owner_type = owner_type, ac_owner_id = owner_id, ac_title = ''t'',
     ac_placement = ''any'', ac_duration_secs = 15, ac_storage_key = ''k'', ac_storage_backend = ''local'', ac_cdn_url = None,
     ac_mime_type = ''video/mp4'', ac_file_size_bytes = 1, ac_click_through_url = None, ac_categories = JArr [],
     ac_status = ''ready'', ac_created_at = 0, ac_updated_at = 0\<rparr>"

definition viewers_rule :: "string \<Rightarrow> string \<Rightarrow> nat \<Rightarrow> ad_rule" where
  "viewers_rule i ad_id n = \<lparr>ar_id = i, ar_ad_id = ad_id, ar_rule_type = ''viewer_count_min'',
     ar_rule_config = JObj [(''min_viewers'', JPos n)], ar_priority = 0, ar_active = True, ar_created_at = 0\<rparr>"

definition sample_ads :: "ads_db" where
  "sample_ads = \<lparr>adb_creatives = [house_ad ''a'' ''creator'' ''h''], adb_rules = [viewers_rule ''r'' ''a'' 2], adb_impressions = []\<rparr>"

definition sample_draws :: decision_draws where
  "sample_draws = \<lparr>dd_index = (\<lambda>n. n - 1), dd_row_id = ''i'', dd_token = ''t'', dd_nonce = ''n'', dd_viewer_secret = ''k''\<rparr>"

definition sample_config :: ad_config where
  "sample_config = \<lparr>cfg_platform_ads_enabled = True, cfg_streamer_ads_enabled = True, cfg_skip_after_secs = 5, cfg_public_url = ''u''\<rparr>"

definition sample_rule_world :: rule_world where
  "sample_rule_world = \<lparr>rw_now = (\<lambda>_. 0), rw_random = (\<lambda>_. Fin 0)\<rparr>"

definition sample_context :: "nat \<Rightarrow> stream_ad_context" where
  "sample_context n = \<lparr>sc_viewer_count = n, sc_stream_duration_secs = 0, sc_categories = [], sc_last_ad_at = None, sc_host_user_id = ''h''\<rparr>"

definition sample_decision :: "nat \<Rightarrow> ad_decision \<times> unit adsenv" where
  "sample_decision n = decide no_faults sample_config sample_rule_world sample_draws 0 ''s'' ''v'' PreRoll (sample_context n) True
     ((sample_ads, ()), 0)"

text \<open>With three viewers the host's ad is served and recorded, with one its rule keeps it back.\<close>

theorem decide_serves_eligible_witness:
  "list_ex (eligible sample_config sample_rule_world (sample_context 3) PreRoll sample_ads) (adb_creatives sample_ads)
 \<and> \<not> list_ex (eligible sample_config sample_rule_world (sample_context 1) PreRoll sample_ads) (adb_creatives sample_ads)
 \<and> map im_token (adb_impressions (world_db (snd (sample_decision 3)))) = [''t'']
 \<and> fst (sample_decision 1) = NoAd ''no matching ad''"
proof -
  have i: "dd_index sample_draws n < n" if "0 < n" for n using that by (simp add: sample_draws_def)
  have e: "map im_token (adb_impressions (world_db (snd (sample_decision 3)))) = [''t'']" "fst (sample_decision 1) = NoAd ''no matching ad''"
    "(case fst (sample_decision 3) of ServeAd s \<Rightarrow> sa_ad_id s | NoAd _ \<Rightarrow> []) = ''a''"
    by code_simp+
  from e(3) obtain s where "fst (sample_decision 3) = ServeAd s" by (cases "fst (sample_decision 3)") auto
  then have d3: "decide no_faults sample_config sample_rule_world sample_draws 0 ''s'' ''v'' PreRoll (sample_context 3) True
      ((sample_ads, ()), 0) = (ServeAd s, snd (sample_decision 3))"
    unfolding sample_decision_def [symmetric] by (metis prod.collapse)
  from decide_serves_eligible [OF i d3]
  have "list_ex (eligible sample_config sample_rule_world (sample_context 3) PreRoll sample_ads) (adb_creatives sample_ads)"
    by (auto simp: list_ex_iff eligible_def)
  moreover have d1: "decide no_faults sample_config sample_rule_world sample_draws 0 ''s'' ''v'' PreRoll (sample_context 1) True
      ((sample_ads, ()), 0) = (NoAd ''no matching ad'', snd (sample_decision 1))"
    using e(2) unfolding sample_decision_def [symmetric] by (metis prod.collapse)
  from decide_serves_eligible [OF i d1]
  have "\<not> list_ex (eligible sample_config sample_rule_world (sample_context 1) PreRoll sample_ads) (adb_creatives sample_ads)" by simp
  ultimately show ?thesis using e by blast
qed

end
