(* ===== verification/Ad_Impressions.thy ===== *)
theory Ad_Impressions
  imports Ad_Decision
begin

text \<open>
  The impression table as an audit trail (\<^verbatim>\<open>crates/mm-ads/src/impression.rs\<close>): what every run of the
  impression service keeps, and what a failed update of an ad's rules loses.
\<close>

section \<open>What impressions keep\<close>

datatype impression_op =
  RecordDecision string string string string string string string instant
| UpdateEvent string ad_event instant
| SfuRevoked string instant
| SfuRestored string instant

fun run_impression_op :: "schedule \<Rightarrow> impression_op \<Rightarrow> 'x adsenv \<Rightarrow> 'x adsenv" where
  "run_impression_op \<phi> (RecordDecision i token ad_id stream_id viewer slot owner_type now) w =
     snd (record_decision \<phi> i token ad_id stream_id viewer slot owner_type now w)"
| "run_impression_op \<phi> (UpdateEvent token ev now) w = snd (update_event \<phi> token ev now w)"
| "run_impression_op \<phi> (SfuRevoked token now) w = snd (record_sfu_revoked \<phi> token now w)"
| "run_impression_op \<phi> (SfuRestored token now) w = snd (record_sfu_restored \<phi> token now w)"

text \<open>What an impression keeps from one state to a later one.\<close>

definition still_set :: "'a option \<Rightarrow> 'a option \<Rightarrow> bool" where
  "still_set x y \<longleftrightarrow> (x = None \<or> y \<noteq> None)"

definition same_once_set :: "'a option \<Rightarrow> 'a option \<Rightarrow> bool" where
  "same_once_set x y \<longleftrightarrow> (x = None \<or> y = x)"

definition imp_grows :: "ad_impression \<Rightarrow> ad_impression \<Rightarrow> bool" where
  "imp_grows r r' \<longleftrightarrow> im_id r' = im_id r \<and> im_token r' = im_token r \<and> im_ad_id r' = im_ad_id r \<and> im_stream_id r' = im_stream_id r
     \<and> im_viewer r' = im_viewer r \<and> im_slot r' = im_slot r \<and> im_owner_type r' = im_owner_type r \<and> im_decided_at r' = im_decided_at r
     \<and> same_once_set (im_started_at r) (im_started_at r')
     \<and> still_set (im_completed_at r) (im_completed_at r') \<and> still_set (im_skipped_at r) (im_skipped_at r')
     \<and> still_set (im_clicked_at r) (im_clicked_at r') \<and> still_set (im_error_at r) (im_error_at r')
     \<and> still_set (im_sfu_revoked_at r) (im_sfu_revoked_at r') \<and> still_set (im_sfu_restored_at r) (im_sfu_restored_at r')
     \<and> im_quartile_reached r \<le> im_quartile_reached r'"

definition imp_wf :: "ad_impression \<Rightarrow> bool" where
  "imp_wf r \<longleftrightarrow> 0 \<le> im_quartile_reached r \<and> im_quartile_reached r \<le> 4 \<and> (im_completed_at r = None \<or> im_quartile_reached r = 4)"

definition impressions_wf :: "ads_db \<Rightarrow> bool" where
  "impressions_wf d \<longleftrightarrow> list_all imp_wf (adb_impressions d) \<and> distinct (map im_token (adb_impressions d))
     \<and> distinct (map im_id (adb_impressions d)) \<and> list_all (\<lambda>r. im_ad_id r \<in> ac_id ` set (adb_creatives d)) (adb_impressions d)"

definition ads_grow :: "ads_db \<Rightarrow> ads_db \<Rightarrow> bool" where
  "ads_grow d d' \<longleftrightarrow> adb_creatives d' = adb_creatives d \<and> adb_rules d' = adb_rules d
     \<and> length (adb_impressions d) \<le> length (adb_impressions d')
     \<and> (\<forall>i < length (adb_impressions d). imp_grows (adb_impressions d ! i) (adb_impressions d' ! i))"

definition row_step :: "(ad_impression \<Rightarrow> ad_impression) \<Rightarrow> bool" where
  "row_step f \<longleftrightarrow> (\<forall>r. imp_wf r \<longrightarrow> imp_grows r (f r) \<and> imp_wf (f r))"

lemma set_trans:
  "still_set x y \<Longrightarrow> still_set y z \<Longrightarrow> still_set x z"
  "same_once_set x y \<Longrightarrow> same_once_set y z \<Longrightarrow> same_once_set x z"
  by (auto simp: still_set_def same_once_set_def)

lemma set_refl [simp]: "still_set x x" "still_set x (Some y)" "same_once_set x x" "same_once_set None z"
  by (auto simp: still_set_def same_once_set_def)

lemma imp_grows_refl: "imp_grows r r"
  by (simp add: imp_grows_def)

lemma imp_grows_trans: "imp_grows r s \<Longrightarrow> imp_grows s t \<Longrightarrow> imp_grows r t"
  unfolding imp_grows_def by (elim conjE, intro conjI; (rule set_trans order_trans, assumption, assumption)?) simp_all

lemma ads_grow_refl: "ads_grow d d"
  by (simp add: ads_grow_def imp_grows_refl)

lemma ads_grow_trans: "ads_grow d e \<Longrightarrow> ads_grow e f \<Longrightarrow> ads_grow d f"
  unfolding ads_grow_def by (auto dest: imp_grows_trans order.strict_trans2)

lemma event_update_step: "event_update ev now = Some f \<Longrightarrow> row_step f"
  by (cases ev) (auto simp: event_update_def row_step_def imp_grows_def imp_wf_def)

lemma sfu_step:
  "row_step (\<lambda>r. r\<lparr>im_sfu_revoked_at := Some now\<rparr>)" "row_step (\<lambda>r. r\<lparr>im_sfu_restored_at := Some now\<rparr>)"
  by (auto simp: row_step_def imp_grows_def imp_wf_def)

lemma update_impressions_grows:
  assumes "row_step f" and "impressions_wf d"
  shows "ads_grow d (snd (update_impressions token f d)) \<and> impressions_wf (snd (update_impressions token f d))"
proof -
  let ?g = "\<lambda>r. if im_token r = token then f r else r"
  have g: "imp_grows r (?g r) \<and> imp_wf (?g r)" if "r \<in> set (adb_impressions d)" for r
    using that assms by (auto simp: row_step_def impressions_wf_def list_all_iff imp_grows_refl)
  have same: "im_token (?g r) = im_token r \<and> im_id (?g r) = im_id r \<and> im_ad_id (?g r) = im_ad_id r" if "r \<in> set (adb_impressions d)" for r
    using g [OF that] unfolding imp_grows_def by blast
  then have "map im_token (map ?g (adb_impressions d)) = map im_token (adb_impressions d)"
    "map im_id (map ?g (adb_impressions d)) = map im_id (adb_impressions d)"
    unfolding map_map comp_def by (auto intro!: map_cong [OF refl])
  moreover have "list_all (\<lambda>r. im_ad_id r \<in> ac_id ` set (adb_creatives d)) (map ?g (adb_impressions d))"
    using same assms(2) unfolding impressions_wf_def list_all_iff set_map by force
  moreover have "list_all imp_wf (map ?g (adb_impressions d))" using g unfolding list_all_iff set_map by blast
  ultimately have "impressions_wf (snd (update_impressions token f d))"
    using assms(2) by (simp add: impressions_wf_def update_impressions_def del: map_map list.pred_map)
  moreover have "ads_grow d (snd (update_impressions token f d))" using g by (simp add: ads_grow_def update_impressions_def)
  ultimately show ?thesis by blast
qed

lemma insert_impression_grows:
  assumes "imp_wf r" and "impressions_wf d"
  shows "ads_grow d (snd (insert_impression r d)) \<and> impressions_wf (snd (insert_impression r d))"
  using assms by (auto simp: insert_impression_def ads_grow_def impressions_wf_def nth_append imp_grows_refl)

definition impressions_kept :: "ads_db \<Rightarrow> 'x adsenv \<Rightarrow> bool" where
  "impressions_kept d0 w \<longleftrightarrow> ads_grow d0 (world_db w) \<and> impressions_wf (world_db w)"

lemma sql_kept:
  assumes "\<And>d. impressions_wf d \<Longrightarrow> ads_grow d (snd (f d)) \<and> impressions_wf (snd (f d))" and "impressions_kept d0 w"
  shows "impressions_kept d0 (snd (sql \<phi> f w))"
proof -
  have "ads_grow d0 (snd (f (world_db w))) \<and> impressions_wf (snd (f (world_db w)))"
    using assms(1) [of "world_db w"] assms(2) ads_grow_trans [of d0 "world_db w"] unfolding impressions_kept_def by blast
  then show ?thesis using assms(2) sql_db [of \<phi> f w] unfolding impressions_kept_def by (elim disjE) simp_all
qed

lemma update_kept: "row_step f \<Longrightarrow> impressions_kept d0 w \<Longrightarrow> impressions_kept d0 (snd (sql \<phi> (update_impressions token f) w))"
  by (rule sql_kept, rule update_impressions_grows)

lemma insert_kept: "imp_wf r \<Longrightarrow> impressions_kept d0 w \<Longrightarrow> impressions_kept d0 (snd (sql \<phi> (insert_impression r) w))"
  by (rule sql_kept, rule insert_impression_grows)

lemma decision_row_wf: "imp_wf (decision_row i token ad_id stream_id viewer slot owner_type now)"
  by (simp add: imp_wf_def decision_row_def)

lemma record_decision_world:
  "snd (record_decision \<phi> i token ad_id stream_id viewer slot owner_type now w)
     = snd (sql \<phi> (insert_impression (decision_row i token ad_id stream_id viewer slot owner_type now)) w)"
  by (simp add: record_decision_def split: prod.splits sum.splits)

lemma run_impression_kept: "impressions_kept d0 w \<Longrightarrow> impressions_kept d0 (run_impression_op \<phi> e w)"
  by (cases e)
    (simp_all add: record_decision_world insert_kept decision_row_wf update_event_def update_kept event_update_step
      record_sfu_revoked_def record_sfu_restored_def sfu_step split: option.split)

interpretation impression_runs: invariant_system "run_impression_op \<phi>" "impressions_kept d0" for \<phi> d0
  by unfold_locales (rule run_impression_kept)

text \<open>C19: The impression records are an audit trail. Over any run of decisions, player events and
  enforcement records, whichever statements fail: no impression disappears or moves, its identity, its
  ad, its viewer and its decision time never change, the first start is kept, a completion, skip, click,
  error or enforcement mark once set stays set, and the quartile reached only grows, up to 4, which it
  is once the ad completed. Tokens and ids stay unique and every impression is of a known ad.\<close>

theorem impressions_audit_trail:
  assumes "impressions_wf (world_db w)"
  shows "ads_grow (world_db w) (world_db (fold (run_impression_op \<phi>) ops w)) \<and> impressions_wf (world_db (fold (run_impression_op \<phi>) ops w))"
  using impression_runs.run_keeps [of "world_db w" w] assms ads_grow_refl unfolding impressions_kept_def by blast

text \<open>A decision whose acknowledgement is lost, then the player's events.\<close>

definition sample_ops :: "impression_op list" where
  "sample_ops = [RecordDecision ''i'' ''t'' ''a'' ''s'' ''v'' ''pre_roll'' ''creator'' 1, UpdateEvent ''t'' ImpressionEv 2,
     UpdateEvent ''t'' Completed 3, UpdateEvent ''t'' Quartile25 4]"

definition lossy :: schedule where
  "lossy n = (if n = 0 then FailsAfter ''lost'' else Works)"

theorem impressions_audit_trail_witness:
  "impressions_wf sample_ads
 \<and> impressions_wf (world_db (fold (run_impression_op lossy) sample_ops ((sample_ads, ()), 0)))
 \<and> map im_quartile_reached (adb_impressions (world_db (fold (run_impression_op lossy) sample_ops ((sample_ads, ()), 0)))) = [4]"
proof -
  have wf: "impressions_wf (world_db ((sample_ads, ()), 0 :: nat))" by (simp add: impressions_wf_def sample_ads_def)
  have q: "map im_quartile_reached (adb_impressions (world_db (fold (run_impression_op lossy) sample_ops ((sample_ads, ()), 0)))) = [4]"
    by code_simp
  from impressions_audit_trail [OF wf, of lossy sample_ops] wf q show ?thesis by simp
qed

section \<open>Replacing the rules of an ad\<close>

text \<open>C40: Replacing the rules of an ad is not atomic, and losing them frees the ad. When the first insert
  fails after the old rules are deleted, the call reports the failure, the ad has no rules left, and
  an ad without rules is allowed in every context, even one that neither the old nor the new rules
  allow.\<close>

theorem failed_rule_update_frees_ad:
  assumes "\<phi> (snd w) = Works" and "\<phi> (Suc (snd w)) = FailsBefore e"
  shows "fst (set_rules \<phi> (ac_id a) now (r # rs) w) = Inl (Failed e)
       \<and> list_rules (ac_id a) (world_db (snd (set_rules \<phi> (ac_id a) now (r # rs) w))) = []
       \<and> rules_allow rw ctx (world_db (snd (set_rules \<phi> (ac_id a) now (r # rs) w))) a"
  using assms
  by (simp add: set_rules_def sql_def db_call_def delete_rules_def list_rules_def rules_allow_def)

theorem failed_rule_update_frees_ad_witness:
  "let \<phi> = (\<lambda>n. if n = 1 then FailsBefore ''down'' else Works) :: schedule; a = house_ad ''a'' ''creator'' ''h'' in
     \<not> rules_allow sample_rule_world (rule_context_of (sample_context 1)) sample_ads a
   \<and> \<not> evaluate_rule sample_rule_world (viewers_rule ''q'' ''a'' 5) (rule_context_of (sample_context 1))
   \<and> rules_allow sample_rule_world (rule_context_of (sample_context 1))
       (world_db (snd (set_rules \<phi> ''a'' 9 [viewers_rule ''q'' ''a'' 5] ((sample_ads, ()), 0)))) a"
proof -
  let ?f = "(\<lambda>n. if n = 1 then FailsBefore ''down'' else Works) :: schedule" and ?w = "((sample_ads, ()), 0 :: nat)"
  have "?f (snd ?w) = Works" "?f (Suc (snd ?w)) = FailsBefore ''down''" by simp_all
  from failed_rule_update_frees_ad [OF this, of "house_ad ''a'' ''creator'' ''h''" 9 "viewers_rule ''q'' ''a'' 5" "[]" sample_rule_world
      "rule_context_of (sample_context 1)"]
  have "rules_allow sample_rule_world (rule_context_of (sample_context 1))
       (world_db (snd (set_rules ?f ''a'' 9 [viewers_rule ''q'' ''a'' 5] ?w))) (house_ad ''a'' ''creator'' ''h'')"
    by (simp add: house_ad_def)
  moreover have "\<not> rules_allow sample_rule_world (rule_context_of (sample_context 1)) sample_ads (house_ad ''a'' ''creator'' ''h'')"
    "\<not> evaluate_rule sample_rule_world (viewers_rule ''q'' ''a'' 5) (rule_context_of (sample_context 1))" by code_simp+
  ultimately show ?thesis by (simp only: Let_def)  blast
qed

end
