(* ===== verification/Spec2Isabelle.thy ===== *)
theory Spec2Isabelle
  imports Runner Media_Switch Rating_Progress Ladder_Audit Meter_Loop Switch_Pool Ebml_Block Ad_Impressions
begin

text \<open>
  A verification development for MatrixMedia, a live streaming service on top of Matrix: Rust crates
  under \<^verbatim>\<open>src/crates\<close> and the media switch \<^verbatim>\<open>src/services/mm-switch\<close> in Go.

  \<^bold>\<open>The program.\<close> A broadcaster goes live. The fleet (\<^verbatim>\<open>mm-core/src/fleet\<close>, \<^verbatim>\<open>mm-fleet\<close>) rents machines
  for the broadcast: a planner computes the nodes it should have, a store keeps them in PostgreSQL, a
  runner reconciles and renders them for Terraform, and two sweepers destroy what is overdue or unknown. On
  each machine a media switch forwards packets to viewers and counts the bytes. The meter polls the
  counters and writes usage events, the rater charges them to the broadcaster's prepaid wallet, and the
  demotion ladder takes features from broadcasts whose money runs out. The API places viewers on
  switches and decides which ads they see; the switch stores media in an EBML container.

  \<^bold>\<open>Shared vocabulary.\<close>
  \<^item> \<^verbatim>\<open>MM_Prelude\<close>: machine integers (wrap-around and saturation written out), the string operations of the
    code, fault schedules, and the interfaces \<open>keyed_table\<close>, \<open>printable_enum\<close>, \<open>exact_enum\<close>,
    \<open>guarded_system\<close> and \<open>invariant_system\<close> that the components instantiate.
  \<^item> \<^verbatim>\<open>MM_Float\<close>: \<^verbatim>\<open>f64\<close> arithmetic exactly, by rounding to nearest; the interface \<open>binary_rounding\<close>.
  \<^item> \<^verbatim>\<open>Database\<close>: the tables of \<^verbatim>\<open>mm-db/migrations/V034\<close> to \<^verbatim>\<open>V038\<close> as records of rows. A statement is a
    function on the database; \<open>sql\<close> runs it under a schedule that lets any call fail before it takes
    effect, or take effect and lose its answer. The state of a component is the database, whatever else it
    drives (a provider, an actuator, a file, a switch), and the number of calls made.

  \<^bold>\<open>The fleet.\<close>
  \<^item> \<^verbatim>\<open>Fleet_Types\<close> (\<^verbatim>\<open>fleet/mod.rs\<close>, the kill switch of \<^verbatim>\<open>config.rs\<close>): ownership, flavor and state of a node.
  \<^item> \<^verbatim>\<open>Fleet_Billing\<close> (\<^verbatim>\<open>fleet/billing.rs\<close>): billing periods, rounding of lifetimes, deferral of a teardown.
  \<^item> \<^verbatim>\<open>Demotion_Ladder\<close> (\<^verbatim>\<open>fleet/ladder.rs\<close>): the rung for a balance and a cost, and its hysteresis. The
    test in floating point is exact up to 53 bits.
  \<^item> \<^verbatim>\<open>Capacity_Planner\<close> (\<^verbatim>\<open>fleet/planner.rs\<close>): \<open>plan\<close>. Gates stop growth only; ceiling; least cover.
  \<^item> \<^verbatim>\<open>Fleet_Store\<close> (\<^verbatim>\<open>desired.rs\<close>, \<^verbatim>\<open>provider.rs\<close>): the desired set, teardown and the interface
    \<open>provider_contract\<close>. Invariant of the schema over all operations, refinement of a map, order of
    teardown.
  \<^item> \<^verbatim>\<open>Sweeper\<close> (\<^verbatim>\<open>sweeper.rs\<close>), \<^verbatim>\<open>Tfvars\<close> (\<^verbatim>\<open>tfvars.rs\<close>), \<^verbatim>\<open>Runner\<close> (\<^verbatim>\<open>runner.rs\<close>): what each may destroy, the
    guard of the rendered file, the modes of the kill switch, the interface \<open>billing_source\<close>, and
    two ways in which planning works against the store.
  \<^item> \<^verbatim>\<open>Fleet_Quotes\<close> (\<^verbatim>\<open>wallet_billing.rs\<close>, \<^verbatim>\<open>ladder_billing.rs\<close>): the quotes that read the wallet, and that a
    tick orders only nodes whose broadcast can pay its whole projection.

  \<^bold>\<open>Money.\<close>
  \<^item> \<^verbatim>\<open>Wallet\<close> (\<^verbatim>\<open>wallet_db.rs\<close>, \<^verbatim>\<open>V035\<close>): the ledger, its trigger and constraints; all outcomes of a charge;
    retries move money once.
  \<^item> \<^verbatim>\<open>Metering\<close> (\<^verbatim>\<open>metering.rs\<close>, \<^verbatim>\<open>metering_db.rs\<close>): from cumulative counters to usage events.
  \<^item> \<^verbatim>\<open>Rating\<close>, \<^verbatim>\<open>Billing_Books\<close>, \<^verbatim>\<open>Rating_Progress\<close> (\<^verbatim>\<open>rating.rs\<close>, \<^verbatim>\<open>metering_db.rs\<close>): from usage events to charges;
    safety of all interleavings with meter and wallet; progress of one pass, payer by payer.
  \<^item> \<^verbatim>\<open>Meter_Loop\<close> (\<^verbatim>\<open>meter_loop.rs\<close>): one turn of both, metrics and log.
  \<^item> \<^verbatim>\<open>Ladder_Store\<close>, \<^verbatim>\<open>Ladder_Loop\<close>, \<^verbatim>\<open>Ladder_Audit\<close> (\<^verbatim>\<open>ladder_db.rs\<close>, \<^verbatim>\<open>ladder_loop.rs\<close>, \<^verbatim>\<open>ladder_actuator.rs\<close>): the
    ladder's memory, one evaluation, whole ticks; interfaces \<open>ladder_actuator_contract\<close> and
    \<open>ladder_wiring\<close>. The audit trail explains every rung, a tick covers every live broadcast, and a
    mode bounds what can be done.

  \<^bold>\<open>Media.\<close>
  \<^item> \<^verbatim>\<open>Media_Switch\<close> (\<^verbatim>\<open>switch.go\<close>, \<^verbatim>\<open>egress.go\<close>, \<^verbatim>\<open>viewer.go\<close>): viewers in a store of objects, routing, and the byte
    counters; which runs meet the meter's expectations, and two that do not.
  \<^item> \<^verbatim>\<open>Switch_Pool\<close> (\<^verbatim>\<open>switch_pool.rs\<close>, \<^verbatim>\<open>switch_proxy.rs\<close>, \<^verbatim>\<open>ad_affinity.rs\<close>): placement and routing of viewers.
  \<^item> \<^verbatim>\<open>Ebml_Value\<close>, \<^verbatim>\<open>Ebml_Codec\<close>, \<^verbatim>\<open>Ebml_Block\<close> (\<^verbatim>\<open>value.go\<close>, \<^verbatim>\<open>lacer.go\<close>, \<^verbatim>\<open>unlacer.go\<close>, \<^verbatim>\<open>block.go\<close>): the codec on words,
    its round trips, framing of blocks on arbitrary input, and when reading panics.
  \<^item> \<^verbatim>\<open>Ad_Decision\<close>, \<^verbatim>\<open>Ad_Impressions\<close> (\<^verbatim>\<open>mm-ads/src\<close>): rules, the decision, and the impressions as an audit
    trail.

  \<^bold>\<open>Bounds and termination.\<close> All functions are total by structural recursion or a measure, except the walk
  of a ladder tick over its pages, which is a \<open>partial_function\<close> shown to return for every page size
  and fault schedule. No definition has fuel. The bound on wallet quotes (\<open>modest\<close>: a million nodes,
  prices up to a million, a horizon of ten million seconds) keeps the wrapping 64-bit product exact. The
  53-bit bound of the ladder is where \<^verbatim>\<open>f64\<close> stops being exact. The EBML properties assume
  lengths of at most \<open>max_alloc\<close>, \<open>2 ^ 48\<close> bytes, the most the Go allocator gives.

  \<^bold>\<open>Parameters.\<close> Code outside the repository is an argument: the cloud provider under its contract, the JSON
  and time formatters, the actuator, the reader and writer of the EBML library, clocks and
  random numbers. Every interface is interpreted on definitions of the model.

  \<^bold>\<open>Not modelled.\<close> HTTP handlers and their JSON, authentication, settings and secrets; the Matrix, LiveKit,
  Stripe and Scaleway clients; donations, feeds, moderation and recommendations, whose logic is in
  SQL or in other services; the RTP and WebRTC transport, relays and recording of the switch, which are
  goroutines around third-party libraries; struct mapping by reflection in the EBML library, and
  its floats. Interleavings inside one lock-protected operation are not represented, and log lines
  and gauges only where a component is about them.
\<close>

section \<open>Wire forms\<close>

text \<open>C36: What the code writes it reads back, and the database accepts exactly what the code reads. For
  ownership, flavor, state and rung the parser inverts the printer and accepts nothing else, and
  the labels of the schema's constraint are exactly the texts it accepts. The two mode switches
  also invert their printers; they accept a text when, without surrounding white space and in
  lower case, it is the printed form of a mode.\<close>

theorem wire_forms_roundtrip:
  "(ownership_parse s = Some ow \<longleftrightarrow> s = ownership_as_str ow) \<and> (s \<in> set ownership_labels \<longleftrightarrow> ownership_parse s \<noteq> None)
 \<and> (flavor_parse s = Some fl \<longleftrightarrow> s = flavor_as_str fl) \<and> (s \<in> set flavor_labels \<longleftrightarrow> flavor_parse s \<noteq> None)
 \<and> (state_parse s = Some st \<longleftrightarrow> s = state_as_str st) \<and> (s \<in> set state_labels \<longleftrightarrow> state_parse s \<noteq> None)
 \<and> (step_parse s = Some r \<longleftrightarrow> s = step_as_str r) \<and> (s \<in> set step_labels \<longleftrightarrow> step_parse s \<noteq> None)
 \<and> (fleet_mode_parse s = Some fm \<longleftrightarrow> to_ascii_lowercase (trim s) = fleet_mode_display fm)
 \<and> fleet_mode_parse (fleet_mode_display fm) = Some fm
 \<and> (ladder_mode_parse s = Some lm \<longleftrightarrow> to_ascii_lowercase (trim s) = ladder_mode_as_str lm)
 \<and> ladder_mode_parse (ladder_mode_as_str lm) = Some lm"
proof -
  have "set ownership_labels = set (map ownership_as_str ownership_all)" "set flavor_labels = set (map flavor_as_str flavor_all)"
    "set state_labels = set (map state_as_str state_all)" "set step_labels = set (map step_as_str step_all)"
    by (simp_all add: ownership_labels_def ownership_all_def flavor_labels_def flavor_all_def state_labels_def state_all_def
        step_labels_def step_all_def)
  moreover have "fleet_mode_parse s = Some fm \<longleftrightarrow> to_ascii_lowercase (trim s) = fleet_mode_display fm"
    by (cases fm) (auto simp: fleet_mode_parse_def Let_def)
  moreover have "ladder_mode_parse s = Some lm \<longleftrightarrow> to_ascii_lowercase (trim s) = ladder_mode_as_str lm"
    by (cases lm) (auto simp: ladder_mode_parse_def Let_def)
  ultimately show ?thesis
    by (simp only: ownership_wire.parse_iff flavor_wire.parse_iff state_wire.parse_iff step_wire.parse_iff
        ownership_wire.parse_None_iff flavor_wire.parse_None_iff state_wire.parse_None_iff step_wire.parse_None_iff
        fleet_mode_wire.parse_as_str ladder_mode_wire.parse_as_str not_not simp_thms)
qed

end
